(* ===== verification/Prelude.thy ===== *)
theory Prelude
  imports Main "HOL-Library.Word" "HOL-Library.AList" "HOL-Library.Monad_Syntax" "HOL-Library.Multiset"
begin

text \<open>
  What every component shares: the types of the model, the operations of Rust's standard library
  that the sources call (checked and saturating arithmetic, slicing, \<open>position\<close>, \<open>split\<close>), and the
  generic lemmas on lists, options and association lists.

  A byte (\<open>u8\<close>) is a \<^typ>\<open>char\<close>, which has exactly the 256 values, so that the byte literals
  of the sources are the literals of the model.  \<open>usize\<close> is 64 bits wide and is modelled by
  \<^typ>\<open>nat\<close> with the bound written out wherever the code checks it; counters that wrap are words.
  A computation that may panic returns an option, and None is the panic.
\<close>

section \<open>Types\<close>

type_synonym bytes = "char list"
type_synonym u32 = "32 word"
type_synonym u64 = "64 word"

text \<open>Collections of rewrite rules that carry the component proofs.\<close>

named_theorems slice_simps \<open>slicing inside its bounds\<close>
named_theorems token_simps \<open>whitespace-separated tokens\<close>
named_theorems conn_simps \<open>frame rules of the connection state\<close>

section \<open>Machine arithmetic\<close>

definition usize_max :: nat where
  "usize_max = 2 ^ 64 - 1"

definition isize_max :: nat where
  "isize_max = 2 ^ 63 - 1"

definition checked_add :: "nat \<Rightarrow> nat \<Rightarrow> nat option" where
  "checked_add a b = (if a + b \<le> usize_max then Some (a + b) else None)"

definition checked_mul :: "nat \<Rightarrow> nat \<Rightarrow> nat option" where
  "checked_mul a b = (if a * b \<le> usize_max then Some (a * b) else None)"

definition saturating_add :: "nat \<Rightarrow> nat \<Rightarrow> nat" where
  "saturating_add a b = min usize_max (a + b)"

text \<open>Plain subtraction on \<open>usize\<close>: an underflow is a panic.\<close>

definition usize_sub :: "nat \<Rightarrow> nat \<Rightarrow> nat option" where
  "usize_sub a b = (if b \<le> a then Some (a - b) else None)"

lemma isize_lt_usize: "isize_max < usize_max"
  by (simp add: isize_max_def usize_max_def)

lemma usize_max_numeral: "usize_max = 18446744073709551615"
  by (simp add: usize_max_def)

lemma isize_max_numeral: "isize_max = 9223372036854775807"
  by (simp add: isize_max_def)

lemma checked_add_Some_iff [simp]:
  "checked_add a b = Some c \<longleftrightarrow> c = a + b \<and> a + b \<le> usize_max"
  by (auto simp: checked_add_def)

lemma checked_add_None_iff [simp]: "checked_add a b = None \<longleftrightarrow> usize_max < a + b"
  by (auto simp: checked_add_def)

lemma checked_mul_Some_iff [simp]:
  "checked_mul a b = Some c \<longleftrightarrow> c = a * b \<and> a * b \<le> usize_max"
  by (auto simp: checked_mul_def)

lemma usize_sub_Some_iff [simp]: "usize_sub a b = Some c \<longleftrightarrow> b \<le> a \<and> c = a - b"
  by (auto simp: usize_sub_def)

lemma unat_u64_bound: "unat (v :: u64) \<le> usize_max"
proof -
  have "unat v < 2 ^ 64" using unsigned_less [of v] by simp
  then show ?thesis by (simp add: usize_max_def)
qed

lemma saturating_add_gt_iff:
  "m < usize_max \<Longrightarrow> m < saturating_add a b \<longleftrightarrow> m < a + b"
  by (auto simp: saturating_add_def)

section \<open>Slices\<close>

text \<open>\<open>&xs[a..b]\<close>: out of range it panics.\<close>

definition slice_range :: "'a list \<Rightarrow> nat \<Rightarrow> nat \<Rightarrow> 'a list option" where
  "slice_range xs a b = (if a \<le> b \<and> b \<le> length xs then Some (take (b - a) (drop a xs)) else None)"

text \<open>\<open>&xs[..b]\<close> and \<open>&xs[a..]\<close>.\<close>

definition slice_to :: "'a list \<Rightarrow> nat \<Rightarrow> 'a list option" where
  "slice_to xs b = slice_range xs 0 b"

definition slice_from :: "'a list \<Rightarrow> nat \<Rightarrow> 'a list option" where
  "slice_from xs a = slice_range xs a (length xs)"

text \<open>\<open>xs[i]\<close> as a value.\<close>

definition index_get :: "'a list \<Rightarrow> nat \<Rightarrow> 'a option" where
  "index_get xs i = (if i < length xs then Some (xs ! i) else None)"

text \<open>\<open>xs[i] = v\<close>.\<close>

definition index_set :: "'a list \<Rightarrow> nat \<Rightarrow> 'a \<Rightarrow> 'a list option" where
  "index_set xs i v = (if i < length xs then Some (xs[i := v]) else None)"

text \<open>\<open>xs[a..b].copy_from_slice(src)\<close>: the lengths must agree.\<close>

definition copy_from_slice :: "'a list \<Rightarrow> nat \<Rightarrow> nat \<Rightarrow> 'a list \<Rightarrow> 'a list option" where
  "copy_from_slice xs a b src =
     (if a \<le> b \<and> b \<le> length xs \<and> length src = b - a
      then Some (take a xs @ src @ drop b xs) else None)"

lemma slice_range_in [slice_simps]:
  "a \<le> b \<Longrightarrow> b \<le> length xs \<Longrightarrow> slice_range xs a b = Some (take (b - a) (drop a xs))"
  by (simp add: slice_range_def)

lemma slice_to_in [slice_simps]: "b \<le> length xs \<Longrightarrow> slice_to xs b = Some (take b xs)"
  by (simp add: slice_to_def slice_range_def)

lemma slice_from_in [slice_simps]: "a \<le> length xs \<Longrightarrow> slice_from xs a = Some (drop a xs)"
  by (simp add: slice_from_def slice_range_def)

lemma index_get_in [slice_simps]: "i < length xs \<Longrightarrow> index_get xs i = Some (xs ! i)"
  by (simp add: index_get_def)

lemma index_set_in [slice_simps]: "i < length xs \<Longrightarrow> index_set xs i v = Some (xs[i := v])"
  by (simp add: index_set_def)

lemma copy_from_slice_in [slice_simps]:
  "a + length src \<le> length xs \<Longrightarrow>
   copy_from_slice xs a (a + length src) src = Some (take a xs @ src @ drop (a + length src) xs)"
  by (simp add: copy_from_slice_def)

section \<open>Iterators\<close>

text \<open>\<open>iter().position(p)\<close>.\<close>

fun position :: "('a \<Rightarrow> bool) \<Rightarrow> 'a list \<Rightarrow> nat option" where
  "position p [] = None"
| "position p (x # xs) = (if p x then Some 0 else map_option Suc (position p xs))"

lemma position_eq:
  "position p xs =
     (if \<exists>x\<in>set xs. p x then Some (length (takeWhile (\<lambda>x. \<not> p x) xs)) else None)"
  by (induction xs) auto

lemma position_None_iff: "position p xs = None \<longleftrightarrow> (\<forall>x\<in>set xs. \<not> p x)"
  by (auto simp: position_eq)

lemma position_SomeD:
  "position p xs = Some i \<Longrightarrow> i < length xs \<and> i = length (takeWhile (\<lambda>x. \<not> p x) xs)"
  by (induction xs arbitrary: i) (auto split: if_splits)

lemma take_length_takeWhile [simp]: "take (length (takeWhile p xs)) xs = takeWhile p xs"
  by (metis takeWhile_eq_take)

lemma drop_length_takeWhile [simp]: "drop (length (takeWhile p xs)) xs = dropWhile p xs"
  by (metis dropWhile_eq_drop)

text \<open>\<open>slice::split(p)\<close>: the pieces between the elements that satisfy p, empty pieces included.\<close>

fun split_on :: "('a \<Rightarrow> bool) \<Rightarrow> 'a list \<Rightarrow> 'a list list" where
  "split_on p [] = [[]]"
| "split_on p (x # xs) =
     (if p x then [] # split_on p xs
      else (case split_on p xs of [] \<Rightarrow> [[x]] | t # ts \<Rightarrow> (x # t) # ts))"

lemma split_on_nonempty [simp]: "split_on p xs \<noteq> []"
  by (cases xs) (auto split: list.splits)

lemma split_on_no_sep: "t \<in> set (split_on p xs) \<Longrightarrow> x \<in> set t \<Longrightarrow> \<not> p x"
  by (induction xs arbitrary: t) (fastforce split: if_splits list.splits)+

lemma split_on_clean: "\<forall>x\<in>set xs. \<not> p x \<Longrightarrow> split_on p xs = [xs]"
  by (induction xs) auto

lemma split_on_append_sep:
  "\<forall>x\<in>set xs. \<not> p x \<Longrightarrow> p d \<Longrightarrow> split_on p (xs @ d # ys) = xs # split_on p ys"
  by (induction xs) auto

section \<open>Folds and association lists\<close>

lemma fold_invariant_list:
  "P s \<Longrightarrow> (\<And>x s. x \<in> set xs \<Longrightarrow> P s \<Longrightarrow> P (f x s)) \<Longrightarrow> P (fold f xs s)"
  by (induction xs arbitrary: s) auto

lemma map_of_alist_delete [simp]: "map_of (AList.delete k xs) = (map_of xs)(k := None)"
  by (simp add: delete_conv')

lemma map_of_alist_update [simp]: "map_of (AList.update k v xs) = (map_of xs)(k \<mapsto> v)"
  by (simp add: update_conv')

section \<open>Results\<close>

text \<open>The operator \<open>?\<close>.\<close>

fun result_bind :: "'e + 'a \<Rightarrow> ('a \<Rightarrow> 'e + 'b) \<Rightarrow> 'e + 'b" where
  "result_bind (Inl e) f = Inl e"
| "result_bind (Inr x) f = f x"

lemma result_bind_Inr: "result_bind r f = Inr y \<longleftrightarrow> (\<exists>x. r = Inr x \<and> f x = Inr y)"
  by (cases r) auto

end
