(* ===== verification/Frame.thy ===== *)
theory Frame
  imports Prelude
begin

text \<open>
  The data of the codec crate: wire frames (\<open>aulon-proto/src/frame.rs\<close>), the error types
  (\<open>aulon-proto/src/error.rs\<close>) and the parse outcome (\<open>aulon-proto/src/parse.rs\<close>).  Borrowed
  slices are byte lists.  The constructors \<open>Ok\<close> and \<open>Err\<close> of the frame enum are called
  \<open>OkFrame\<close> and \<open>ErrFrame\<close>, since the parse outcome also has an \<open>Err\<close>.

  The last section holds the specification of the wire format: when a frame is legal, and the
  byte string that stands for it.  It is written from the format's grammar, not from the emitter.
\<close>

section \<open>Frames and errors\<close>

datatype frame =
    Connect bytes \<comment> \<open>options\<close>
  | Pub bytes "bytes option" bytes \<comment> \<open>subject, reply\_to, payload\<close>
  | Sub bytes "bytes option" bytes \<comment> \<open>subject, queue\_group, sid\<close>
  | Unsub bytes "u64 option" \<comment> \<open>sid, max\_msgs\<close>
  | Msg bytes bytes "bytes option" bytes \<comment> \<open>subject, sid, reply\_to, payload\<close>
  | Ping
  | Pong
  | Info bytes \<comment> \<open>options\<close>
  | OkFrame
  | ErrFrame bytes \<comment> \<open>message\<close>

datatype parse_error =
    UnknownVerb | BadHeader | PayloadLengthInvalid | MaxMsgsInvalid | MissingTrailingCrlf

datatype emit_error = BufferTooSmall (needed: nat) (have_bytes: nat)

datatype parse_outcome = Frame frame nat | NeedMore | Err parse_error

text \<open>The \<open>Display\<close> texts of the errors.\<close>

fun parse_error_text :: "parse_error \<Rightarrow> bytes" where
  "parse_error_text UnknownVerb = ''unknown verb''"
| "parse_error_text BadHeader = ''malformed header line''"
| "parse_error_text PayloadLengthInvalid = ''invalid payload length''"
| "parse_error_text MaxMsgsInvalid = ''invalid UNSUB max_msgs''"
| "parse_error_text MissingTrailingCrlf = ''missing trailing CRLF after payload''"

section \<open>Bytes of the protocol\<close>

definition CR :: char where "CR = CHR 0x0D"
definition LF :: char where "LF = CHR 0x0A"
definition SP :: char where "SP = CHR 0x20"
definition TAB :: char where "TAB = CHR 0x09"

definition CRLF :: bytes where
  "CRLF = [CR, LF]"

text \<open>The separator test of the tokeniser, \<open>*b == b' ' || *b == b'\t'\<close>.\<close>

definition is_ws :: "char \<Rightarrow> bool" where
  "is_ws b \<longleftrightarrow> b = SP \<or> b = TAB"

lemmas byte_defs = CR_def LF_def SP_def TAB_def

lemma length_CRLF [simp]: "length CRLF = 2"
  by (simp add: CRLF_def)

lemma is_ws_SP [simp]: "is_ws SP"
  by (simp add: is_ws_def)

section \<open>The wire format\<close>

text \<open>Decimal notation without leading zeros.\<close>

definition digit :: "nat \<Rightarrow> char" where
  "digit d = char_of (48 + d)"

fun decimal :: "nat \<Rightarrow> bytes" where
  "decimal n = (if n < 10 then [digit n] else decimal (n div 10) @ [digit (n mod 10)])"

declare decimal.simps [simp del]

text \<open>A line end inside a byte string.\<close>

fun has_crlf :: "bytes \<Rightarrow> bool" where
  "has_crlf (a # b # bs) = ((a = CR \<and> b = LF) \<or> has_crlf (b # bs))"
| "has_crlf _ = False"

text \<open>What may stand as one argument of a header line, and what may stand as free text.\<close>

definition legal_token :: "bytes \<Rightarrow> bool" where
  "legal_token t \<longleftrightarrow> t \<noteq> [] \<and> (\<forall>b\<in>set t. \<not> is_ws b) \<and> \<not> has_crlf t"

fun legal_opt :: "bytes option \<Rightarrow> bool" where
  "legal_opt None = True"
| "legal_opt (Some t) = legal_token t"

fun legal_frame :: "frame \<Rightarrow> bool" where
  "legal_frame (Connect opts) = (opts \<noteq> [] \<and> \<not> has_crlf opts)"
| "legal_frame (Info opts) = (opts \<noteq> [] \<and> \<not> has_crlf opts)"
| "legal_frame (ErrFrame msg) = (\<not> has_crlf msg)"
| "legal_frame (Sub subj q s) = (legal_token subj \<and> legal_opt q \<and> legal_token s)"
| "legal_frame (Unsub s m) = legal_token s"
| "legal_frame (Pub subj r p) = (legal_token subj \<and> legal_opt r)"
| "legal_frame (Msg subj s r p) = (legal_token subj \<and> legal_token s \<and> legal_opt r)"
| "legal_frame Ping = True"
| "legal_frame Pong = True"
| "legal_frame OkFrame = True"

text \<open>The header line of a frame without its line end, and the bytes that follow the line.\<close>

fun opt_arg :: "bytes option \<Rightarrow> bytes" where
  "opt_arg None = []"
| "opt_arg (Some t) = t @ [SP]"

fun header_line :: "frame \<Rightarrow> bytes" where
  "header_line Ping = ''PING''"
| "header_line Pong = ''PONG''"
| "header_line OkFrame = ''+OK''"
| "header_line (ErrFrame msg) = ''-ERR '' @ msg"
| "header_line (Info opts) = ''INFO '' @ opts"
| "header_line (Connect opts) = ''CONNECT '' @ opts"
| "header_line (Sub subj q s) = ''SUB '' @ subj @ [SP] @ opt_arg q @ s"
| "header_line (Unsub s m) =
     ''UNSUB '' @ s @ (case m of None \<Rightarrow> [] | Some n \<Rightarrow> [SP] @ decimal (unat n))"
| "header_line (Pub subj r p) = ''PUB '' @ subj @ [SP] @ opt_arg r @ decimal (length p)"
| "header_line (Msg subj s r p) =
     ''MSG '' @ subj @ [SP] @ s @ [SP] @ opt_arg r @ decimal (length p)"

fun body :: "frame \<Rightarrow> bytes" where
  "body (Pub subj r p) = p @ CRLF"
| "body (Msg subj s r p) = p @ CRLF"
| "body _ = []"

definition encode :: "frame \<Rightarrow> bytes" where
  "encode f = header_line f @ CRLF @ body f"

section \<open>Facts about the format\<close>

lemma has_crlf_Cons:
  "has_crlf (x # ys) \<longleftrightarrow> has_crlf ys \<or> (ys \<noteq> [] \<and> x = CR \<and> hd ys = LF)"
  by (cases ys) auto

lemma has_crlf_append:
  "has_crlf (xs @ ys) \<longleftrightarrow>
     has_crlf xs \<or> has_crlf ys \<or> (xs \<noteq> [] \<and> ys \<noteq> [] \<and> last xs = CR \<and> hd ys = LF)"
  by (induction xs rule: has_crlf.induct) (auto simp: has_crlf_Cons)

lemma digit_inj: "d < 10 \<Longrightarrow> of_char (digit d) = (48 + d :: nat)"
  by (simp add: digit_def)

lemma digit_not_special: "d < 10 \<Longrightarrow> digit d \<noteq> CR \<and> digit d \<noteq> LF \<and> \<not> is_ws (digit d)"
proof -
  assume "d < 10"
  then have "of_char (digit d) = (48 + d :: nat)" by (rule digit_inj)
  moreover have "of_char CR = (13::nat)" "of_char LF = (10::nat)"
    "of_char SP = (32::nat)" "of_char TAB = (9::nat)"
    by (simp_all add: byte_defs)
  ultimately show ?thesis
    by (auto simp: is_ws_def)
qed

lemma decimal_nonempty [simp]: "decimal n \<noteq> []"
  by (subst decimal.simps) simp

lemma decimal_digits: "c \<in> set (decimal n) \<Longrightarrow> \<exists>d<10. c = digit d"
proof (induction n rule: decimal.induct)
  case (1 n)
  then show ?case
    by (cases "n < 10") (auto simp: decimal.simps [of n] intro: exI [of _ "n mod 10"])
qed

lemma clean_no_crlf: "CR \<notin> set xs \<Longrightarrow> \<not> has_crlf xs"
  by (induction xs rule: has_crlf.induct) auto

lemma legal_token_decimal [simp]: "legal_token (decimal n)"
proof -
  have "CR \<notin> set (decimal n)"
    by (metis decimal_digits digit_not_special)
  moreover have "\<forall>b\<in>set (decimal n). \<not> is_ws b"
    by (metis decimal_digits digit_not_special)
  ultimately show ?thesis
    by (simp add: legal_token_def clean_no_crlf)
qed

lemma length_decimal: "0 < k \<Longrightarrow> n < 10 ^ k \<Longrightarrow> length (decimal n) \<le> k"
proof (induction n arbitrary: k rule: decimal.induct)
  case (1 n)
  show ?case
  proof (cases "n < 10")
    case True
    with "1.prems" show ?thesis by (simp add: decimal.simps [of n])
  next
    case False
    then obtain j where k: "k = Suc j" "0 < j"
      using "1.prems" by (cases k; cases "k - 1") auto
    with "1.prems" have "n div 10 < 10 ^ j"
      by (simp add: less_mult_imp_div_less mult.commute)
    with "1.IH" [OF False] k have "length (decimal (n div 10)) \<le> j"
      by simp
    with False k show ?thesis by (simp add: decimal.simps [of n])
  qed
qed

lemma length_decimal_u64: "length (decimal (unat (v :: u64))) \<le> 20"
proof -
  have "unat v < 2 ^ 64" using unsigned_less [of v] by simp
  also have "(2 ^ 64 :: nat) < 10 ^ 20" by simp
  finally show ?thesis by (intro length_decimal) simp_all
qed

end
