(* ===== verification/Emit.thy ===== *)
theory Emit
  imports Frame
begin

text \<open>
  The emitter, \<open>aulon-proto/src/emit.rs\<close>.  An \<open>emit_*\<close> function mutates the caller's buffer
  \<open>out\<close> and returns a \<open>Result<usize, EmitError>\<close>; in the model it takes the buffer and
  returns the result together with the buffer as the call leaves it, or None for a panic (an index
  out of bounds).  The operator \<open>?\<close> is \<open>and_then\<close>.

  The main lemma, \<open>emits_emit_frame\<close>, relates every emitter to the byte string \<^const>\<open>encode\<close>
  of the format: if it fits it is written at the front and nothing behind it is touched; if it
  does not, \<open>BufferTooSmall\<close> is returned, and there is no panic in either case.
\<close>

section \<open>The operations\<close>

type_synonym writer = "bytes \<Rightarrow> ((emit_error + nat) \<times> bytes) option"

definition and_then :: "writer \<Rightarrow> (nat \<Rightarrow> writer) \<Rightarrow> writer" where
  "and_then m k out =
     (case m out of
        None \<Rightarrow> None
      | Some (Inl e, out') \<Rightarrow> Some (Inl e, out')
      | Some (Inr n, out') \<Rightarrow> k n out')"

definition ok :: "nat \<Rightarrow> writer" where
  "ok n out = Some (Inr n, out)"

definition U64_DIGITS_MAX :: nat where
  "U64_DIGITS_MAX = 20"

definition write_all :: "nat \<Rightarrow> bytes \<Rightarrow> writer" where
  "write_all pos src out =
     (case checked_add pos (length src) of
        None \<Rightarrow> Some (Inl (BufferTooSmall usize_max (length out)), out)
      | Some end_pos \<Rightarrow>
          if end_pos > length out
          then Some (Inl (BufferTooSmall end_pos (length out)), out)
          else do {
            out' \<leftarrow> copy_from_slice out pos end_pos src;
            Some (Inr end_pos, out')
          })"

definition write_byte :: "nat \<Rightarrow> char \<Rightarrow> writer" where
  "write_byte pos byte out =
     (if pos \<ge> length out
      then Some (Inl (BufferTooSmall (pos + 1) (length out)), out)
      else do {
        out' \<leftarrow> index_set out pos byte;
        Some (Inr (pos + 1), out')
      })"

text \<open>The digit loop, least significant digit first, into the scratch array \<open>tmp\<close>.\<close>

function decimal_loop :: "u64 \<Rightarrow> bytes \<Rightarrow> nat \<Rightarrow> (bytes \<times> nat) option" where
  "decimal_loop v tmp len =
     (if v > 0
      then do {
        tmp' \<leftarrow> index_set tmp len (char_of (48 + unat (v mod 10)));
        decimal_loop (v div 10) tmp' (len + 1)
      }
      else Some (tmp, len))"
  by pat_completeness auto
termination
  by (relation "measure (\<lambda>(v, tmp, len). unat v)") (auto simp: unat_div word_less_nat_alt)

declare decimal_loop.simps [simp del]

text \<open>The copy loop \<open>for i in 0..len { out[pos + i] = tmp[len - 1 - i]; }\<close>.\<close>

fun copy_digits :: "bytes \<Rightarrow> nat \<Rightarrow> nat \<Rightarrow> nat list \<Rightarrow> bytes \<Rightarrow> bytes option" where
  "copy_digits tmp len pos [] out = Some out"
| "copy_digits tmp len pos (i # is) out = do {
     d \<leftarrow> index_get tmp (len - 1 - i);
     out' \<leftarrow> index_set out (pos + i) d;
     copy_digits tmp len pos is out'
   }"

definition write_decimal_u64 :: "nat \<Rightarrow> u64 \<Rightarrow> writer" where
  "write_decimal_u64 pos v out = do {
     (tmp, len) \<leftarrow>
       (let tmp = replicate U64_DIGITS_MAX (CHR 0x00) in
        if v = 0 then do { tmp' \<leftarrow> index_set tmp 0 (CHR ''0''); Some (tmp', 1) }
        else decimal_loop v tmp 0);
     (case checked_add pos len of
        None \<Rightarrow> Some (Inl (BufferTooSmall usize_max (length out)), out)
      | Some end_pos \<Rightarrow>
          if end_pos > length out
          then Some (Inl (BufferTooSmall end_pos (length out)), out)
          else do {
            out' \<leftarrow> copy_digits tmp len pos [0..<len] out;
            Some (Inr end_pos, out')
          })
   }"

definition emit_ping :: writer where
  "emit_ping = write_all 0 (''PING'' @ CRLF)"

definition emit_pong :: writer where
  "emit_pong = write_all 0 (''PONG'' @ CRLF)"

definition emit_ok :: writer where
  "emit_ok = write_all 0 (''+OK'' @ CRLF)"

definition emit_err :: "bytes \<Rightarrow> writer" where
  "emit_err msg =
     and_then (write_all 0 ''-ERR '') (\<lambda>n.
     and_then (write_all n msg) (\<lambda>n.
     and_then (write_all n CRLF) ok))"

definition emit_info :: "bytes \<Rightarrow> writer" where
  "emit_info opts =
     and_then (write_all 0 ''INFO '') (\<lambda>n.
     and_then (write_all n opts) (\<lambda>n.
     and_then (write_all n CRLF) ok))"

definition emit_connect :: "bytes \<Rightarrow> writer" where
  "emit_connect opts =
     and_then (write_all 0 ''CONNECT '') (\<lambda>n.
     and_then (write_all n opts) (\<lambda>n.
     and_then (write_all n CRLF) ok))"

text \<open>The block \<open>if let Some(q) = opt { write_all(q); write_byte(SP) }\<close> of three emitters.\<close>

definition write_opt :: "nat \<Rightarrow> bytes option \<Rightarrow> writer" where
  "write_opt n arg =
     (case arg of
        None \<Rightarrow> ok n
      | Some q \<Rightarrow> and_then (write_all n q) (\<lambda>n. write_byte n SP))"

definition emit_sub :: "bytes \<Rightarrow> bytes option \<Rightarrow> bytes \<Rightarrow> writer" where
  "emit_sub subj q s =
     and_then (write_all 0 ''SUB '') (\<lambda>n.
     and_then (write_all n subj) (\<lambda>n.
     and_then (write_byte n SP) (\<lambda>n.
     and_then (write_opt n q) (\<lambda>n.
     and_then (write_all n s) (\<lambda>n.
     and_then (write_all n CRLF) ok)))))"

definition emit_unsub :: "bytes \<Rightarrow> u64 option \<Rightarrow> writer" where
  "emit_unsub s m =
     and_then (write_all 0 ''UNSUB '') (\<lambda>n.
     and_then (write_all n s) (\<lambda>n.
     and_then (case m of
                 None \<Rightarrow> ok n
               | Some v \<Rightarrow> and_then (write_byte n SP) (\<lambda>n. write_decimal_u64 n v)) (\<lambda>n.
     and_then (write_all n CRLF) ok)))"

text \<open>\<open>payload.len() as u64\<close> is exact: a length is below 2^63.\<close>

definition emit_pub :: "bytes \<Rightarrow> bytes option \<Rightarrow> bytes \<Rightarrow> writer" where
  "emit_pub subj r p =
     and_then (write_all 0 ''PUB '') (\<lambda>n.
     and_then (write_all n subj) (\<lambda>n.
     and_then (write_byte n SP) (\<lambda>n.
     and_then (write_opt n r) (\<lambda>n.
     and_then (write_decimal_u64 n (of_nat (length p))) (\<lambda>n.
     and_then (write_all n CRLF) (\<lambda>n.
     and_then (write_all n p) (\<lambda>n.
     and_then (write_all n CRLF) ok)))))))"

definition emit_msg :: "bytes \<Rightarrow> bytes \<Rightarrow> bytes option \<Rightarrow> bytes \<Rightarrow> writer" where
  "emit_msg subj s r p =
     and_then (write_all 0 ''MSG '') (\<lambda>n.
     and_then (write_all n subj) (\<lambda>n.
     and_then (write_byte n SP) (\<lambda>n.
     and_then (write_all n s) (\<lambda>n.
     and_then (write_byte n SP) (\<lambda>n.
     and_then (write_opt n r) (\<lambda>n.
     and_then (write_decimal_u64 n (of_nat (length p))) (\<lambda>n.
     and_then (write_all n CRLF) (\<lambda>n.
     and_then (write_all n p) (\<lambda>n.
     and_then (write_all n CRLF) ok)))))))))"

fun emit_frame :: "frame \<Rightarrow> writer" where
  "emit_frame Ping = emit_ping"
| "emit_frame Pong = emit_pong"
| "emit_frame OkFrame = emit_ok"
| "emit_frame (ErrFrame msg) = emit_err msg"
| "emit_frame (Info opts) = emit_info opts"
| "emit_frame (Connect opts) = emit_connect opts"
| "emit_frame (Sub subj q s) = emit_sub subj q s"
| "emit_frame (Unsub s m) = emit_unsub s m"
| "emit_frame (Pub subj r p) = emit_pub subj r p"
| "emit_frame (Msg subj s r p) = emit_msg subj s r p"

section \<open>What a writer writes\<close>

text \<open>
  \<open>emits m pos bs\<close>: on every buffer that a Rust slice can be, m writes bs at pos and leaves the
  rest alone, or reports that the buffer is too small; it never panics.  The reported size is the
  end of the first write that did not fit, so a lower bound of what the frame needs.
\<close>

definition emits :: "writer \<Rightarrow> nat \<Rightarrow> bytes \<Rightarrow> bool" where
  "emits m pos bs \<longleftrightarrow> (\<forall>out. pos \<le> length out \<longrightarrow> length out \<le> isize_max \<longrightarrow>
     (if pos + length bs \<le> length out
      then m out = Some (Inr (pos + length bs), take pos out @ bs @ drop (pos + length bs) out)
      else \<exists>sz out'. m out = Some (Inl (BufferTooSmall sz (length out)), out') \<and>
             length out < sz \<and> sz \<le> pos + length bs \<and>
             length out' = length out \<and> take pos out' = take pos out))"

lemma emitsI:
  assumes "\<And>out. pos + length bs \<le> length out \<Longrightarrow> length out \<le> isize_max \<Longrightarrow>
      m out = Some (Inr (pos + length bs), take pos out @ bs @ drop (pos + length bs) out)"
    and "\<And>out. pos \<le> length out \<Longrightarrow> length out < pos + length bs \<Longrightarrow> length out \<le> isize_max \<Longrightarrow>
      \<exists>sz. m out = Some (Inl (BufferTooSmall sz (length out)), out) \<and>
           length out < sz \<and> sz \<le> pos + length bs"
  shows "emits m pos bs"
  using assms unfolding emits_def by fastforce

lemma emits_fits:
  "emits m pos bs \<Longrightarrow> pos + length bs \<le> length out \<Longrightarrow> length out \<le> isize_max \<Longrightarrow>
   m out = Some (Inr (pos + length bs), take pos out @ bs @ drop (pos + length bs) out)"
  unfolding emits_def by auto

lemma emits_too_small:
  assumes "emits m pos bs" "pos \<le> length out" "length out < pos + length bs"
    "length out \<le> isize_max"
  obtains sz out' where "m out = Some (Inl (BufferTooSmall sz (length out)), out')"
    "length out < sz" "sz \<le> pos + length bs" "length out' = length out"
    "take pos out' = take pos out"
proof -
  from assms(3) have "\<not> pos + length bs \<le> length out" by simp
  with assms(1,2,4) show thesis
    unfolding emits_def using that by metis
qed

lemma emits_ok: "emits (ok pos) pos []"
  by (rule emitsI) (simp_all add: ok_def)

lemma emits_write_all: "emits (write_all pos src) pos src"
proof (rule emitsI)
  fix out :: bytes
  assume "pos + length src \<le> length out" "length out \<le> isize_max"
  then show "write_all pos src out =
      Some (Inr (pos + length src), take pos out @ src @ drop (pos + length src) out)"
    using isize_lt_usize by (simp add: write_all_def checked_add_def slice_simps)
next
  fix out :: bytes
  assume "length out < pos + length src" "length out \<le> isize_max"
  then show "\<exists>sz. write_all pos src out = Some (Inl (BufferTooSmall sz (length out)), out) \<and>
      length out < sz \<and> sz \<le> pos + length src"
    using isize_lt_usize by (auto simp: write_all_def checked_add_def)
qed

lemma emits_write_byte: "emits (write_byte pos b) pos [b]"
  by (rule emitsI) (auto simp: write_byte_def slice_simps upd_conv_take_nth_drop)

text \<open>The composition rule: what two writers write one after the other.\<close>

lemma emits_and_then:
  assumes m: "emits m pos as" and k: "emits (k (pos + length as)) (pos + length as) bs"
  shows "emits (and_then m k) pos (as @ bs)"
  unfolding emits_def
proof (intro allI impI)
  fix out :: bytes
  assume pos: "pos \<le> length out" and len: "length out \<le> isize_max"
  let ?out1 = "take pos out @ as @ drop (pos + length as) out"
  show "if pos + length (as @ bs) \<le> length out
        then and_then m k out = Some (Inr (pos + length (as @ bs)),
               take pos out @ (as @ bs) @ drop (pos + length (as @ bs)) out)
        else \<exists>sz out'. and_then m k out = Some (Inl (BufferTooSmall sz (length out)), out') \<and>
               length out < sz \<and> sz \<le> pos + length (as @ bs) \<and>
               length out' = length out \<and> take pos out' = take pos out"
  proof (cases "pos + length as \<le> length out")
    case True
    from emits_fits [OF m True len] have m1: "m out = Some (Inr (pos + length as), ?out1)" .
    have len1: "length ?out1 = length out" using True pos by simp
    show ?thesis
    proof (cases "pos + length (as @ bs) \<le> length out")
      case fits: True
      have "k (pos + length as) ?out1 = Some (Inr (pos + length as + length bs),
          take (pos + length as) ?out1 @ bs @ drop (pos + length as + length bs) ?out1)"
        using emits_fits [OF k, of ?out1] fits len len1 by (simp add: add.assoc)
      with m1 fits True pos show ?thesis
        by (simp add: and_then_def add_ac)
    next
      case False
      then obtain sz out' where k1: "k (pos + length as) ?out1 =
            Some (Inl (BufferTooSmall sz (length ?out1)), out')"
          "length ?out1 < sz" "sz \<le> pos + length as + length bs" "length out' = length ?out1"
          "take (pos + length as) out' = take (pos + length as) ?out1"
        using emits_too_small [OF k, of ?out1] len len1 True by (auto simp: add.assoc)
      from k1(5) have "take pos (take (pos + length as) out') = take pos (take (pos + length as) ?out1)"
        by simp
      then have "take pos out' = take pos out" using pos by simp
      with m1 k1 len1 False show ?thesis
        by (auto simp: and_then_def)
    qed
  next
    case False
    then obtain sz out' where "m out = Some (Inl (BufferTooSmall sz (length out)), out')"
        "length out < sz" "sz \<le> pos + length as" "length out' = length out"
        "take pos out' = take pos out"
      using emits_too_small [OF m pos _ len] by auto
    with False show ?thesis by (auto simp: and_then_def)
  qed
qed

section \<open>Decimal output\<close>

lemma unat_mod_10: "unat ((v :: u64) mod 10) = unat v mod 10"
  by (simp add: unat_mod)

lemma unat_div_10: "unat ((v :: u64) div 10) = unat v div 10"
  by (simp add: unat_div)

lemma decimal_loop_eq:
  assumes "0 < v" "len + length (decimal (unat v)) \<le> length tmp"
  shows "decimal_loop v tmp len =
    Some (take len tmp @ rev (decimal (unat v)) @ drop (len + length (decimal (unat v))) tmp,
          len + length (decimal (unat v)))"
  using assms
proof (induction v tmp len rule: decimal_loop.induct)
  case (1 v tmp len)
  let ?tmp = "tmp[len := digit (unat v mod 10)]"
  from "1.prems" have len: "len < length tmp"
    using decimal_nonempty [of "unat v"] by (metis add.commute le_add2 le_less_trans
        length_0_conv less_add_same_cancel1 not_gr_zero order_less_le_trans)
  have tmp: "?tmp = take len tmp @ digit (unat v mod 10) # drop (Suc len) tmp"
    using len by (simp add: upd_conv_take_nth_drop)
  have step: "decimal_loop v tmp len = decimal_loop (v div 10) ?tmp (len + 1)"
    using "1.prems"(1) len
    by (simp add: decimal_loop.simps [of v] slice_simps unat_mod_10 digit_def)
  show ?case
  proof (cases "unat v < 10")
    case True
    then have "v div 10 = 0" by (simp add: word_unat_eq_iff unat_div_10)
    with True step tmp show ?thesis
      by (simp add: decimal_loop.simps [of 0] decimal.simps [of "unat v"])
  next
    case False
    then have pos: "0 < v div 10" by (simp add: word_less_nat_alt unat_div_10)
    have dec: "decimal (unat v) = decimal (unat v div 10) @ [digit (unat v mod 10)]"
      using False by (simp add: decimal.simps [of "unat v"])
    have "decimal_loop (v div 10) ?tmp (len + 1) =
      Some (take (len + 1) ?tmp @ rev (decimal (unat (v div 10))) @
              drop (len + 1 + length (decimal (unat (v div 10)))) ?tmp,
            len + 1 + length (decimal (unat (v div 10))))"
      using "1.IH" [OF "1.prems"(1), of ?tmp] pos "1.prems" len dec
      by (simp add: slice_simps unat_mod_10 digit_def unat_div_10)
    moreover have "take (len + 1) ?tmp = take len tmp @ [digit (unat v mod 10)]"
      using len tmp by simp
    ultimately show ?thesis
      using step by (simp add: unat_div_10 dec)
  qed
qed

lemma rev_take_nth:
  "i < len \<Longrightarrow> len \<le> length tmp \<Longrightarrow> rev (take len tmp) ! i = tmp ! (len - Suc i)"
  by (simp add: rev_nth)

lemma copy_digits_eq:
  assumes "i \<le> len" "len \<le> length tmp" "pos + len \<le> length out"
  shows "copy_digits tmp len pos [i..<len] out =
    Some (take (pos + i) out @ drop i (rev (take len tmp)) @ drop (pos + len) out)"
  using assms
proof (induction "len - i" arbitrary: i out)
  case 0
  then show ?case by simp
next
  case (Suc k)
  then have i: "i < len" by simp
  let ?d = "tmp ! (len - Suc i)"
  have "copy_digits tmp len pos [i..<len] out =
      copy_digits tmp len pos [Suc i..<len] (out[pos + i := ?d])"
    using i Suc.prems by (simp add: upt_conv_Cons slice_simps)
  also have "\<dots> = Some (take (pos + Suc i) (out[pos + i := ?d]) @
      drop (Suc i) (rev (take len tmp)) @ drop (pos + len) (out[pos + i := ?d]))"
    using Suc.hyps(2) Suc.prems i by (intro Suc.hyps(1)) simp_all
  also have "take (pos + Suc i) (out[pos + i := ?d]) = take (pos + i) out @ [?d]"
    using i Suc.prems by (simp add: take_Suc_conv_app_nth)
  finally have "copy_digits tmp len pos [i..<len] out =
      Some (take (pos + i) out @ (?d # drop (Suc i) (rev (take len tmp))) @ drop (pos + len) out)"
    using i by simp
  moreover have "drop i (rev (take len tmp)) = ?d # drop (Suc i) (rev (take len tmp))"
    using i Suc.prems by (simp add: Cons_nth_drop_Suc [symmetric] rev_take_nth)
  ultimately show ?case
    by (simp only:)
qed

lemma emits_write_decimal: "emits (write_decimal_u64 pos v) pos (decimal (unat v))"
proof -
  let ?z = "replicate U64_DIGITS_MAX (CHR 0x00)" and ?n = "length (decimal (unat v))"
  let ?tmp = "rev (decimal (unat v)) @ drop ?n ?z"
  have n: "?n \<le> 20" by (rule length_decimal_u64)
  have digits: "(if v = 0 then do { tmp' \<leftarrow> index_set ?z 0 (CHR ''0''); Some (tmp', 1) }
      else decimal_loop v ?z 0) = Some (?tmp, ?n)"
  proof (cases "v = 0")
    case True
    have "digit 0 = CHR ''0''" by code_simp
    moreover have "?z = CHR 0x00 # replicate 19 (CHR 0x00)"
      unfolding U64_DIGITS_MAX_def replicate_Suc [symmetric] by simp
    ultimately show ?thesis
      using True by (simp add: index_set_def decimal.simps [of 0])
  next
    case False
    then have "0 < v" by (simp add: word_gt_0)
    with False n show ?thesis
      by (simp add: decimal_loop_eq U64_DIGITS_MAX_def)
  qed
  show ?thesis
  proof (rule emitsI)
    fix out :: bytes
    assume "pos + ?n \<le> length out" "length out \<le> isize_max"
    moreover from this have "copy_digits ?tmp ?n pos [0..<?n] out =
        Some (take pos out @ decimal (unat v) @ drop (pos + ?n) out)"
      by (subst copy_digits_eq) (simp_all add: n U64_DIGITS_MAX_def)
    ultimately show "write_decimal_u64 pos v out = Some (Inr (pos + ?n),
        take pos out @ decimal (unat v) @ drop (pos + ?n) out)"
      using isize_lt_usize digits by (simp add: write_decimal_u64_def checked_add_def)
  next
    fix out :: bytes
    assume "length out < pos + ?n" "length out \<le> isize_max"
    then show "\<exists>sz. write_decimal_u64 pos v out = Some (Inl (BufferTooSmall sz (length out)), out) \<and>
        length out < sz \<and> sz \<le> pos + ?n"
      using isize_lt_usize digits by (auto simp: write_decimal_u64_def checked_add_def)
  qed
qed

section \<open>Every emitter writes the encoding of its frame\<close>

lemma emits_write_opt: "emits (write_opt pos arg) pos (opt_arg arg)"
proof (cases arg)
  case None
  then show ?thesis by (simp add: write_opt_def emits_ok)
next
  case (Some q)
  have "emits (and_then (write_all pos q) (\<lambda>n. write_byte n SP)) pos (q @ [SP])"
    by (intro emits_and_then emits_write_all emits_write_byte)
  with Some show ?thesis by (simp add: write_opt_def)
qed

lemmas emits_intros =
  emits_and_then emits_write_all emits_write_byte emits_write_opt emits_write_decimal emits_ok

lemma unat_length: "length (p :: bytes) \<le> isize_max \<Longrightarrow> unat (of_nat (length p) :: u64) = length p"
  by (simp add: unat_of_nat isize_max_def)

text \<open>The payload of a frame is a Rust slice too.\<close>

fun payload_fits :: "frame \<Rightarrow> bool" where
  "payload_fits (Pub subj r p) = (length p \<le> isize_max)"
| "payload_fits (Msg subj s r p) = (length p \<le> isize_max)"
| "payload_fits _ = True"

lemma emits_emit_unsub: "emits (emit_unsub s m) 0 (encode (Unsub s m))"
proof (cases m)
  case None
  have "emits (emit_unsub s None) 0 (''UNSUB '' @ s @ [] @ CRLF @ [])"
    unfolding emit_unsub_def option.case by (intro emits_intros)
  with None show ?thesis by (simp add: encode_def)
next
  case (Some v)
  have "emits (emit_unsub s (Some v)) 0 (''UNSUB '' @ s @ ([SP] @ decimal (unat v)) @ CRLF @ [])"
    unfolding emit_unsub_def option.case by (intro emits_intros)
  with Some show ?thesis by (simp add: encode_def)
qed

lemma emits_emit_frame: "payload_fits f \<Longrightarrow> emits (emit_frame f) 0 (encode f)"
proof (induction f rule: emit_frame.induct)
  case (7 subj q s)
  have "emits (emit_sub subj q s) 0 (''SUB '' @ subj @ [SP] @ opt_arg q @ s @ CRLF @ [])"
    unfolding emit_sub_def by (intro emits_intros)
  then show ?case by (simp add: encode_def)
next
  case (9 subj r p)
  have "emits (emit_pub subj r p) 0 (''PUB '' @ subj @ [SP] @ opt_arg r @
      decimal (unat (of_nat (length p) :: u64)) @ CRLF @ p @ CRLF @ [])"
    unfolding emit_pub_def by (intro emits_intros)
  with 9 show ?case by (simp add: encode_def unat_length)
next
  case (10 subj s r p)
  have "emits (emit_msg subj s r p) 0 (''MSG '' @ subj @ [SP] @ s @ [SP] @ opt_arg r @
      decimal (unat (of_nat (length p) :: u64)) @ CRLF @ p @ CRLF @ [])"
    unfolding emit_msg_def by (intro emits_intros)
  with 10 show ?case by (simp add: encode_def unat_length)
next
  case (4 msg)
  have "emits (emit_err msg) 0 (''-ERR '' @ msg @ CRLF @ [])"
    unfolding emit_err_def by (intro emits_intros)
  then show ?case by (simp add: encode_def)
next
  case (5 opts)
  have "emits (emit_info opts) 0 (''INFO '' @ opts @ CRLF @ [])"
    unfolding emit_info_def by (intro emits_intros)
  then show ?case by (simp add: encode_def)
next
  case (6 opts)
  have "emits (emit_connect opts) 0 (''CONNECT '' @ opts @ CRLF @ [])"
    unfolding emit_connect_def by (intro emits_intros)
  then show ?case by (simp add: encode_def)
next
  case (8 s m)
  show ?case using emits_emit_unsub by simp
qed (simp_all add: encode_def emit_ping_def emit_pong_def emit_ok_def emits_write_all)

end
