(* ===== verification/Parse.thy ===== *)
theory Parse
  imports Frame
begin

text \<open>
  The parser, \<open>aulon-proto/src/parse.rs\<close>.  Every function that slices or indexes returns an
  option, None being a panic, so that \<open>parse_frame buf \<noteq> None\<close> says that the parser cannot panic
  on buf.  Index loops are recursive functions over the index.

  The first half is the code; the second relates the tokeniser to the list of tokens of a line and
  each verb parser to a case distinction over that list.
\<close>

section \<open>Byte-level helpers\<close>

text \<open>The loop of \<open>find_crlf\<close> from index i on.\<close>

function find_crlf_from :: "bytes \<Rightarrow> nat \<Rightarrow> nat option" where
  "find_crlf_from buf i =
     (if i + 1 < length buf
      then if buf ! i = CR \<and> buf ! (i + 1) = LF then Some i else find_crlf_from buf (i + 1)
      else None)"
  by pat_completeness auto
termination
  by (relation "measure (\<lambda>(buf, i). length buf - i)") auto

declare find_crlf_from.simps [simp del]

definition find_crlf :: "bytes \<Rightarrow> nat option" where
  "find_crlf buf = find_crlf_from buf 0"

definition split_verb :: "bytes \<Rightarrow> (bytes \<times> bytes) option" where
  "split_verb line =
     (case position is_ws line of
        Some idx \<Rightarrow> do {
          verb \<leftarrow> slice_to line idx;
          rest \<leftarrow> slice_from line (idx + 1);
          Some (verb, rest)
        }
      | None \<Rightarrow> Some (line, []))"

text \<open>The loop of \<open>trim_leading_spaces\<close>: the index of the first byte that is not a separator.\<close>

function trim_index :: "bytes \<Rightarrow> nat \<Rightarrow> nat" where
  "trim_index s i = (if i < length s \<and> is_ws (s ! i) then trim_index s (i + 1) else i)"
  by pat_completeness auto
termination
  by (relation "measure (\<lambda>(s, i). length s - i)") auto

declare trim_index.simps [simp del]

definition trim_leading_spaces :: "bytes \<Rightarrow> bytes option" where
  "trim_leading_spaces s = slice_from s (trim_index s 0)"

text \<open>\<open>TokenIter::next\<close>: the state of the iterator is the rest of the line.\<close>

definition token_next :: "bytes \<Rightarrow> (bytes option \<times> bytes) option" where
  "token_next line_rest = do {
     rest \<leftarrow> trim_leading_spaces line_rest;
     if rest = [] then Some (None, rest)
     else do {
       let end_pos = (case position is_ws rest of Some i \<Rightarrow> i | None \<Rightarrow> length rest);
       token \<leftarrow> slice_to rest end_pos;
       rest' \<leftarrow> slice_from rest end_pos;
       Some (Some token, rest')
     }
   }"

definition is_ascii_digit :: "char \<Rightarrow> bool" where
  "is_ascii_digit b \<longleftrightarrow> 48 \<le> (of_char b :: nat) \<and> (of_char b :: nat) \<le> 57"

text \<open>
  The digit loop of \<open>parse_usize\<close>.  The outer option is the function's own result: None when a
  byte is not a digit or the number does not fit 64 bits.
\<close>

fun parse_usize_loop :: "nat \<Rightarrow> bytes \<Rightarrow> nat option" where
  "parse_usize_loop n [] = Some n"
| "parse_usize_loop n (b # bs) =
     (if \<not> is_ascii_digit b then None
      else do {
        m \<leftarrow> checked_mul n 10;
        n' \<leftarrow> checked_add m (of_char b - 48);
        parse_usize_loop n' bs
      })"

definition parse_usize :: "bytes \<Rightarrow> nat option" where
  "parse_usize bs = (if bs = [] then None else parse_usize_loop 0 bs)"

text \<open>\<open>parse_u64\<close> is the same loop on \<open>u64\<close>.\<close>

fun parse_u64_loop :: "u64 \<Rightarrow> bytes \<Rightarrow> u64 option" where
  "parse_u64_loop n [] = Some n"
| "parse_u64_loop n (b # bs) =
     (if \<not> is_ascii_digit b then None
      else if 2 ^ 64 \<le> unat n * 10 then None
      else if 2 ^ 64 \<le> unat (n * 10) + (of_char b - 48) then None
      else parse_u64_loop (n * 10 + of_nat (of_char b - 48)) bs)"

definition parse_u64 :: "bytes \<Rightarrow> u64 option" where
  "parse_u64 bs = (if bs = [] then None else parse_u64_loop 0 bs)"

text \<open>
  \<open>consume_payload\<close>: the inner option is the function's own result, the outer one the panic of
  its two slices.
\<close>

definition consume_payload :: "bytes \<Rightarrow> nat \<Rightarrow> nat \<Rightarrow> (bytes \<times> nat) option option" where
  "consume_payload buf header_total payload_len =
     (case checked_add header_total payload_len of
        None \<Rightarrow> Some None
      | Some payload_end \<Rightarrow>
     (case checked_add payload_end (length CRLF) of
        None \<Rightarrow> Some None
      | Some total_len \<Rightarrow>
          if length buf < total_len then Some None
          else do {
            trailer \<leftarrow> slice_range buf payload_end total_len;
            if trailer \<noteq> CRLF then Some None
            else do {
              p \<leftarrow> slice_range buf header_total payload_end;
              Some (Some (p, total_len))
            }
          }))"

definition need_more_or_missing_crlf :: "bytes \<Rightarrow> nat \<Rightarrow> nat \<Rightarrow> parse_outcome" where
  "need_more_or_missing_crlf buf header_total payload_len =
     (case checked_add header_total payload_len of
        None \<Rightarrow> Err PayloadLengthInvalid
      | Some payload_end \<Rightarrow>
     (case checked_add payload_end (length CRLF) of
        None \<Rightarrow> Err PayloadLengthInvalid
      | Some total_len \<Rightarrow> if length buf < total_len then NeedMore else Err MissingTrailingCrlf))"

section \<open>Verb parsers\<close>

definition header_only :: "frame \<Rightarrow> bytes \<Rightarrow> nat \<Rightarrow> parse_outcome" where
  "header_only f rest header_total =
     (if rest \<noteq> [] then Err BadHeader else Frame f header_total)"

definition parse_err :: "bytes \<Rightarrow> nat \<Rightarrow> parse_outcome" where
  "parse_err rest header_total = Frame (ErrFrame rest) header_total"

definition parse_connect :: "bytes \<Rightarrow> nat \<Rightarrow> parse_outcome" where
  "parse_connect rest header_total =
     (if rest = [] then Err BadHeader else Frame (Connect rest) header_total)"

definition parse_info :: "bytes \<Rightarrow> nat \<Rightarrow> parse_outcome" where
  "parse_info rest header_total =
     (if rest = [] then Err BadHeader else Frame (Info rest) header_total)"

definition parse_sub :: "bytes \<Rightarrow> nat \<Rightarrow> parse_outcome option" where
  "parse_sub rest header_total = do {
     (t1, rest) \<leftarrow> token_next rest;
     case t1 of None \<Rightarrow> Some (Err BadHeader) | Some subj \<Rightarrow> do {
       (t2, rest) \<leftarrow> token_next rest;
       case t2 of None \<Rightarrow> Some (Err BadHeader) | Some second \<Rightarrow> do {
         (third, rest) \<leftarrow> token_next rest;
         (extra, rest) \<leftarrow> token_next rest;
         if extra \<noteq> None then Some (Err BadHeader)
         else do {
           let (q, s) = (case third of Some s \<Rightarrow> (Some second, s) | None \<Rightarrow> (None, second));
           Some (Frame (Sub subj q s) header_total)
         }
       }
     }
   }"

definition parse_unsub :: "bytes \<Rightarrow> nat \<Rightarrow> parse_outcome option" where
  "parse_unsub rest header_total = do {
     (t1, rest) \<leftarrow> token_next rest;
     case t1 of None \<Rightarrow> Some (Err BadHeader) | Some s \<Rightarrow> do {
       (t2, rest) \<leftarrow> token_next rest;
       case (case t2 of
               Some token \<Rightarrow> (case parse_u64 token of Some n \<Rightarrow> Inr (Some n) | None \<Rightarrow> Inl MaxMsgsInvalid)
             | None \<Rightarrow> Inr None) of
         Inl e \<Rightarrow> Some (Err e)
       | Inr m \<Rightarrow> do {
           (extra, rest) \<leftarrow> token_next rest;
           if extra \<noteq> None then Some (Err BadHeader) else Some (Frame (Unsub s m) header_total)
         }
     }
   }"

text \<open>The tail shared by \<open>parse_pub\<close> and \<open>parse_msg\<close>, from the byte count on.\<close>

definition parse_payload :: "bytes \<Rightarrow> bytes \<Rightarrow> nat \<Rightarrow> (bytes \<Rightarrow> frame) \<Rightarrow> parse_outcome option" where
  "parse_payload buf count_token header_total mk =
     (case parse_usize count_token of
        None \<Rightarrow> Some (Err PayloadLengthInvalid)
      | Some payload_len \<Rightarrow> do {
          r \<leftarrow> consume_payload buf header_total payload_len;
          case r of
            None \<Rightarrow> Some (need_more_or_missing_crlf buf header_total payload_len)
          | Some (p, total_len) \<Rightarrow> Some (Frame (mk p) total_len)
        })"

definition parse_pub :: "bytes \<Rightarrow> bytes \<Rightarrow> nat \<Rightarrow> parse_outcome option" where
  "parse_pub buf rest header_total = do {
     (t1, rest) \<leftarrow> token_next rest;
     case t1 of None \<Rightarrow> Some (Err BadHeader) | Some subj \<Rightarrow> do {
       (t2, rest) \<leftarrow> token_next rest;
       case t2 of None \<Rightarrow> Some (Err BadHeader) | Some second \<Rightarrow> do {
         (third, rest) \<leftarrow> token_next rest;
         (extra, rest) \<leftarrow> token_next rest;
         if extra \<noteq> None then Some (Err BadHeader)
         else do {
           let (r, count_token) =
             (case third of Some cnt \<Rightarrow> (Some second, cnt) | None \<Rightarrow> (None, second));
           parse_payload buf count_token header_total (Pub subj r)
         }
       }
     }
   }"

definition parse_msg :: "bytes \<Rightarrow> bytes \<Rightarrow> nat \<Rightarrow> parse_outcome option" where
  "parse_msg buf rest header_total = do {
     (t1, rest) \<leftarrow> token_next rest;
     case t1 of None \<Rightarrow> Some (Err BadHeader) | Some subj \<Rightarrow> do {
       (t2, rest) \<leftarrow> token_next rest;
       case t2 of None \<Rightarrow> Some (Err BadHeader) | Some s \<Rightarrow> do {
         (t3, rest) \<leftarrow> token_next rest;
         case t3 of None \<Rightarrow> Some (Err BadHeader) | Some third \<Rightarrow> do {
           (fourth, rest) \<leftarrow> token_next rest;
           (extra, rest) \<leftarrow> token_next rest;
           if extra \<noteq> None then Some (Err BadHeader)
           else do {
             let (r, count_token) =
               (case fourth of Some cnt \<Rightarrow> (Some third, cnt) | None \<Rightarrow> (None, third));
             parse_payload buf count_token header_total (Msg subj s r)
           }
         }
       }
     }
   }"

text \<open>The \<open>match verb\<close> of \<open>parse_frame\<close>.\<close>

definition match_verb :: "bytes \<Rightarrow> bytes \<Rightarrow> bytes \<Rightarrow> nat \<Rightarrow> parse_outcome option" where
  "match_verb buf verb rest header_total =
     (if verb = ''PING'' then Some (header_only Ping rest header_total)
      else if verb = ''PONG'' then Some (header_only Pong rest header_total)
      else if verb = ''+OK'' then Some (header_only OkFrame rest header_total)
      else if verb = ''-ERR'' then Some (parse_err rest header_total)
      else if verb = ''CONNECT'' then Some (parse_connect rest header_total)
      else if verb = ''INFO'' then Some (parse_info rest header_total)
      else if verb = ''SUB'' then parse_sub rest header_total
      else if verb = ''UNSUB'' then parse_unsub rest header_total
      else if verb = ''PUB'' then parse_pub buf rest header_total
      else if verb = ''MSG'' then parse_msg buf rest header_total
      else Some (Err UnknownVerb))"

definition parse_frame :: "bytes \<Rightarrow> parse_outcome option" where
  "parse_frame buf =
     (case find_crlf buf of
        None \<Rightarrow> Some NeedMore
      | Some line_end \<Rightarrow> do {
          let header_total = line_end + length CRLF;
          line \<leftarrow> slice_to buf line_end;
          (verb, rest) \<leftarrow> split_verb line;
          match_verb buf verb rest header_total
        })"

section \<open>The line end\<close>

text \<open>Structural reference for the index loop.\<close>

fun crlf_pos :: "bytes \<Rightarrow> nat option" where
  "crlf_pos (a # b # bs) = (if a = CR \<and> b = LF then Some 0 else map_option Suc (crlf_pos (b # bs)))"
| "crlf_pos _ = None"

lemma find_crlf_from_eq: "find_crlf_from buf i = map_option ((+) i) (crlf_pos (drop i buf))"
proof (induction buf i rule: find_crlf_from.induct)
  case (1 buf i)
  show ?case
  proof (cases "i + 1 < length buf")
    case True
    then have d: "drop i buf = buf ! i # buf ! (i + 1) # drop (i + 2) buf"
      by (metis Cons_nth_drop_Suc Suc_eq_plus1 add_2_eq_Suc' add_lessD1)
    then have d1: "drop (i + 1) buf = buf ! (i + 1) # drop (i + 2) buf"
      using True by (metis Cons_nth_drop_Suc Suc_eq_plus1 add_2_eq_Suc')
    show ?thesis
    proof (cases "buf ! i = CR \<and> buf ! (i + 1) = LF")
      case yes: True
      with True d show ?thesis by (simp add: find_crlf_from.simps [of buf i])
    next
      case False
      with "1.IH" True have
        "find_crlf_from buf (i + 1) = map_option ((+) (i + 1)) (crlf_pos (drop (i + 1) buf))"
        by blast
      moreover have "find_crlf_from buf i = find_crlf_from buf (i + 1)"
        using False True by (auto simp: find_crlf_from.simps [of buf i])
      moreover have "crlf_pos (drop i buf) = map_option Suc (crlf_pos (drop (i + 1) buf))"
        using False d d1 by auto
      ultimately show ?thesis
        by (cases "crlf_pos (drop (i + 1) buf)") simp_all
    qed
  next
    case False
    then have "length (drop i buf) \<le> 1" by simp
    then have "crlf_pos (drop i buf) = None"
      by (cases "drop i buf" rule: crlf_pos.cases) auto
    with False show ?thesis by (simp add: find_crlf_from.simps [of buf i])
  qed
qed

lemma find_crlf_eq: "find_crlf buf = crlf_pos buf"
  by (simp add: find_crlf_def find_crlf_from_eq option.map_ident [unfolded id_def] map_option_idI)

lemma find_crlf_None_iff: "find_crlf buf = None \<longleftrightarrow> \<not> has_crlf buf"
  unfolding find_crlf_eq by (induction buf rule: crlf_pos.induct) auto

lemma find_crlf_line: "\<not> has_crlf line \<Longrightarrow> find_crlf (line @ CRLF @ more) = Some (length line)"
  unfolding find_crlf_eq
  by (induction line rule: crlf_pos.induct) (auto simp: CRLF_def CR_def LF_def)

lemma find_crlf_SomeE:
  assumes "find_crlf buf = Some i"
  obtains line more where "buf = line @ CRLF @ more" "\<not> has_crlf line" "i = length line"
proof -
  from assms have "\<exists>line more. buf = line @ CRLF @ more \<and> \<not> has_crlf line \<and> i = length line"
    unfolding find_crlf_eq
  proof (induction buf arbitrary: i rule: crlf_pos.induct)
    case (1 a b bs)
    show ?case
    proof (cases "a = CR \<and> b = LF")
      case True
      with "1.prems" have "a # b # bs = [] @ CRLF @ bs \<and> \<not> has_crlf [] \<and> i = length []"
        by (simp add: CRLF_def)
      then show ?thesis by blast
    next
      case False
      with "1.prems" obtain j where j: "crlf_pos (b # bs) = Some j" "i = Suc j" by auto
      with "1.IH" False obtain line more where
        l: "b # bs = line @ CRLF @ more" "\<not> has_crlf line" "j = length line" by blast
      have "\<not> has_crlf (a # line)"
        using l False by (cases line) (auto simp: CRLF_def)
      with l j have "a # b # bs = (a # line) @ CRLF @ more \<and> \<not> has_crlf (a # line) \<and>
          i = length (a # line)" by simp
      then show ?thesis by blast
    qed
  qed auto
  then show thesis using that by blast
qed

section \<open>The verb and the tokens of a line\<close>

abbreviation not_ws :: "char \<Rightarrow> bool" where
  "not_ws b \<equiv> \<not> is_ws b"

lemma split_verb_eq: "split_verb line = Some (takeWhile not_ws line, tl (dropWhile not_ws line))"
proof (cases "position is_ws line")
  case None
  then have "\<forall>b\<in>set line. not_ws b" by (simp add: position_None_iff)
  then have "takeWhile not_ws line = line" and "dropWhile not_ws line = []"
    by (simp_all add: takeWhile_eq_all_conv dropWhile_eq_Nil_conv)
  then show ?thesis
    unfolding split_verb_def None option.case by (simp only: list.sel)
next
  case (Some i)
  from position_SomeD [OF Some] have i: "i < length line" "i = length (takeWhile not_ws line)"
    by auto
  then have "take i line = takeWhile not_ws line" "drop (i + 1) line = tl (dropWhile not_ws line)"
    using tl_drop [of i line] by (simp_all add: drop_Suc)
  with Some i show ?thesis by (simp add: split_verb_def slice_simps)
qed

lemma trim_index_eq: "i \<le> length s \<Longrightarrow> trim_index s i = i + length (takeWhile is_ws (drop i s))"
proof (induction s i rule: trim_index.induct)
  case (1 s i)
  show ?case
  proof (cases "i < length s")
    case True
    then have d: "drop i s = s ! i # drop (i + 1) s" by (simp add: Cons_nth_drop_Suc)
    with True "1.IH" show ?thesis
      by (cases "is_ws (s ! i)") (auto simp: trim_index.simps [of s i])
  next
    case False
    then show ?thesis by (simp add: trim_index.simps [of s i])
  qed
qed

lemma trim_leading_spaces_eq: "trim_leading_spaces s = Some (dropWhile is_ws s)"
proof -
  have "trim_index s 0 = length (takeWhile is_ws s)" by (simp add: trim_index_eq)
  then show ?thesis
    by (simp add: trim_leading_spaces_def slice_simps length_takeWhile_le)
qed

text \<open>The tokens of a line, and what is left of the line after the first of them.\<close>

function tokens :: "bytes \<Rightarrow> bytes list" where
  "tokens s =
     (case dropWhile is_ws s of
        [] \<Rightarrow> []
      | b # bs \<Rightarrow> takeWhile not_ws (b # bs) # tokens (dropWhile not_ws (b # bs)))"
  by pat_completeness auto
termination
proof (relation "measure length", goal_cases)
  case 1
  show ?case by simp
next
  case (2 s b bs)
  then have "\<not> is_ws b" by (metis hd_dropWhile list.distinct(1) list.sel(1))
  then have "length (dropWhile not_ws (b # bs)) < length (b # bs)"
    by (simp add: length_dropWhile_le le_imp_less_Suc)
  also have "length (b # bs) \<le> length s"
    using 2 length_dropWhile_le by metis
  finally show ?case by simp
qed

declare tokens.simps [simp del]

definition after_token :: "bytes \<Rightarrow> bytes" where
  "after_token s = dropWhile not_ws (dropWhile is_ws s)"

lemma tokens_Nil [simp]: "tokens [] = []"
  by (subst tokens.simps) simp

lemma tokens_word_start:
  "s \<noteq> [] \<Longrightarrow> not_ws (hd s) \<Longrightarrow> tokens s = takeWhile not_ws s # tokens (dropWhile not_ws s)"
  by (subst tokens.simps) (cases s; simp)

lemma tokens_after [token_simps]: "tokens (after_token s) = tl (tokens s)"
proof (cases "dropWhile is_ws s")
  case Nil
  then have "after_token s = []" "tokens s = []"
    unfolding after_token_def by (simp_all only: dropWhile.simps tokens.simps [of s] list.case)
  then show ?thesis by simp
next
  case (Cons b bs)
  then show ?thesis
    by (simp add: after_token_def tokens.simps [of s])
qed

lemma token_next_eq [token_simps]:
  "token_next s = Some (case tokens s of [] \<Rightarrow> None | t # ts \<Rightarrow> Some t, after_token s)"
proof (cases "dropWhile is_ws s")
  case Nil
  show ?thesis
    unfolding token_next_def trim_leading_spaces_eq tokens.simps [of s] after_token_def Nil by simp
next
  case (Cons b bs)
  let ?rest = "b # bs"
  have "(case position is_ws ?rest of Some i \<Rightarrow> i | None \<Rightarrow> length ?rest) =
      length (takeWhile not_ws ?rest)"
  proof (cases "position is_ws ?rest")
    case None
    then have "\<forall>b\<in>set ?rest. not_ws b" by (simp only: position_None_iff)
    then have "takeWhile not_ws ?rest = ?rest" by (simp only: takeWhile_eq_all_conv)
    with None show ?thesis by (simp only: option.case)
  next
    case (Some i)
    from position_SomeD [OF this] Some show ?thesis by simp
  qed
  then show ?thesis
    using Cons length_takeWhile_le [of not_ws ?rest]
    by (simp add: token_next_def trim_leading_spaces_eq tokens.simps [of s] after_token_def
        slice_simps Let_def del: position.simps takeWhile.simps dropWhile.simps)
qed

lemma tokens_SP [token_simps]: "tokens (SP # s) = tokens s"
  by (simp add: tokens.simps [of "SP # s"] tokens.simps [of s])

lemma legal_token_split:
  assumes "legal_token t"
  shows "dropWhile is_ws (t @ s) = t @ s" "takeWhile not_ws (t @ SP # s) = t"
    "dropWhile not_ws (t @ SP # s) = SP # s" "takeWhile not_ws t = t" "dropWhile not_ws t = []"
proof -
  from assms have "t \<noteq> []" "\<forall>b\<in>set t. not_ws b" by (auto simp: legal_token_def)
  then show "dropWhile is_ws (t @ s) = t @ s" "takeWhile not_ws (t @ SP # s) = t"
    "dropWhile not_ws (t @ SP # s) = SP # s" "takeWhile not_ws t = t" "dropWhile not_ws t = []"
    by (auto simp: neq_Nil_conv takeWhile_append dropWhile_append takeWhile_eq_all_conv)
qed

lemma tokens_legal [token_simps]: "legal_token t \<Longrightarrow> tokens t = [t]"
  by (subst tokens_word_start) (auto simp: legal_token_split(4,5) legal_token_def hd_in_set)

lemma tokens_legal_SP [token_simps]: "legal_token t \<Longrightarrow> tokens (t @ SP # s) = t # tokens s"
  using legal_token_split(2,3) [of t s] tokens_word_start [of "t @ SP # s"]
  by (cases t) (simp_all add: legal_token_def tokens_SP)

text \<open>Every token of a line is legal when the line has no line end inside.\<close>

lemma has_crlf_infix: "has_crlf t \<Longrightarrow> has_crlf (a @ t @ b)"
  by (simp add: has_crlf_append)

lemma tokens_infix: "t \<in> set (tokens s) \<Longrightarrow> \<exists>a b. s = a @ t @ b"
proof (induction s rule: tokens.induct)
  case (1 s)
  show ?case
  proof (cases "dropWhile is_ws s")
    case Nil
    with "1.prems" show ?thesis by (simp add: tokens.simps [of s])
  next
    case (Cons b bs)
    have "takeWhile is_ws s @ dropWhile is_ws s = s" by (rule takeWhile_dropWhile_id)
    then have s: "s = takeWhile is_ws s @ takeWhile not_ws (b # bs) @ dropWhile not_ws (b # bs)"
      by (simp only: Cons takeWhile_dropWhile_id)
    from "1.prems" Cons have "t = takeWhile not_ws (b # bs) \<or>
        t \<in> set (tokens (dropWhile not_ws (b # bs)))"
      by (simp add: tokens.simps [of s])
    then show ?thesis
    proof
      assume "t = takeWhile not_ws (b # bs)"
      with s show ?thesis by blast
    next
      assume "t \<in> set (tokens (dropWhile not_ws (b # bs)))"
      with "1.IH" Cons obtain a c where "dropWhile not_ws (b # bs) = a @ t @ c" by blast
      with s have "s = (takeWhile is_ws s @ takeWhile not_ws (b # bs) @ a) @ t @ c" by simp
      then show ?thesis by blast
    qed
  qed
qed

lemma tokens_word: "t \<in> set (tokens s) \<Longrightarrow> t \<noteq> [] \<and> (\<forall>b\<in>set t. not_ws b)"
proof (induction s rule: tokens.induct)
  case (1 s)
  show ?case
  proof (cases "dropWhile is_ws s")
    case Nil
    with "1.prems" show ?thesis by (simp add: tokens.simps [of s])
  next
    case (Cons b bs)
    then have "not_ws b" by (metis hd_dropWhile list.distinct(1) list.sel(1))
    moreover from "1.prems" Cons have "t = takeWhile not_ws (b # bs) \<or>
        t \<in> set (tokens (dropWhile not_ws (b # bs)))"
      by (simp add: tokens.simps [of s])
    ultimately show ?thesis
    proof (elim disjE)
      assume "not_ws b" "t = takeWhile not_ws (b # bs)"
      then show ?thesis by (auto dest: set_takeWhileD)
    next
      assume "t \<in> set (tokens (dropWhile not_ws (b # bs)))"
      then show ?thesis by (rule "1.IH" [OF Cons])
    qed
  qed
qed

lemma tokens_are_legal: "\<not> has_crlf s \<Longrightarrow> t \<in> set (tokens s) \<Longrightarrow> legal_token t"
  using tokens_infix [of t s] tokens_word [of t s] has_crlf_infix [of t]
  by (auto simp: legal_token_def)

end
