(* ===== verification/Parse_Facts.thy ===== *)
theory Parse_Facts
  imports Parse
begin

text \<open>
  What the parser computes.  The numeric parsers agree and invert decimal notation; each verb parser
  is a case distinction over the tokens of its line; no slice of the parser is out of range, so
  \<^const>\<open>parse_frame\<close> is total; and the outcome depends only on the bytes of the frame, so
  that more input never changes an outcome other than \<open>NeedMore\<close>.
\<close>

section \<open>Numbers\<close>

lemma parse_usize_loop_append:
  "parse_usize_loop n (xs @ ys) = Option.bind (parse_usize_loop n xs) (\<lambda>m. parse_usize_loop m ys)"
proof (induction xs arbitrary: n)
  case (Cons b xs)
  then show ?case by (simp add: checked_mul_def checked_add_def)
qed simp

lemma parse_usize_digit:
  "d < 10 \<Longrightarrow> n * 10 + d \<le> usize_max \<Longrightarrow> parse_usize_loop n [digit d] = Some (n * 10 + d)"
  using digit_inj [of d] by (simp add: is_ascii_digit_def checked_mul_def checked_add_def)

lemma parse_usize_loop_decimal: "n \<le> usize_max \<Longrightarrow> parse_usize_loop 0 (decimal n) = Some n"
proof (induction n rule: decimal.induct)
  case (1 n)
  show ?case
  proof (cases "n < 10")
    case True
    with "1.prems" parse_usize_digit [of n 0] show ?thesis by (simp add: decimal.simps [of n])
  next
    case False
    with "1" have "parse_usize_loop 0 (decimal (n div 10)) = Some (n div 10)" by simp
    moreover have "parse_usize_loop (n div 10) [digit (n mod 10)] = Some n"
      using parse_usize_digit [of "n mod 10" "n div 10"] "1.prems" by simp
    ultimately show ?thesis
      using False by (simp add: decimal.simps [of n] parse_usize_loop_append)
  qed
qed

lemma parse_usize_decimal: "n \<le> usize_max \<Longrightarrow> parse_usize (decimal n) = Some n"
  by (simp add: parse_usize_def parse_usize_loop_decimal)

lemma parse_usize_bound: "parse_usize bs = Some n \<Longrightarrow> n \<le> usize_max"
proof -
  have "m \<le> usize_max \<Longrightarrow> parse_usize_loop m bs = Some n \<Longrightarrow> n \<le> usize_max" for m
    by (induction bs arbitrary: m)
      (auto simp: checked_mul_def checked_add_def split: if_splits)
  then show "parse_usize bs = Some n \<Longrightarrow> n \<le> usize_max"
    by (auto simp: parse_usize_def split: if_splits)
qed

text \<open>The number a string of digits denotes.\<close>

definition digits_value :: "nat \<Rightarrow> bytes \<Rightarrow> nat" where
  "digits_value n bs = foldl (\<lambda>n b. n * 10 + (of_char b - 48)) n bs"

lemma digits_value_ge: "n \<le> digits_value n bs"
proof (induction bs arbitrary: n)
  case (Cons b bs)
  have "n \<le> n * 10 + (of_char b - 48)" by simp
  also have "\<dots> \<le> digits_value (n * 10 + (of_char b - 48)) bs" by (rule Cons)
  finally show ?case by (simp add: digits_value_def)
qed (simp add: digits_value_def)

lemma parse_usize_loop_eq:
  "parse_usize_loop n bs =
     (if (\<forall>b\<in>set bs. is_ascii_digit b) \<and> digits_value n bs \<le> usize_max then Some (digits_value n bs)
      else None)" if "n \<le> usize_max"
  using that
proof (induction bs arbitrary: n)
  case Nil
  then show ?case by (simp add: digits_value_def)
next
  case (Cons b bs)
  define d :: nat where "d = of_char b - 48"
  let ?m = "n * 10 + d"
  have v: "digits_value n (b # bs) = digits_value ?m bs" by (simp add: digits_value_def d_def)
  show ?case
  proof (cases "?m \<le> usize_max")
    case True
    with Cons.IH [OF True] show ?thesis
      by (simp add: v checked_mul_def checked_add_def flip: d_def)
  next
    case False
    then have "\<not> digits_value ?m bs \<le> usize_max" using digits_value_ge [of ?m bs] by simp
    with False show ?thesis by (simp add: v checked_mul_def checked_add_def flip: d_def)
  qed
qed

text \<open>The two numeric parsers are the same function at their common width.\<close>

lemma parse_u64_loop_eq:
  "n \<le> usize_max \<Longrightarrow> parse_u64_loop (of_nat n) bs = map_option of_nat (parse_usize_loop n bs)"
proof (induction bs arbitrary: n)
  case (Cons b bs)
  let ?d = "of_char b - 48 :: nat"
  from Cons.prems have n: "unat (of_nat n :: u64) = n"
    by (simp add: unat_of_nat usize_max_def)
  show ?case
  proof (cases "is_ascii_digit b \<and> n * 10 + ?d \<le> usize_max")
    case True
    then have "unat (of_nat n * 10 :: u64) = n * 10"
      using n by (simp add: unat_word_ariths usize_max_def)
    with True n Cons.IH [of "n * 10 + ?d"] show ?thesis
      by (simp add: checked_mul_def checked_add_def usize_max_def mult.commute)
  next
    case False
    show ?thesis
    proof (cases "is_ascii_digit b \<and> n * 10 \<le> usize_max")
      case True
      then have "unat (of_nat n * 10 :: u64) = n * 10"
        using n by (simp add: unat_word_ariths usize_max_def)
      with True False n show ?thesis
        by (auto simp: checked_mul_def checked_add_def usize_max_def)
    next
      case False
      with n show ?thesis
        by (auto simp: checked_mul_def usize_max_def)
    qed
  qed
qed simp

lemma parse_u64_eq: "parse_u64 bs = map_option of_nat (parse_usize bs)"
  using parse_u64_loop_eq [of 0 bs] by (simp add: parse_u64_def parse_usize_def)

lemma parse_u64_decimal: "parse_u64 (decimal (unat v)) = Some v"
  by (simp add: parse_u64_eq parse_usize_decimal unat_u64_bound)

section \<open>Verb parsers over tokens\<close>

lemma parse_sub_eq:
  "parse_sub rest h = Some (case tokens rest of
     [subj, s] \<Rightarrow> Frame (Sub subj None s) h
   | [subj, q, s] \<Rightarrow> Frame (Sub subj (Some q) s) h
   | _ \<Rightarrow> Err BadHeader)"
  by (simp add: parse_sub_def token_simps split: list.split)

lemma parse_unsub_eq:
  "parse_unsub rest h = Some (case tokens rest of
     [] \<Rightarrow> Err BadHeader
   | [s] \<Rightarrow> Frame (Unsub s None) h
   | s # t # ts \<Rightarrow>
       (case parse_u64 t of
          None \<Rightarrow> Err MaxMsgsInvalid
        | Some n \<Rightarrow> if ts = [] then Frame (Unsub s (Some n)) h else Err BadHeader))"
  by (simp add: parse_unsub_def token_simps split: list.split option.split)

lemma parse_pub_eq:
  "parse_pub buf rest h = (case tokens rest of
     [subj, c] \<Rightarrow> parse_payload buf c h (Pub subj None)
   | [subj, r, c] \<Rightarrow> parse_payload buf c h (Pub subj (Some r))
   | _ \<Rightarrow> Some (Err BadHeader))"
  by (simp add: parse_pub_def token_simps split: list.split)

lemma parse_msg_eq:
  "parse_msg buf rest h = (case tokens rest of
     [subj, s, c] \<Rightarrow> parse_payload buf c h (Msg subj s None)
   | [subj, s, r, c] \<Rightarrow> parse_payload buf c h (Msg subj s (Some r))
   | _ \<Rightarrow> Some (Err BadHeader))"
  by (simp add: parse_msg_def token_simps split: list.split)

text \<open>The payload: what \<open>parse_pub\<close> and \<open>parse_msg\<close> do after the header.\<close>

definition payload_outcome :: "bytes \<Rightarrow> nat \<Rightarrow> nat \<Rightarrow> (bytes \<Rightarrow> frame) \<Rightarrow> parse_outcome" where
  "payload_outcome buf h k mk =
     (if usize_max < h + k + 2 then Err PayloadLengthInvalid
      else if length buf < h + k + 2 then NeedMore
      else if take 2 (drop (h + k) buf) \<noteq> CRLF then Err MissingTrailingCrlf
      else Frame (mk (take k (drop h buf))) (h + k + 2))"

lemma parse_payload_eq:
  "parse_payload buf c h mk = Some (case parse_usize c of
     None \<Rightarrow> Err PayloadLengthInvalid
   | Some k \<Rightarrow> payload_outcome buf h k mk)"
proof (cases "parse_usize c")
  case (Some k)
  consider "usize_max < h + k + 2" | "h + k + 2 \<le> usize_max" "length buf < h + k + 2"
    | "h + k + 2 \<le> usize_max" "h + k + 2 \<le> length buf"
    by linarith
  then show ?thesis
    using Some
    by cases (auto simp: parse_payload_def payload_outcome_def consume_payload_def
        need_more_or_missing_crlf_def checked_add_def slice_simps)
qed (simp add: parse_payload_def)

lemma payload_outcome_append:
  "payload_outcome buf h k mk = r \<Longrightarrow> r \<noteq> NeedMore \<Longrightarrow> payload_outcome (buf @ more) h k mk = r"
  by (auto simp: payload_outcome_def split: if_splits)

section \<open>The whole parser\<close>

lemma parse_frame_line:
  assumes "\<not> has_crlf line"
  shows "parse_frame (line @ CRLF @ more) =
    match_verb (line @ CRLF @ more) (takeWhile not_ws line) (tl (dropWhile not_ws line))
      (length line + 2)"
  using find_crlf_line [OF assms, of more]
  by (simp add: parse_frame_def split_verb_eq slice_simps)

lemma parse_frame_no_line: "\<not> has_crlf buf \<Longrightarrow> parse_frame buf = Some NeedMore"
  by (simp add: parse_frame_def find_crlf_None_iff [THEN iffD2])

lemmas verb_eqs =
  parse_sub_eq parse_unsub_eq parse_pub_eq parse_msg_eq parse_payload_eq
  header_only_def parse_err_def parse_connect_def parse_info_def

lemma match_verb_total: "\<exists>r. match_verb buf verb rest h = Some r"
  by (simp add: match_verb_def verb_eqs split: list.split)

lemma parse_frame_cases:
  obtains (no_line) "\<not> has_crlf buf" "parse_frame buf = Some NeedMore"
  | (line) line more where "buf = line @ CRLF @ more" "\<not> has_crlf line"
      "parse_frame buf = match_verb buf (takeWhile not_ws line) (tl (dropWhile not_ws line))
         (length line + 2)"
proof (cases "find_crlf buf")
  case None
  then show thesis using no_line by (simp add: find_crlf_None_iff parse_frame_no_line)
next
  case (Some i)
  then show thesis using line parse_frame_line by (metis find_crlf_SomeE)
qed

lemma parse_frame_total: "\<exists>r. parse_frame buf = Some r"
  by (cases buf rule: parse_frame_cases) (use match_verb_total in auto)

lemma match_verb_append:
  assumes "match_verb buf verb rest h = Some r" "r \<noteq> NeedMore"
  shows "match_verb (buf @ more) verb rest h = Some r"
  using assms
  by (auto simp: match_verb_def verb_eqs payload_outcome_append
      split: if_splits list.splits option.splits)

lemma parse_frame_append:
  assumes "parse_frame buf = Some r" "r \<noteq> NeedMore"
  shows "parse_frame (buf @ more) = Some r"
proof (cases buf rule: parse_frame_cases)
  case no_line
  with assms show ?thesis by simp
next
  case (line l rest)
  with assms have "match_verb (buf @ more) (takeWhile not_ws l) (tl (dropWhile not_ws l))
      (length l + 2) = Some r"
    by (intro match_verb_append) simp_all
  with line parse_frame_line [of l "rest @ more"] show ?thesis by simp
qed

section \<open>Bytes of a frame\<close>

lemma payload_outcome_Frame:
  assumes "payload_outcome buf h k mk = Frame f n"
  shows "n = h + k + 2 \<and> n \<le> length buf \<and> n \<le> usize_max \<and> f = mk (take k (drop h buf))"
  using assms by (auto simp: payload_outcome_def split: if_splits)

lemma payload_outcome_take:
  "payload_outcome buf h k mk = Frame f n \<Longrightarrow> payload_outcome (take n buf) h k mk = Frame f n"
  by (auto simp: payload_outcome_def drop_take min_absorb1 split: if_splits)

text \<open>A parsed frame starts with its header and ends inside the buffer.\<close>

lemma match_verb_Frame:
  assumes "match_verb buf verb rest h = Some (Frame f n)" "h \<le> length buf"
  shows "h \<le> n \<and> n \<le> length buf \<and> match_verb (take n buf) verb rest h = Some (Frame f n)"
  using assms
  by (auto simp: match_verb_def verb_eqs payload_outcome_take
      split: if_splits list.splits option.splits dest: payload_outcome_Frame)

lemma parse_frame_bytes:
  assumes "parse_frame buf = Some (Frame f n)"
  shows "2 \<le> n \<and> n \<le> length buf \<and> parse_frame (take n buf) = Some (Frame f n)"
proof (cases buf rule: parse_frame_cases)
  case no_line
  with assms show ?thesis by simp
next
  case (line l more)
  let ?v = "takeWhile not_ws l" and ?r = "tl (dropWhile not_ws l)"
  have m: "length l + 2 \<le> n \<and> n \<le> length buf \<and>
      match_verb (take n buf) ?v ?r (length l + 2) = Some (Frame f n)"
    using assms line by (intro match_verb_Frame) simp_all
  then have "take n buf = l @ CRLF @ take (n - (length l + 2)) more"
    using line(1) by (auto simp: take_append)
  with m parse_frame_line [OF line(2)] show ?thesis by simp
qed

section \<open>Only legal frames come out\<close>

lemma match_verb_legal:
  assumes "match_verb buf verb rest h = Some (Frame f n)" "\<not> has_crlf rest"
  shows "legal_frame f"
proof -
  have ts: "\<forall>t\<in>set (tokens rest). legal_token t"
    using assms(2) tokens_are_legal by blast
  show ?thesis
    using assms ts
    by (auto simp: match_verb_def verb_eqs split: if_splits list.splits option.splits
        dest!: payload_outcome_Frame)
qed

lemma tl_suffix: "\<exists>a. xs = a @ tl xs"
  by (cases xs) (auto intro: exI [of _ "[_]"])

lemma parse_frame_legal:
  assumes "parse_frame buf = Some (Frame f n)"
  shows "legal_frame f"
proof (cases buf rule: parse_frame_cases)
  case no_line
  with assms show ?thesis by simp
next
  case (line l more)
  let ?r = "tl (dropWhile not_ws l)"
  have "\<exists>a. l = a @ ?r"
    using tl_suffix by (metis append.assoc takeWhile_dropWhile_id)
  then obtain a where "l = a @ ?r" ..
  with line(2) have "\<not> has_crlf ?r" by (metis has_crlf_append)
  with assms line match_verb_legal show ?thesis by metis
qed

end
