(* ===== verification/Codec.thy ===== *)
theory Codec
  imports Emit Parse_Facts
begin

text \<open>
  The codec as its clients use it: \<^const>\<open>emit_frame\<close> and \<^const>\<open>parse_frame\<close> invert each other
  on legal frames, a proper prefix of a frame asks for more bytes, and a byte stream decodes to the
  same frames however it is cut.
\<close>

section \<open>Parsing what the format prescribes\<close>

lemma SP_not_line_end: "SP \<noteq> CR" "SP \<noteq> LF" "CR \<noteq> LF"
  by (simp_all add: byte_defs)

lemma no_crlf_SP: "has_crlf (xs @ SP # ys) \<longleftrightarrow> has_crlf xs \<or> has_crlf ys"
  using SP_not_line_end by (auto simp: has_crlf_append has_crlf_Cons)

lemma no_crlf_opt: "legal_opt q \<Longrightarrow> has_crlf (opt_arg q @ s) \<longleftrightarrow> has_crlf s"
  by (cases q) (simp_all add: no_crlf_SP legal_token_def)

lemma no_crlf_decimal [simp]: "\<not> has_crlf (decimal n)"
  using legal_token_decimal [of n] by (simp add: legal_token_def)

lemmas no_crlf_simps = has_crlf_Cons no_crlf_SP no_crlf_opt legal_token_def

lemma header_no_crlf: "legal_frame f \<Longrightarrow> \<not> has_crlf (header_line f)"
proof (cases f)
  case (Unsub s m)
  assume "legal_frame f"
  with Unsub show ?thesis
    by (cases m) (simp_all add: no_crlf_simps CR_def)
qed (simp_all add: no_crlf_simps CR_def)

lemma verb_split:
  "takeWhile not_ws (v @ SP # r) = v \<and> tl (dropWhile not_ws (v @ SP # r)) = r"
  if "\<forall>b\<in>set v. not_ws b"
  using that by (simp add: takeWhile_append dropWhile_append)

lemma verb_chars:
  "\<forall>b\<in>set ''-ERR''. not_ws b" "\<forall>b\<in>set ''INFO''. not_ws b" "\<forall>b\<in>set ''CONNECT''. not_ws b"
  "\<forall>b\<in>set ''SUB''. not_ws b" "\<forall>b\<in>set ''UNSUB''. not_ws b" "\<forall>b\<in>set ''PUB''. not_ws b"
  "\<forall>b\<in>set ''MSG''. not_ws b" "\<forall>b\<in>set ''PING''. not_ws b" "\<forall>b\<in>set ''PONG''. not_ws b"
  "\<forall>b\<in>set ''+OK''. not_ws b"
  by (simp_all add: is_ws_def byte_defs)

text \<open>The header lines with the verb split off.\<close>

lemma header_with_verb:
  "header_line (ErrFrame msg) = ''-ERR'' @ SP # msg"
  "header_line (Info opts) = ''INFO'' @ SP # opts"
  "header_line (Connect opts) = ''CONNECT'' @ SP # opts"
  "header_line (Sub subj q s) = ''SUB'' @ SP # (subj @ SP # opt_arg q @ s)"
  "header_line (Unsub s m) = ''UNSUB'' @ SP # (s @ (case m of None \<Rightarrow> [] | Some n \<Rightarrow> SP # decimal (unat n)))"
  "header_line (Pub subj r p) = ''PUB'' @ SP # (subj @ SP # opt_arg r @ decimal (length p))"
  "header_line (Msg subj s r p) =
     ''MSG'' @ SP # (subj @ SP # s @ SP # opt_arg r @ decimal (length p))"
  by (simp_all add: SP_def split: option.split)

lemma parse_header:
  assumes "legal_frame f" "header_line f = verb @ SP # rest" "\<forall>b\<in>set verb. not_ws b"
  shows "parse_frame (encode f @ more) =
    match_verb (encode f @ more) verb rest (length (header_line f) + 2)"
  using parse_frame_line [OF header_no_crlf [OF assms(1)], of "body f @ more"]
    verb_split [OF assms(3), of rest] assms(2)
  by (simp add: encode_def)

lemma parse_bare:
  assumes "legal_frame f" "header_line f = verb" "\<forall>b\<in>set verb. not_ws b"
  shows "parse_frame (encode f @ more) =
    match_verb (encode f @ more) verb [] (length (header_line f) + 2)"
proof -
  from assms(3) have "takeWhile not_ws verb = verb" and "dropWhile not_ws verb = []"
    by (simp_all add: takeWhile_eq_all_conv dropWhile_eq_Nil_conv)
  then have "takeWhile not_ws verb = verb \<and> tl (dropWhile not_ws verb) = []" by (simp only: list.sel simp_thms)
  with parse_frame_line [OF header_no_crlf [OF assms(1)], of "body f @ more"] assms(2)
  show ?thesis by (simp add: encode_def)
qed

lemma payload_outcome_encoded:
  assumes "length pre + length p + 2 \<le> usize_max"
  shows "payload_outcome (pre @ p @ CRLF @ more) (length pre) (length p) mk =
    Frame (mk p) (length pre + length p + 2)"
  using assms by (simp add: payload_outcome_def)

lemma parse_encode:
  assumes f: "legal_frame f" and len: "length (encode f) \<le> usize_max"
  shows "parse_frame (encode f @ more) = Some (Frame f (length (encode f)))"
proof (cases f)
  case (Connect opts)
  then show ?thesis
    using f parse_header [OF f, unfolded Connect, OF header_with_verb(3) verb_chars(3)]
    by (simp add: match_verb_def verb_eqs encode_def)
next
  case (Pub subj r p)
  have c: "parse_usize (decimal (length p)) = Some (length p)"
    using len Pub by (intro parse_usize_decimal) (simp add: encode_def)
  have o: "payload_outcome (encode f @ more) (length (header_line f) + 2) (length p) mk =
      Frame (mk p) (length (encode f))" for mk
    using payload_outcome_encoded [of "header_line f @ CRLF" p more mk] len Pub
    by (simp add: encode_def)
  show ?thesis
    using f parse_header [OF f, unfolded Pub, OF header_with_verb(6) verb_chars(6)] c o [unfolded Pub] Pub
    by (cases r) (simp_all add: match_verb_def verb_eqs token_simps)
next
  case (Sub subj q s)
  then show ?thesis
    using f parse_header [OF f, unfolded Sub, OF header_with_verb(4) verb_chars(4)]
    by (cases q) (simp_all add: match_verb_def verb_eqs encode_def token_simps)
next
  case (Unsub s m)
  then show ?thesis
    using f parse_header [OF f, unfolded Unsub, OF header_with_verb(5) verb_chars(5)]
    by (cases m) (simp_all add: match_verb_def verb_eqs encode_def token_simps parse_u64_decimal)
next
  case (Msg subj s r p)
  have c: "parse_usize (decimal (length p)) = Some (length p)"
    using len Msg by (intro parse_usize_decimal) (simp add: encode_def)
  have o: "payload_outcome (encode f @ more) (length (header_line f) + 2) (length p) mk =
      Frame (mk p) (length (encode f))" for mk
    using payload_outcome_encoded [of "header_line f @ CRLF" p more mk] len Msg
    by (simp add: encode_def)
  show ?thesis
    using f parse_header [OF f, unfolded Msg, OF header_with_verb(7) verb_chars(7)] c o [unfolded Msg] Msg
    by (cases r) (simp_all add: match_verb_def verb_eqs token_simps)
next
  case Ping
  then show ?thesis
    using parse_bare [OF f, unfolded Ping, OF header_line.simps(1) verb_chars(8)]
    by (simp add: match_verb_def verb_eqs encode_def)
next
  case Pong
  then show ?thesis
    using parse_bare [OF f, unfolded Pong, OF header_line.simps(2) verb_chars(9)]
    by (simp add: match_verb_def verb_eqs encode_def)
next
  case (Info opts)
  then show ?thesis
    using f parse_header [OF f, unfolded Info, OF header_with_verb(2) verb_chars(2)]
    by (simp add: match_verb_def verb_eqs encode_def)
next
  case OkFrame
  then show ?thesis
    using parse_bare [OF f, unfolded OkFrame, OF header_line.simps(3) verb_chars(10)]
    by (simp add: match_verb_def verb_eqs encode_def)
next
  case (ErrFrame msg)
  then show ?thesis
    using f parse_header [OF f, unfolded ErrFrame, OF header_with_verb(1) verb_chars(1)]
    by (simp add: match_verb_def verb_eqs encode_def)
qed

section \<open>A part of a frame\<close>

lemma take_no_crlf: "\<not> has_crlf xs \<Longrightarrow> \<not> has_crlf (take k xs)"
  by (metis append_take_drop_id has_crlf_append)

lemma payload_of_frame:
  assumes "body f \<noteq> []"
  obtains subj s r p where "f = Pub subj r p" | subj s r p where "f = Msg subj s r p"
  using assms by (cases f) auto

lemma payload_outcome_short:
  "length buf < h + k + 2 \<Longrightarrow> h + k + 2 \<le> usize_max \<Longrightarrow> payload_outcome buf h k mk = NeedMore"
  by (simp add: payload_outcome_def)

text \<open>
  The header is complete and the payload is not: cut the frame after its header line.
\<close>

lemma match_verb_short:
  assumes "match_verb buf verb rest h = Some (Frame f n)" "h \<le> m" "m < n" "m \<le> length buf"
  shows "match_verb (take m buf) verb rest h = Some NeedMore"
  using assms
  by (auto simp: match_verb_def verb_eqs split: if_splits list.splits option.splits
      dest!: payload_outcome_Frame intro!: payload_outcome_short)

lemma parse_frame_short:
  assumes "parse_frame buf = Some (Frame f n)" "m < n"
  shows "parse_frame (take m buf) = Some NeedMore"
proof (cases buf rule: parse_frame_cases)
  case no_line
  with assms show ?thesis by simp
next
  case (line l more)
  have n: "n \<le> length buf" using parse_frame_bytes [OF assms(1)] by simp
  show ?thesis
  proof (cases "length l + 2 \<le> m")
    case True
    then have "take m buf = l @ CRLF @ take (m - (length l + 2)) more"
      using line(1) by (auto simp: take_append)
    with parse_frame_line [OF line(2), of "take (m - (length l + 2)) more"]
    have "parse_frame (take m buf) =
        match_verb (take m buf) (takeWhile not_ws l) (tl (dropWhile not_ws l)) (length l + 2)"
      by simp
    also have "\<dots> = Some NeedMore"
      using assms line n True by (intro match_verb_short [where f = f and n = n]) simp_all
    finally show ?thesis .
  next
    case False
    have "\<not> has_crlf (l @ [CR])"
      using line(2) SP_not_line_end by (simp add: has_crlf_append)
    moreover have "take m buf = take m (l @ [CR])"
      using False line(1) by (auto simp: CRLF_def take_append take_Cons')
    ultimately show ?thesis
      by (metis take_no_crlf parse_frame_no_line)
  qed
qed

section \<open>Framing a byte stream\<close>

text \<open>
  What a reader relies on when it cuts a stream into frames.  A parser with these laws gives the
  same frames however the stream arrives.
\<close>

function decode :: "(bytes \<Rightarrow> parse_outcome option) \<Rightarrow> bytes \<Rightarrow> frame list \<times> bytes \<times> parse_error option"
where
  "decode parse buf =
     (case parse buf of
        Some (Frame f n) \<Rightarrow>
          if 0 < n \<and> n \<le> length buf
          then (case decode parse (drop n buf) of (fs, rest, e) \<Rightarrow> (f # fs, rest, e))
          else ([f], buf, None)
      | Some (Err e) \<Rightarrow> ([], buf, Some e)
      | _ \<Rightarrow> ([], buf, None))"
  by pat_completeness auto
termination
  by (relation "measure (\<lambda>(parse, buf). length buf)") auto

declare decode.simps [simp del]

text \<open>Any division of a stream into chunks, the rest of each carried into the next.\<close>

fun decode_chunks :: "(bytes \<Rightarrow> parse_outcome option) \<Rightarrow> bytes \<Rightarrow> bytes list \<Rightarrow>
    frame list \<times> bytes \<times> parse_error option" where
  "decode_chunks parse rest [] = ([], rest, None)"
| "decode_chunks parse rest (c # cs) =
     (case decode parse (rest @ c) of
        (fs, rest', Some e) \<Rightarrow> (fs, rest' @ concat cs, Some e)
      | (fs, rest', None) \<Rightarrow>
          (case decode_chunks parse rest' cs of (fs', rest'', e') \<Rightarrow> (fs @ fs', rest'', e')))"

locale framing =
  fixes parse :: "bytes \<Rightarrow> parse_outcome option"
  assumes total: "\<exists>r. parse buf = Some r"
    and progress: "parse buf = Some (Frame f n) \<Longrightarrow> 0 < n \<and> n \<le> length buf"
    and stable: "parse buf = Some r \<Longrightarrow> r \<noteq> NeedMore \<Longrightarrow> parse (buf @ more) = Some r"
    and short: "parse buf = Some (Frame f n) \<Longrightarrow> m < n \<Longrightarrow> parse (take m buf) = Some NeedMore"
begin

lemma decode_Frame:
  "parse buf = Some (Frame f n) \<Longrightarrow>
   decode parse buf = (case decode parse (drop n buf) of (fs, rest, e) \<Rightarrow> (f # fs, rest, e))"
  using progress [of buf f n] by (simp add: decode.simps [of parse buf])

lemma decode_stop:
  "parse buf = Some NeedMore \<Longrightarrow> decode parse buf = ([], buf, None)"
  "parse buf = Some (Err e) \<Longrightarrow> decode parse buf = ([], buf, Some e)"
  by (simp_all add: decode.simps [of parse buf])

text \<open>The decoded frames and the rest are the input: nothing is lost or invented.\<close>

lemma decode_rest_suffix: "decode parse buf = (fs, rest, e) \<Longrightarrow> \<exists>k\<le>length buf. rest = drop k buf"
proof (induction "length buf" arbitrary: buf fs rest e rule: less_induct)
  case less
  obtain r where r: "parse buf = Some r" using total by blast
  show ?case
  proof (cases r)
    case (Frame f n)
    with r progress have n: "0 < n" "n \<le> length buf" by auto
    obtain fs' rest' e' where d: "decode parse (drop n buf) = (fs', rest', e')"
      by (cases "decode parse (drop n buf)") auto
    have "length (drop n buf) < length buf" using n by simp
    from less.hyps [OF this d] obtain k where "k \<le> length buf - n" "rest' = drop k (drop n buf)"
      by auto
    moreover have "rest = rest'"
      using less.prems d r Frame by (simp add: decode_Frame)
    ultimately show ?thesis using n by (auto intro!: exI [of _ "k + n"])
  next
    case NeedMore
    then show ?thesis using r less.prems by (auto simp: decode_stop intro: exI [of _ 0])
  next
    case (Err x)
    then show ?thesis using r less.prems by (auto simp: decode_stop intro: exI [of _ 0])
  qed
qed

text \<open>The chunking law.\<close>

lemma decode_append:
  "decode parse (a @ b) =
     (case decode parse a of
        (fs, rest, Some e) \<Rightarrow> (fs, rest @ b, Some e)
      | (fs, rest, None) \<Rightarrow>
          (case decode parse (rest @ b) of (fs', rest', e') \<Rightarrow> (fs @ fs', rest', e')))"
proof (induction "length a" arbitrary: a rule: less_induct)
  case less
  obtain r where r: "parse a = Some r" using total by blast
  show ?case
  proof (cases r)
    case (Frame f n)
    with r have n: "0 < n" "n \<le> length a" "parse (a @ b) = Some (Frame f n)"
      using progress stable by auto
    with r Frame less.hyps [of "drop n a"] show ?thesis
      by (simp add: decode_Frame [of "a @ b"] decode_Frame [of a] split: prod.split option.split)
  next
    case NeedMore
    with r show ?thesis by (simp add: decode_stop split: prod.split)
  next
    case (Err e)
    with r stable [of a "Err e" b] show ?thesis by (simp add: decode_stop)
  qed
qed

lemma decode_rest_stuck: "decode parse buf = (fs, rest, None) \<Longrightarrow> decode parse rest = ([], rest, None)"
proof (induction "length buf" arbitrary: buf fs rule: less_induct)
  case less
  obtain r where r: "parse buf = Some r" using total by blast
  show ?case
  proof (cases r)
    case (Frame f n)
    with r progress have "length (drop n buf) < length buf" by fastforce
    moreover obtain fs' where "decode parse (drop n buf) = (fs', rest, None)"
      using less.prems r Frame by (auto simp: decode_Frame split: prod.splits)
    ultimately show ?thesis by (rule less.hyps)
  next
    case NeedMore
    then show ?thesis using r less.prems by (simp add: decode_stop)
  next
    case (Err x)
    then show ?thesis using r less.prems by (simp add: decode_stop)
  qed
qed

text \<open>A stream cut into chunks decodes as the whole stream.\<close>

lemma decode_chunks_eq:
  "decode parse rest = ([], rest, None) \<Longrightarrow>
   decode_chunks parse rest cs = decode parse (rest @ concat cs)"
proof (induction cs arbitrary: rest)
  case (Cons c cs)
  obtain fs rest' e where d: "decode parse (rest @ c) = (fs, rest', e)"
    by (cases "decode parse (rest @ c)") auto
  show ?case
  proof (cases e)
    case None
    with d decode_rest_stuck Cons.IH [of rest'] decode_append [of "rest @ c" "concat cs"]
    show ?thesis by (simp split: prod.split)
  next
    case (Some x)
    with d decode_append [of "rest @ c" "concat cs"] show ?thesis by simp
  qed
qed simp

end

text \<open>A framing parser for which every legal frame has an encoding.\<close>

locale codec = framing +
  fixes enc :: "frame \<Rightarrow> bytes" and legal :: "frame \<Rightarrow> bool"
  assumes parse_enc: "legal f \<Longrightarrow> parse (enc f @ more) = Some (Frame f (length (enc f)))"
begin

lemma decode_encoded:
  "\<forall>f\<in>set fs. legal f \<Longrightarrow>
   decode parse (concat (map enc fs) @ more) =
     (case decode parse more of (gs, rest, e) \<Rightarrow> (fs @ gs, rest, e))"
proof (induction fs)
  case (Cons f fs)
  then show ?case
    using parse_enc [of f "concat (map enc fs) @ more"]
    by (simp add: decode_Frame split: prod.split)
qed (simp split: prod.split)

lemma chunks_of_frames:
  assumes "\<forall>f\<in>set fs. legal f" "concat cs = concat (map enc fs)" "parse [] = Some NeedMore"
  shows "decode_chunks parse [] cs = (fs, [], None)"
  using assms decode_encoded [of fs "[]"] decode_chunks_eq [of "[]" cs]
  by (simp add: decode_stop)

end

section \<open>The parser is a framing parser and a codec\<close>

interpretation wire: framing parse_frame
proof
  show "\<exists>r. parse_frame buf = Some r" for buf
    by (rule parse_frame_total)
  show "0 < n \<and> n \<le> length buf" if "parse_frame buf = Some (Frame f n)" for buf f n
    using parse_frame_bytes [OF that] by simp
  show "parse_frame (buf @ more) = Some r" if "parse_frame buf = Some r" "r \<noteq> NeedMore"
    for buf r more
    using that by (rule parse_frame_append)
  show "parse_frame (take m buf) = Some NeedMore" if "parse_frame buf = Some (Frame f n)" "m < n"
    for buf f n m
    using that by (rule parse_frame_short)
qed

interpretation nats: codec parse_frame encode "\<lambda>f. legal_frame f \<and> length (encode f) \<le> usize_max"
  by unfold_locales (simp add: parse_encode)

lemma parse_frame_Nil: "parse_frame [] = Some NeedMore"
  by (simp add: parse_frame_no_line)

section \<open>Properties\<close>

text \<open>C1. Round trip: a legal frame emitted into a buffer that can hold it is parsed back as the same
  frame from exactly the emitted bytes, whose count is the encoder's result and the parser's
  \<open>consumed\<close>; the rest of the buffer is untouched.\<close>

theorem emit_parse_roundtrip:
  assumes "legal_frame f" "length (encode f) \<le> length out" "length out \<le> isize_max"
  shows "\<exists>n out'. emit_frame f out = Some (Inr n, out') \<and> n \<le> length out \<and>
    length out' = length out \<and> parse_frame (take n out') = Some (Frame f n) \<and> drop n out' = drop n out"
proof -
  have "payload_fits f" using assms(2,3) by (cases f) (simp_all add: encode_def)
  from emits_fits [OF emits_emit_frame [OF this], of out] assms(2,3) have
    "emit_frame f out = Some (Inr (length (encode f)), encode f @ drop (length (encode f)) out)" by simp
  with parse_encode [OF assms(1), of "[]"] assms(2,3) isize_lt_usize show ?thesis by simp
qed

theorem emit_parse_roundtrip_witness:
  "\<exists>n out'. emit_frame (Pub ''a'' None ''hi'') (replicate 16 SP) = Some (Inr n, out') \<and>
    parse_frame (take n out') = Some (Frame (Pub ''a'' None ''hi'') n)"
  using emit_parse_roundtrip [of "Pub ''a'' None ''hi''" "replicate 16 SP"]
  by (auto simp: legal_token_def is_ws_def byte_defs encode_def decimal.simps isize_max_numeral)

text \<open>C5. Framing does not depend on how the byte stream is cut: feeding the parser chunk by chunk,
  each time with the unparsed rest in front, yields the frames, the rest and the error that the
  whole stream yields at once.\<close>

theorem chunking_irrelevant:
  "decode_chunks parse_frame [] cs = decode parse_frame (concat cs)"
  using wire.decode_chunks_eq [of "[]" cs] by (simp add: wire.decode_stop parse_frame_Nil)

text \<open>Legal frames, encoded one after the other and delivered in chunks cut anywhere, are parsed
  back as the same sequence with no byte left over and no error.\<close>

lemma frames_survive_chunking:
  assumes "\<forall>f\<in>set fs. legal_frame f \<and> length (encode f) \<le> usize_max"
    and "concat cs = concat (map encode fs)"
  shows "decode_chunks parse_frame [] cs = (fs, [], None)"
  using nats.chunks_of_frames [OF assms parse_frame_Nil] .

text \<open>C15. The parser is total: on every input it returns without a panic, and a frame it returns is
  legal, consumed at least a line end, lies within the input, and depends on the consumed bytes
  only.\<close>

theorem parser_safe:
  "\<exists>r. parse_frame buf = Some r \<and>
     (case r of Frame f n \<Rightarrow> 2 \<le> n \<and> n \<le> length buf \<and> legal_frame f \<and>
        parse_frame (take n buf) = Some (Frame f n)
      | _ \<Rightarrow> True)"
  using parse_frame_total [of buf] parse_frame_bytes [of buf] parse_frame_legal [of buf]
  by (auto split: parse_outcome.split)

text \<open>A verdict is final: a frame or an error stays the same when more bytes arrive, and no
  proper prefix of a frame's bytes gives anything but \<open>NeedMore\<close>.\<close>

lemma verdict_stable:
  assumes "parse_frame buf = Some r" "r \<noteq> NeedMore"
  shows "parse_frame (buf @ more) = Some r \<and>
    (\<forall>f n m. r = Frame f n \<longrightarrow> m < n \<longrightarrow> parse_frame (take m buf) = Some NeedMore)"
  using assms parse_frame_append [OF assms, of more] parse_frame_short [of buf] by auto

text \<open>C16. The emitters write exactly the wire format: with room for the encoding the frame's bytes
  stand at the front of the buffer and their number is returned, without room the result is
  \<open>BufferTooSmall\<close> with a requirement between the buffer's length and the encoding's; neither panics.\<close>

theorem emit_exact:
  assumes "payload_fits f" "length out \<le> isize_max"
  shows "if length (encode f) \<le> length out
    then emit_frame f out = Some (Inr (length (encode f)), encode f @ drop (length (encode f)) out)
    else \<exists>sz out'. emit_frame f out = Some (Inl (BufferTooSmall sz (length out)), out') \<and>
      length out < sz \<and> sz \<le> length (encode f) \<and> length out' = length out"
proof (cases "length (encode f) \<le> length out")
  case True
  with emits_fits [OF emits_emit_frame [OF assms(1)], of out] assms(2) show ?thesis by simp
next
  case False
  then show ?thesis
    using emits_too_small [OF emits_emit_frame [OF assms(1)], of out] assms(2) by simp metis
qed

theorem emit_exact_witness:
  "emit_frame Ping (replicate 7 SP) = Some (Inr 6, ''PING'' @ CRLF @ [SP]) \<and>
   (\<exists>sz out'. emit_frame (ErrFrame ''no'') (replicate 6 SP) = Some (Inl (BufferTooSmall sz 6), out') \<and> 6 < sz)"
  using emit_exact [of Ping "replicate 7 SP"] emit_exact [of "ErrFrame ''no''" "replicate 6 SP"]
  by (auto simp: encode_def CRLF_def isize_max_numeral)

lemma payload_outcome_header:
  "payload_outcome (hdr @ more) (length hdr) k mk =
     (if usize_max < length hdr + k + 2 then Err PayloadLengthInvalid
      else if length more < k + 2 then NeedMore
      else if take 2 (drop k more) \<noteq> CRLF then Err MissingTrailingCrlf
      else Frame (mk (take k more)) (length hdr + k + 2))"
  by (simp add: payload_outcome_def)

text \<open>C17. Every outcome of a \<open>PUB\<close> header: a count that is not a number or whose frame cannot be
  addressed is \<open>PayloadLengthInvalid\<close>, an incomplete payload is \<open>NeedMore\<close>, a payload not followed
  by a line end is \<open>MissingTrailingCrlf\<close>, and otherwise the frame carries exactly the counted bytes.\<close>

theorem pub_outcomes:
  assumes "legal_token subj" "legal_opt reply" "legal_token size_text"
    and "h = length (''PUB '' @ subj @ [SP] @ opt_arg reply @ size_text @ CRLF)"
  shows "parse_frame (''PUB '' @ subj @ [SP] @ opt_arg reply @ size_text @ CRLF @ more) = Some
    (case parse_usize size_text of
       None \<Rightarrow> Err PayloadLengthInvalid
     | Some k \<Rightarrow>
         if usize_max < h + k + 2 then Err PayloadLengthInvalid
         else if length more < k + 2 then NeedMore
         else if take 2 (drop k more) \<noteq> CRLF then Err MissingTrailingCrlf
         else Frame (Pub subj reply (take k more)) (h + k + 2))"
proof -
  let ?rest = "subj @ SP # opt_arg reply @ size_text"
  let ?line = "''PUB'' @ SP # ?rest"
  let ?buf = "(?line @ CRLF) @ more"
  have "\<not> has_crlf ?line"
    using assms(1-3) by (simp add: no_crlf_simps CR_def SP_not_line_end [unfolded CR_def])
  from parse_frame_line [OF this, of more] verb_split [OF verb_chars(6), of ?rest] have
    "parse_frame ?buf = parse_pub ?buf ?rest (length (?line @ CRLF))"
    by (simp add: match_verb_def)
  moreover have "tokens ?rest = (case reply of None \<Rightarrow> [subj, size_text] | Some r \<Rightarrow> [subj, r, size_text])"
    using assms(1-3) by (cases reply) (simp_all add: token_simps)
  moreover have "length (?line @ CRLF) = h" using assms(4) by simp
  ultimately have "parse_frame ?buf = Some (case parse_usize size_text of
      None \<Rightarrow> Err PayloadLengthInvalid
    | Some k \<Rightarrow> payload_outcome ?buf h k (Pub subj reply))"
    by (cases reply) (simp_all only: parse_pub_eq parse_payload_eq option.case list.case)
  moreover have "payload_outcome ?buf h k mk =
      (if usize_max < h + k + 2 then Err PayloadLengthInvalid
       else if length more < k + 2 then NeedMore
       else if take 2 (drop k more) \<noteq> CRLF then Err MissingTrailingCrlf
       else Frame (mk (take k more)) (h + k + 2))" for k mk
    unfolding \<open>length (?line @ CRLF) = h\<close> [symmetric] by (rule payload_outcome_header)
  ultimately show ?thesis by (simp add: SP_def cong: option.case_cong)
qed

theorem pub_outcomes_witness:
  "parse_frame (''PUB a 99999999999999999999'' @ CRLF) = Some (Err PayloadLengthInvalid) \<and>
   parse_frame (''PUB a 2'' @ CRLF @ ''hiXX'') = Some (Err MissingTrailingCrlf)"
  using pub_outcomes [of "''a''" None "''99999999999999999999''" 28 "[]"]
    pub_outcomes [of "''a''" None "''2''" 9 "''hiXX''"]
  by (simp add: legal_token_def is_ws_def byte_defs CRLF_def parse_usize_def is_ascii_digit_def
      checked_mul_def checked_add_def usize_max_numeral)

text \<open>C18. Byte counts and message limits: both numeric parsers accept exactly the nonempty strings of
  ASCII digits whose value fits 64 bits, leading zeros included, and return that value; an overflow
  in the middle of the digits is a rejection, never a wrapped number.\<close>

theorem numbers_exact:
  "parse_usize bs =
     (if bs \<noteq> [] \<and> (\<forall>b\<in>set bs. is_ascii_digit b) \<and> digits_value 0 bs \<le> usize_max
      then Some (digits_value 0 bs) else None) \<and>
   parse_u64 bs = map_option of_nat (parse_usize bs)"
  using parse_usize_loop_eq [of 0 bs] by (simp add: parse_usize_def parse_u64_eq)

theorem numbers_exact_witness:
  "parse_usize ''0018446744073709551615'' = Some usize_max \<and> parse_usize ''18446744073709551616'' = None"
  using numbers_exact [of "''0018446744073709551615''"] numbers_exact [of "''18446744073709551616''"]
  by (simp add: is_ascii_digit_def digits_value_def usize_max_numeral)

end
