(* ===== verification/Subscription.thy ===== *)
theory Subscription
  imports Prelude
begin

text \<open>
  The per-worker subscription trie, \<open>aulon-core/src/subscription.rs\<close>.

  A node keeps the four fields of the source; the \<open>HashMap\<close> of literal children is an association
  list with distinct keys.  A walk that borrows a node mutably is a function that returns the
  changed node.  The index \<open>depth\<close> into the token vector is represented by the suffix of the
  tokens from that index on, so \<open>depth == last\<close> is "no token is left after this one".  None is a
  panic (an unreachable arm, an index out of range, an overflow or underflow of \<open>usize\<close>).  The callback of
  \<open>for_each_match\<close> acts on a state that the walk threads through.

  \<open>Subscription_Facts\<close> relates the trie to the collection of subscriptions it holds.
\<close>

section \<open>Data\<close>

datatype connection_id = ConnectionId (get: u32)

record sub =
  conn_id :: connection_id
  sid :: bytes
  queue_group :: "bytes option"

datatype subject_error = Empty | EmptyToken | WildcardInPublish | InvalidGreaterPosition

datatype token = Literal bytes | Star | Greater

datatype node =
  Node (exact: "sub list") (rest: "sub list") (children: "(bytes \<times> node) list") (star: "node option")

definition empty_node :: node where
  "empty_node = Node [] [] [] None"

definition node_is_empty :: "node \<Rightarrow> bool" where
  "node_is_empty n \<longleftrightarrow> exact n = [] \<and> rest n = [] \<and> children n = [] \<and> star n = None"

record subscription_trie =
  root :: node
  total_subscriptions :: nat

definition new_trie :: subscription_trie where
  "new_trie = \<lparr>root = empty_node, total_subscriptions = 0\<rparr>"

text \<open>The derived order of the id newtype.\<close>

instantiation connection_id :: linorder
begin

definition less_eq_connection_id :: "connection_id \<Rightarrow> connection_id \<Rightarrow> bool" where
  "less_eq_connection_id a b \<longleftrightarrow> get a \<le> get b"

definition less_connection_id :: "connection_id \<Rightarrow> connection_id \<Rightarrow> bool" where
  "less_connection_id a b \<longleftrightarrow> get a < get b"

instance
  by standard (auto simp: less_eq_connection_id_def less_connection_id_def connection_id.expand)

end

section \<open>Subjects\<close>

definition is_dot :: "char \<Rightarrow> bool" where
  "is_dot b \<longleftrightarrow> b = CHR ''.''"

definition classify :: "bytes \<Rightarrow> token" where
  "classify tok = (if tok = ''*'' then Star else if tok = ''>'' then Greater else Literal tok)"

text \<open>The first loop of \<open>parse_subscriber_subject\<close>.\<close>

fun push_tokens :: "bytes list \<Rightarrow> token list \<Rightarrow> subject_error + token list" where
  "push_tokens [] toks = Inr toks"
| "push_tokens (t # ts) toks =
     (if t = [] then Inl EmptyToken else push_tokens ts (toks @ [classify t]))"

definition parse_subscriber_subject :: "bytes \<Rightarrow> (subject_error + token list) option" where
  "parse_subscriber_subject s =
     (if s = [] then Some (Inl Empty)
      else case push_tokens (split_on is_dot s) [] of
        Inl e \<Rightarrow> Some (Inl e)
      | Inr toks \<Rightarrow> do {
          last_idx \<leftarrow> usize_sub (length toks) 1;
          if \<exists>(i, t) \<in> set (enumerate 0 toks). t = Greater \<and> i \<noteq> last_idx
          then Some (Inl InvalidGreaterPosition)
          else Some (Inr toks)
        })"

text \<open>The loop of \<open>parse_publisher_subject\<close>.\<close>

fun push_literals :: "bytes list \<Rightarrow> bytes list \<Rightarrow> subject_error + bytes list" where
  "push_literals [] toks = Inr toks"
| "push_literals (t # ts) toks =
     (if t = [] then Inl EmptyToken
      else if t = ''*'' \<or> t = ''>'' then Inl WildcardInPublish
      else push_literals ts (toks @ [t]))"

definition parse_publisher_subject :: "bytes \<Rightarrow> subject_error + bytes list" where
  "parse_publisher_subject s =
     (if s = [] then Inl Empty else push_literals (split_on is_dot s) [])"

section \<open>Subscribe\<close>

definition push_exact :: "node \<Rightarrow> sub \<Rightarrow> node" where
  "push_exact n s = Node (exact n @ [s]) (rest n) (children n) (star n)"

text \<open>The loop of \<open>subscribe\<close> from the current node on.\<close>

fun subscribe_loop :: "node \<Rightarrow> token list \<Rightarrow> sub \<Rightarrow> node option" where
  "subscribe_loop n [] s = None"
| "subscribe_loop (Node e r c st) (Greater # ts) s = Some (Node e (r @ [s]) c st)"
| "subscribe_loop (Node e r c st) (Star # ts) s =
     (let child = (case st of None \<Rightarrow> empty_node | Some ch \<Rightarrow> ch) in
      if ts = [] then Some (Node e r c (Some (push_exact child s)))
      else do {
        child' \<leftarrow> subscribe_loop child ts s;
        Some (Node e r c (Some child'))
      })"
| "subscribe_loop (Node e r c st) (Literal b # ts) s =
     (let child = (case map_of c b of None \<Rightarrow> empty_node | Some ch \<Rightarrow> ch) in
      if ts = [] then Some (Node e r (AList.update b (push_exact child s) c) st)
      else do {
        child' \<leftarrow> subscribe_loop child ts s;
        Some (Node e r (AList.update b child' c) st)
      })"

definition subscribe ::
  "subscription_trie \<Rightarrow> bytes \<Rightarrow> sub \<Rightarrow> ((subject_error + unit) \<times> subscription_trie) option" where
  "subscribe t subject s = do {
     r \<leftarrow> parse_subscriber_subject subject;
     case r of
       Inl e \<Rightarrow> Some (Inl e, t)
     | Inr toks \<Rightarrow> do {
         last_idx \<leftarrow> usize_sub (length toks) 1;
         n \<leftarrow> subscribe_loop (root t) toks s;
         tot \<leftarrow> checked_add (total_subscriptions t) 1;
         Some (Inr (), \<lparr>root = n, total_subscriptions = tot\<rparr>)
       }
   }"

section \<open>Unsubscribe\<close>

definition owned_by :: "connection_id \<Rightarrow> bytes \<Rightarrow> sub \<Rightarrow> bool" where
  "owned_by c i s \<longleftrightarrow> conn_id s = c \<and> sid s = i"

text \<open>
  \<open>retain\<close> on one bucket with the bookkeeping after it; the bucket of \<open>unsubscribe_walk\<close> is
  \<open>rest\<close>, that of \<open>step_or_remove\<close> is \<open>exact\<close>.
\<close>

definition retain_bucket ::
  "sub list \<Rightarrow> connection_id \<Rightarrow> bytes \<Rightarrow> nat \<Rightarrow> (bool \<times> sub list \<times> nat) option" where
  "retain_bucket bucket c i tot =
     (let bucket' = filter (\<lambda>s. \<not> owned_by c i s) bucket;
          removed = (length bucket' \<noteq> length bucket)
      in do {
        tot' \<leftarrow> (if removed then usize_sub tot 1 else Some tot);
        Some (removed, bucket', tot')
      })"

fun unsubscribe_walk ::
    "node \<Rightarrow> token list \<Rightarrow> connection_id \<Rightarrow> bytes \<Rightarrow> nat \<Rightarrow> (bool \<times> node \<times> nat) option"
  and step_or_remove ::
    "node \<Rightarrow> token list \<Rightarrow> connection_id \<Rightarrow> bytes \<Rightarrow> nat \<Rightarrow> (bool \<times> node \<times> nat) option"
where
  "unsubscribe_walk n [] c i tot = None"
| "unsubscribe_walk (Node e r ch st) (Greater # ts) c i tot = do {
     (removed, r', tot') \<leftarrow> retain_bucket r c i tot;
     Some (removed, Node e r' ch st, tot')
   }"
| "unsubscribe_walk (Node e r ch st) (Literal b # ts) c i tot =
     (case map_of ch b of
        None \<Rightarrow> Some (False, Node e r ch st, tot)
      | Some child \<Rightarrow> do {
          (removed, child', tot') \<leftarrow> step_or_remove child ts c i tot;
          Some (removed,
            Node e r (if node_is_empty child' then AList.delete b ch else AList.update b child' ch) st,
            tot')
        })"
| "unsubscribe_walk (Node e r ch st) (Star # ts) c i tot =
     (case st of
        None \<Rightarrow> Some (False, Node e r ch st, tot)
      | Some child \<Rightarrow> do {
          (removed, child', tot') \<leftarrow> step_or_remove child ts c i tot;
          Some (removed, Node e r ch (if node_is_empty child' then None else Some child'), tot')
        })"
| "step_or_remove child ts c i tot =
     (if ts = []
      then do {
        (removed, e', tot') \<leftarrow> retain_bucket (exact child) c i tot;
        Some (removed, Node e' (rest child) (children child) (star child), tot')
      }
      else unsubscribe_walk child ts c i tot)"

definition unsubscribe ::
  "subscription_trie \<Rightarrow> bytes \<Rightarrow> connection_id \<Rightarrow> bytes \<Rightarrow> (bool \<times> subscription_trie) option" where
  "unsubscribe t subject c i = do {
     r \<leftarrow> parse_subscriber_subject subject;
     case r of
       Inl e \<Rightarrow> Some (False, t)
     | Inr toks \<Rightarrow> do {
         (removed, n, tot) \<leftarrow> unsubscribe_walk (root t) toks c i (total_subscriptions t);
         Some (removed, \<lparr>root = n, total_subscriptions = tot\<rparr>)
       }
   }"

section \<open>Match\<close>

fun walk_match :: "node \<Rightarrow> bytes list \<Rightarrow> (sub \<Rightarrow> 's \<Rightarrow> 's) \<Rightarrow> 's \<Rightarrow> 's" where
  "walk_match n [] f st0 = fold f (exact n) st0"
| "walk_match n (t # ts) f st0 =
     (let st1 = fold f (rest n) st0;
          st2 = (case map_of (children n) t of None \<Rightarrow> st1 | Some ch \<Rightarrow> walk_match ch ts f st1)
      in case star n of None \<Rightarrow> st2 | Some ch \<Rightarrow> walk_match ch ts f st2)"

definition for_each_match ::
  "subscription_trie \<Rightarrow> bytes \<Rightarrow> (sub \<Rightarrow> 's \<Rightarrow> 's) \<Rightarrow> 's \<Rightarrow> subject_error + 's" where
  "for_each_match t subject f st0 =
     (case parse_publisher_subject subject of
        Inl e \<Rightarrow> Inl e
      | Inr toks \<Rightarrow> Inr (walk_match (root t) toks f st0))"

end
