(* ===== verification/Connection_State.thy ===== *)
theory Connection_State
  imports Subscription
begin

text \<open>
  The state that a connection's reader and writer tasks share, \<open>aulon-core/src/connection_state.rs\<close>.

  The outbound buffer is a linear byte array with a head and a tail cursor that return to 0 when
  the buffer drains.  The task notification primitive (\<open>tokio::sync::Notify\<close>) is not part of the
  sources: its state is the type variable \<open>'n\<close>, and the operations that signal it take
  \<open>notify_one\<close> as an argument.  None is a panic: an index out of range or an underflow of \<open>usize\<close>.

  The lemmas show that the buffer is a bounded first-in first-out queue of bytes; \<open>outbound\<close> is the
  interface its clients use.
\<close>

section \<open>Data\<close>

definition DEFAULT_OUTBOUND_CAPACITY :: nat where
  "DEFAULT_OUTBOUND_CAPACITY = 2 * 1024 * 1024"

datatype close_reason = SlowConsumer | ProtocolError | PeerClosed

fun err_text :: "close_reason \<Rightarrow> bytes option" where
  "err_text SlowConsumer = Some ''slow consumer''"
| "err_text ProtocolError = Some ''protocol error''"
| "err_text PeerClosed = None"

datatype enqueue_outcome = EnqueueOk | SlowConsumerClosed | AlreadyClosing

record 'n connection_state =
  state_id :: connection_id
  outbound_data :: bytes
  outbound_head :: nat
  outbound_tail :: nat
  notify :: 'n
  close_with :: "close_reason option"

text \<open>The zero byte the storage is filled with.\<close>

definition zero_byte :: char where
  "zero_byte = CHR 0x00"

definition new_state :: "'n \<Rightarrow> connection_id \<Rightarrow> nat \<Rightarrow> 'n connection_state" where
  "new_state fresh cid cap =
     \<lparr>state_id = cid, outbound_data = replicate cap zero_byte, outbound_head = 0,
      outbound_tail = 0, notify = fresh, close_with = None\<rparr>"

definition outbound_capacity :: "'n connection_state \<Rightarrow> nat" where
  "outbound_capacity c = length (outbound_data c)"

definition pending_bytes :: "'n connection_state \<Rightarrow> nat option" where
  "pending_bytes c = usize_sub (outbound_tail c) (outbound_head c)"

section \<open>Operations\<close>

text \<open>The copy loop of \<open>enqueue\<close>: \<open>outbound_data[tail + i].set(b)\<close> for each byte.\<close>

fun copy_in :: "bytes \<Rightarrow> nat \<Rightarrow> bytes \<Rightarrow> bytes option" where
  "copy_in xs k [] = Some xs"
| "copy_in xs k (b # bs) = do { xs' \<leftarrow> index_set xs k b; copy_in xs' (k + 1) bs }"

definition enqueue ::
  "('n \<Rightarrow> 'n) \<Rightarrow> 'n connection_state \<Rightarrow> bytes \<Rightarrow> (enqueue_outcome \<times> 'n connection_state) option" where
  "enqueue notify_one c bs =
     (if close_with c \<noteq> None then Some (AlreadyClosing, c)
      else
        let pos = outbound_tail c; needed = length bs in
        if saturating_add pos needed > length (outbound_data c)
        then Some (SlowConsumerClosed,
               c\<lparr>close_with := Some SlowConsumer, notify := notify_one (notify c)\<rparr>)
        else do {
          xs \<leftarrow> copy_in (outbound_data c) pos bs;
          Some (EnqueueOk, c\<lparr>outbound_data := xs, outbound_tail := pos + needed,
                           notify := notify_one (notify c)\<rparr>)
        })"

definition mark_close :: "('n \<Rightarrow> 'n) \<Rightarrow> 'n connection_state \<Rightarrow> close_reason \<Rightarrow> 'n connection_state" where
  "mark_close notify_one c reason =
     (let c' = (if close_with c = None then c\<lparr>close_with := Some reason\<rparr> else c)
      in c'\<lparr>notify := notify_one (notify c')\<rparr>)"

text \<open>
  \<open>wait_for_event\<close> polls \<open>notified\<close>: None is "not ready", otherwise the permit is taken.
\<close>

definition wait_for_event ::
  "('n \<Rightarrow> 'n option) \<Rightarrow> 'n connection_state \<Rightarrow> 'n connection_state option" where
  "wait_for_event notified c = map_option (\<lambda>p. c\<lparr>notify := p\<rparr>) (notified (notify c))"

text \<open>The copy loop of \<open>drain_into\<close>: \<open>dst[i] = outbound_data[head + i]\<close> for i below n.\<close>

fun copy_out :: "bytes \<Rightarrow> nat \<Rightarrow> nat \<Rightarrow> nat \<Rightarrow> bytes \<Rightarrow> bytes option" where
  "copy_out xs k i 0 dst = Some dst"
| "copy_out xs k i (Suc n) dst = do {
     b \<leftarrow> index_get xs (k + i);
     dst' \<leftarrow> index_set dst i b;
     copy_out xs k (i + 1) n dst'
   }"

definition drain_into ::
  "'n connection_state \<Rightarrow> bytes \<Rightarrow> (nat \<times> bytes \<times> 'n connection_state) option" where
  "drain_into c dst = do {
     let h = outbound_head c;
     let t = outbound_tail c;
     pending \<leftarrow> usize_sub t h;
     let n = min pending (length dst);
     dst' \<leftarrow> copy_out (outbound_data c) h 0 n dst;
     let new_head = h + n;
     Some (n, dst',
       if new_head = t then c\<lparr>outbound_head := 0, outbound_tail := 0\<rparr>
       else c\<lparr>outbound_head := new_head\<rparr>)
   }"

section \<open>The buffer as a queue\<close>

definition conn_invar :: "'n connection_state \<Rightarrow> bool" where
  "conn_invar c \<longleftrightarrow> outbound_head c \<le> outbound_tail c \<and>
     outbound_tail c \<le> length (outbound_data c) \<and> length (outbound_data c) \<le> isize_max \<and>
     (outbound_head c = outbound_tail c \<longrightarrow> outbound_head c = 0)"

definition pending :: "'n connection_state \<Rightarrow> bytes" where
  "pending c = take (outbound_tail c - outbound_head c) (drop (outbound_head c) (outbound_data c))"

definition free_bytes :: "'n connection_state \<Rightarrow> nat" where
  "free_bytes c = length (outbound_data c) - outbound_tail c"

lemma copy_in_eq:
  "k + length bs \<le> length xs \<Longrightarrow> copy_in xs k bs = Some (take k xs @ bs @ drop (k + length bs) xs)"
proof (induction bs arbitrary: xs k)
  case (Cons b bs)
  then have k: "k < length xs" by simp
  with Cons.prems have "k + 1 + length bs \<le> length (xs[k := b])" by simp
  from Cons.IH [OF this] k Cons.prems show ?case
    by (simp add: slice_simps take_Suc_conv_app_nth upd_conv_take_nth_drop add.commute)
qed simp

lemma copy_out_eq:
  "i + n \<le> length dst \<Longrightarrow> k + i + n \<le> length xs \<Longrightarrow>
   copy_out xs k i n dst = Some (take i dst @ take n (drop (k + i) xs) @ drop (i + n) dst)"
proof (induction n arbitrary: i dst)
  case (Suc n)
  then have i: "i < length dst" "k + i < length xs" by simp_all
  let ?dst = "dst[i := xs ! (k + i)]"
  have "copy_out xs k (i + 1) n ?dst =
      Some (take (i + 1) ?dst @ take n (drop (k + (i + 1)) xs) @ drop (i + 1 + n) ?dst)"
    using Suc.prems by (intro Suc.IH) simp_all
  moreover have "take (Suc n) (drop (k + i) xs) = xs ! (k + i) # take n (drop (k + (i + 1)) xs)"
    using i by (simp add: Cons_nth_drop_Suc [symmetric])
  ultimately show ?case
    using i by (simp add: slice_simps take_Suc_conv_app_nth upd_conv_take_nth_drop add.commute)
qed simp

lemma length_pending [conn_simps]:
  "conn_invar c \<Longrightarrow> length (pending c) = outbound_tail c - outbound_head c"
  by (auto simp: conn_invar_def pending_def)

lemma new_state_invar [conn_simps]:
  "cap \<le> isize_max \<Longrightarrow> conn_invar (new_state fresh cid cap)"
  "pending (new_state fresh cid cap) = []" "free_bytes (new_state fresh cid cap) = cap"
  "close_with (new_state fresh cid cap) = None" "state_id (new_state fresh cid cap) = cid"
  by (simp_all add: conn_invar_def pending_def free_bytes_def new_state_def)

lemma pending_append:
  "h \<le> t \<Longrightarrow> t + length bs \<le> length xs \<Longrightarrow>
   take (t + length bs - h) (drop h (take t xs @ bs @ drop (t + length bs) xs)) =
     take (t - h) (drop h xs) @ bs"
proof -
  assume "h \<le> t" "t + length bs \<le> length xs"
  moreover from this have "t + length bs - h = (t - h) + length bs" by simp
  moreover from calculation have "length (take (t - h) (drop h xs)) = t - h" by simp
  ultimately show ?thesis by (simp add: drop_take)
qed

lemma saturating_fits:
  "t \<le> length xs \<Longrightarrow> length xs \<le> isize_max \<Longrightarrow>
   saturating_add t n > length xs \<longleftrightarrow> length xs - t < n"
  using saturating_add_gt_iff [of "length xs" t n] isize_lt_usize by auto

lemma enqueue_closing:
  "close_with c = Some r \<Longrightarrow> enqueue notify_one c bs = Some (AlreadyClosing, c)"
  by (simp add: enqueue_def)

lemma enqueue_overflow:
  assumes "conn_invar c" "close_with c = None" "free_bytes c < length bs"
  shows "enqueue notify_one c bs = Some (SlowConsumerClosed,
    c\<lparr>close_with := Some SlowConsumer, notify := notify_one (notify c)\<rparr>)"
  using assms saturating_fits [of "outbound_tail c" "outbound_data c" "length bs"]
  by (simp add: enqueue_def conn_invar_def free_bytes_def)

lemma enqueue_fits:
  assumes "conn_invar c" "close_with c = None" "length bs \<le> free_bytes c"
  shows "\<exists>c'. enqueue notify_one c bs = Some (EnqueueOk, c') \<and> conn_invar c' \<and>
    pending c' = pending c @ bs \<and> free_bytes c' = free_bytes c - length bs \<and> close_with c' = None \<and>
    state_id c' = state_id c \<and> outbound_capacity c' = outbound_capacity c \<and>
    notify c' = notify_one (notify c)"
proof -
  let ?h = "outbound_head c" and ?t = "outbound_tail c" and ?xs = "outbound_data c"
  from assms have b: "?h \<le> ?t" "?t + length bs \<le> length ?xs" "length ?xs \<le> isize_max"
      "?h = ?t \<longrightarrow> ?h = 0" by (auto simp: conn_invar_def free_bytes_def)
  then have "\<not> saturating_add ?t (length bs) > length ?xs"
    using saturating_fits [of ?t ?xs "length bs"] by simp
  with assms(2) copy_in_eq [OF b(2)] have e: "enqueue notify_one c bs = Some (EnqueueOk,
      c\<lparr>outbound_data := take ?t ?xs @ bs @ drop (?t + length bs) ?xs,
        outbound_tail := ?t + length bs, notify := notify_one (notify c)\<rparr>)"
    by (simp add: enqueue_def Let_def)
  show ?thesis unfolding e using assms(2) b pending_append [OF b(1,2)]
    by (auto simp: conn_invar_def pending_def free_bytes_def outbound_capacity_def)
qed

lemma drain_into_eq:
  assumes "conn_invar c" "n = min (length (pending c)) (length dst)"
  shows "\<exists>c'. drain_into c dst = Some (n, take n (pending c) @ drop n dst, c') \<and> conn_invar c' \<and>
    pending c' = drop n (pending c) \<and> close_with c' = close_with c \<and> notify c' = notify c \<and>
    state_id c' = state_id c \<and> outbound_capacity c' = outbound_capacity c \<and>
    free_bytes c' = (if pending c' = [] then outbound_capacity c else free_bytes c)"
proof -
  let ?h = "outbound_head c" and ?t = "outbound_tail c" and ?xs = "outbound_data c"
  from assms(1) have b: "?h \<le> ?t" "?t \<le> length ?xs" "length ?xs \<le> isize_max" "?h = ?t \<longrightarrow> ?h = 0"
    by (auto simp: conn_invar_def)
  have n: "n = min (?t - ?h) (length dst)" using assms by (simp add: length_pending)
  with b have "copy_out ?xs ?h 0 n dst = Some (take n (drop ?h ?xs) @ drop n dst)"
    using copy_out_eq [of 0 n dst ?h ?xs] by simp
  moreover have "take n (drop ?h ?xs) = take n (pending c)"
    using n by (simp add: pending_def min_def)
  ultimately have d: "drain_into c dst = Some (n, take n (pending c) @ drop n dst,
      if ?h + n = ?t then c\<lparr>outbound_head := 0, outbound_tail := 0\<rparr>
      else c\<lparr>outbound_head := ?h + n\<rparr>)"
    using b n by (simp add: drain_into_def usize_sub_def Let_def)
  show ?thesis
  proof (cases "?h + n = ?t")
    case True
    with d b n show ?thesis
      by (auto simp: conn_invar_def pending_def free_bytes_def outbound_capacity_def)
  next
    case False
    with n b(1) have "?h + n < ?t" by simp
    with d b show ?thesis
      by (auto simp: conn_invar_def pending_def free_bytes_def outbound_capacity_def drop_take
          add.commute)
  qed
qed

lemma mark_close_facts [conn_simps]:
  "pending (mark_close notify_one c r) = pending c"
  "free_bytes (mark_close notify_one c r) = free_bytes c"
  "conn_invar (mark_close notify_one c r) = conn_invar c"
  "close_with (mark_close notify_one c r) = (case close_with c of None \<Rightarrow> Some r | Some r' \<Rightarrow> Some r')"
  "notify (mark_close notify_one c r) = notify_one (notify c)"
  "state_id (mark_close notify_one c r) = state_id c"
  "outbound_capacity (mark_close notify_one c r) = outbound_capacity c"
  by (auto simp: mark_close_def pending_def free_bytes_def conn_invar_def outbound_capacity_def
      split: option.split)

section \<open>The interface: a bounded byte queue that can close\<close>

datatype queue_op = Put bytes | Take bytes | Close close_reason

text \<open>
  A history of operations on the queue, with the bytes that were accepted and those that came out.
\<close>

fun run_queue ::
  "('c \<Rightarrow> bytes \<Rightarrow> (enqueue_outcome \<times> 'c) option) \<Rightarrow> ('c \<Rightarrow> bytes \<Rightarrow> (nat \<times> bytes \<times> 'c) option) \<Rightarrow>
   ('c \<Rightarrow> close_reason \<Rightarrow> 'c) \<Rightarrow> queue_op list \<Rightarrow> 'c \<Rightarrow> (bytes \<times> bytes \<times> 'c) option" where
  "run_queue put take_from close [] c = Some ([], [], c)"
| "run_queue put take_from close (Put bs # opers) c = do {
     (r, c') \<leftarrow> put c bs;
     (acc, del, c'') \<leftarrow> run_queue put take_from close opers c';
     Some ((if r = EnqueueOk then bs else []) @ acc, del, c'')
   }"
| "run_queue put take_from close (Take dst # opers) c = do {
     (n, out, c') \<leftarrow> take_from c dst;
     (acc, del, c'') \<leftarrow> run_queue put take_from close opers c';
     Some (acc, take n out @ del, c'')
   }"
| "run_queue put take_from close (Close r # opers) c = run_queue put take_from close opers (close c r)"

locale outbound =
  fixes put :: "'c \<Rightarrow> bytes \<Rightarrow> (enqueue_outcome \<times> 'c) option"
    and take_from :: "'c \<Rightarrow> bytes \<Rightarrow> (nat \<times> bytes \<times> 'c) option"
    and close :: "'c \<Rightarrow> close_reason \<Rightarrow> 'c"
    and invar :: "'c \<Rightarrow> bool"
    and content :: "'c \<Rightarrow> bytes"
    and room :: "'c \<Rightarrow> nat"
    and closing :: "'c \<Rightarrow> close_reason option"
  assumes put_fits: "invar c \<Longrightarrow> closing c = None \<Longrightarrow> length bs \<le> room c \<Longrightarrow>
      \<exists>c'. put c bs = Some (EnqueueOk, c') \<and> invar c' \<and> content c' = content c @ bs \<and>
        room c' = room c - length bs \<and> closing c' = None"
    and put_overflow: "invar c \<Longrightarrow> closing c = None \<Longrightarrow> room c < length bs \<Longrightarrow>
      \<exists>c'. put c bs = Some (SlowConsumerClosed, c') \<and> invar c' \<and> content c' = content c \<and>
        closing c' = Some SlowConsumer"
    and put_closing: "invar c \<Longrightarrow> closing c = Some r \<Longrightarrow> put c bs = Some (AlreadyClosing, c)"
    and take_some: "invar c \<Longrightarrow> n = min (length (content c)) (length dst) \<Longrightarrow>
      \<exists>c'. take_from c dst = Some (n, take n (content c) @ drop n dst, c') \<and> invar c' \<and>
        content c' = drop n (content c) \<and> closing c' = closing c"
    and close_first: "invar c \<Longrightarrow> invar (close c r) \<and> content (close c r) = content c \<and>
      closing (close c r) = (case closing c of None \<Rightarrow> Some r | Some r' \<Rightarrow> Some r')"
begin

lemma put_cases:
  assumes "invar c"
  obtains c' where "put c bs = Some (EnqueueOk, c')" "invar c'" "content c' = content c @ bs"
      "closing c = None" "closing c' = None" "length bs \<le> room c"
  | c' where "put c bs = Some (SlowConsumerClosed, c')" "invar c'" "content c' = content c"
      "closing c = None" "closing c' = Some SlowConsumer" "room c < length bs"
  | r where "put c bs = Some (AlreadyClosing, c)" "closing c = Some r"
  using put_fits [OF assms] put_overflow [OF assms] put_closing [OF assms]
  by (metis not_le option.exhaust)

lemma fifo:
  assumes "invar c"
  shows "\<exists>acc del c'. run_queue put take_from close opers c = Some (acc, del, c') \<and> invar c' \<and>
    content c @ acc = del @ content c' \<and> (closing c \<noteq> None \<longrightarrow> acc = [] \<and> closing c' = closing c)"
  using assms
proof (induction opers arbitrary: c)
  case (Cons oper opers)
  show ?case
  proof (cases oper)
    case (Put bs)
    from Cons.prems show ?thesis
    proof (cases rule: put_cases [of c bs])
      case (1 c')
      with Cons.IH [OF 1(2)] Put show ?thesis by auto
    next
      case (2 c')
      with Cons.IH [OF 2(2)] Put show ?thesis by auto
    next
      case (3 r)
      with Cons.IH [OF Cons.prems] Put show ?thesis by auto
    qed
  next
    case (Take dst)
    let ?n = "min (length (content c)) (length dst)"
    from take_some [OF Cons.prems refl, of dst] obtain c' where
      c': "take_from c dst = Some (?n, take ?n (content c) @ drop ?n dst, c')" "invar c'"
        "content c' = drop ?n (content c)" "closing c' = closing c" by blast
    from Cons.IH [OF c'(2)] obtain acc del c'' where
      r: "run_queue put take_from close opers c' = Some (acc, del, c'')" "invar c''"
        "content c' @ acc = del @ content c''" "closing c' \<noteq> None \<longrightarrow> acc = [] \<and> closing c'' = closing c'"
      by blast
    have "content c @ acc = take ?n (content c) @ (content c' @ acc)"
      using c'(3) by (metis append.assoc append_take_drop_id)
    with r c' Take show ?thesis by simp
  next
    case (Close r)
    with Cons.IH [of "close c r"] close_first [OF Cons.prems, of r] show ?thesis
      by (auto split: option.splits)
  qed
qed simp

end

interpretation out_queue: outbound "enqueue notify_one" drain_into "mark_close notify_one" conn_invar
  pending free_bytes close_with
  for notify_one :: "'n \<Rightarrow> 'n"
proof
  show "\<exists>c'. drain_into c dst = Some (n, take n (pending c) @ drop n dst, c') \<and> conn_invar c' \<and>
      pending c' = drop n (pending c) \<and> close_with c' = close_with c"
    if "conn_invar c" "n = min (length (pending c)) (length dst)" for c :: "'n connection_state" and n dst
    using drain_into_eq [OF that] by blast
  show "\<exists>c'. enqueue notify_one c bs = Some (SlowConsumerClosed, c') \<and> conn_invar c' \<and>
      pending c' = pending c \<and> close_with c' = Some SlowConsumer"
    if "conn_invar c" "close_with c = None" "free_bytes c < length bs"
    for c :: "'n connection_state" and bs
    using enqueue_overflow [OF that] that(1) by (simp add: conn_invar_def pending_def)
  show "\<exists>c'. enqueue notify_one c bs = Some (EnqueueOk, c') \<and> conn_invar c' \<and>
      pending c' = pending c @ bs \<and> free_bytes c' = free_bytes c - length bs \<and> close_with c' = None"
    if "conn_invar c" "close_with c = None" "length bs \<le> free_bytes c"
    for c :: "'n connection_state" and bs
    using enqueue_fits [OF that] by blast
qed (simp_all add: enqueue_closing conn_simps)

section \<open>Properties\<close>

text \<open>C7. The outbound buffer is a first-in first-out byte queue under any history of enqueues,
  drains and closes from its creation: nothing panics, and the accepted bytes are exactly the
  drained bytes followed by those still pending, in order.\<close>

theorem outbound_fifo:
  assumes "capacity \<le> isize_max"
  shows "\<exists>accepted drained c. run_queue (enqueue notify_one) drain_into (mark_close notify_one) opers
      (new_state fresh cid capacity) = Some (accepted, drained, c) \<and> conn_invar c \<and>
    accepted = drained @ pending c"
  using out_queue.fifo [of "new_state fresh cid capacity" notify_one opers] assms
  by (auto simp: conn_simps)

theorem outbound_fifo_witness:
  "\<exists>accepted drained c. run_queue (enqueue (\<lambda>_. True)) drain_into (mark_close (\<lambda>_. True))
      [Put ''abc'', Take ''00'', Put ''de'', Close PeerClosed, Put ''f'']
      (new_state False (ConnectionId 7) 8) = Some (accepted, drained, c) \<and> conn_invar c \<and>
    accepted = drained @ pending c"
  using outbound_fifo [of 8 "\<lambda>_. True" "[Put ''abc'', Take ''00'', Put ''de'', Close PeerClosed, Put ''f'']"
      False "ConnectionId 7"]
  by (simp add: isize_max_numeral)

text \<open>C23. Every branch of \<open>enqueue\<close>: on a closing connection nothing changes, not even the
  notification; without room behind the tail cursor the connection is marked as a slow consumer
  and its pending bytes stay; otherwise the bytes are appended.\<close>

theorem enqueue_branches:
  assumes "conn_invar c"
  shows "case close_with c of
      Some r \<Rightarrow> enqueue notify_one c bs = Some (AlreadyClosing, c)
    | None \<Rightarrow>
        if outbound_tail c + length bs > outbound_capacity c
        then enqueue notify_one c bs = Some (SlowConsumerClosed,
               c\<lparr>close_with := Some SlowConsumer, notify := notify_one (notify c)\<rparr>)
        else \<exists>c'. enqueue notify_one c bs = Some (EnqueueOk, c') \<and> conn_invar c' \<and>
               pending c' = pending c @ bs \<and> close_with c' = None \<and>
               outbound_tail c' = outbound_tail c + length bs \<and> notify c' = notify_one (notify c)"
proof (cases "close_with c")
  case None
  from assms have b: "outbound_tail c \<le> length (outbound_data c)" by (simp add: conn_invar_def)
  show ?thesis
  proof (cases "outbound_tail c + length bs > outbound_capacity c")
    case True
    with None assms b show ?thesis
      by (simp add: enqueue_overflow free_bytes_def outbound_capacity_def)
  next
    case False
    with b have "length bs \<le> free_bytes c" by (simp add: free_bytes_def outbound_capacity_def)
    from enqueue_fits [OF assms None this, of notify_one] obtain c' where c':
      "enqueue notify_one c bs = Some (EnqueueOk, c')" "conn_invar c'" "pending c' = pending c @ bs"
      "close_with c' = None" "notify c' = notify_one (notify c)" by blast
    moreover from c'(1) None have "outbound_tail c' = outbound_tail c + length bs"
      by (auto simp: enqueue_def Let_def split: if_splits bind_splits)
    ultimately show ?thesis using None False by simp
  qed
qed (simp add: enqueue_closing)

theorem enqueue_branches_witness:
  "enqueue (\<lambda>_. True) (new_state False (ConnectionId 7) 2) ''abc'' =
     Some (SlowConsumerClosed, (new_state False (ConnectionId 7) 2)\<lparr>close_with := Some SlowConsumer, notify := True\<rparr>)"
  using enqueue_branches [of "new_state False (ConnectionId 7) 2" "''abc''" "\<lambda>_. True"]
  by (simp add: conn_simps isize_max_numeral) (simp add: new_state_def outbound_capacity_def)

text \<open>C24. The first reason to close wins and is never cleared: after \<open>mark_close\<close>, later operations
  of any kind leave the close reason as it is and accept no bytes.\<close>

theorem close_is_final:
  assumes "conn_invar c" "close_with c = None"
  shows "\<exists>drained c'. run_queue (enqueue notify_one) drain_into (mark_close notify_one) (Close r # opers) c
      = Some ([], drained, c') \<and> close_with c' = Some r \<and> pending c = drained @ pending c'"
  using out_queue.fifo [of "mark_close notify_one c r" notify_one opers] assms
  by (auto simp: conn_simps)

theorem close_is_final_witness:
  "\<exists>drained c'. run_queue (enqueue (\<lambda>_. True)) drain_into (mark_close (\<lambda>_. True))
      [Close ProtocolError, Take ''0000'', Close PeerClosed, Put ''x''] (new_state False (ConnectionId 7) 8)
      = Some ([], drained, c') \<and> close_with c' = Some ProtocolError"
  using close_is_final [of "new_state False (ConnectionId 7) 8" "\<lambda>_. True" ProtocolError
      "[Take ''0000'', Close PeerClosed, Put ''x'']"]
  by (auto simp: conn_simps isize_max_numeral)

end
