(* ===== verification/Writer.thy ===== *)
theory Writer
  imports Connection_State Emit
begin

text \<open>
  The writer task of \<open>aulon-server/src/main.rs\<close> beside everything that may run while it awaits.

  A task runs without interruption from one await to the next.  \<open>writer_drain\<close> is the code between
  two awaits, and the step relation interleaves those pieces with enqueues and closes by the other
  tasks of the worker.  The socket and \<open>Notify\<close> are not part of the sources: a completed write
  appends the bytes to what the peer receives, a failed one a prefix of them, and the notification
  is the pair of functions \<open>notify_one\<close> and \<open>notified\<close>.

  The lemmas show that no wakeup is lost, that the peer receives the accepted bytes in order, and
  that a closing connection sends all of them, then the error frame of the reason, and ends.
\<close>

section \<open>The task\<close>

datatype writer_pc =
    Waiting
  | Writing bytes      \<comment> \<open>in \<open>write_fixed_all\<close> of the drained bytes\<close>
  | WritingErr bytes   \<comment> \<open>in \<open>write_fixed_all\<close> of the error frame\<close>
  | Exited

text \<open>The close check after the drain loop.\<close>

definition writer_close :: "'n connection_state \<Rightarrow> bytes \<Rightarrow> (writer_pc \<times> bytes) option" where
  "writer_close c buf =
     (case close_with c of
        None \<Rightarrow> Some (Waiting, buf)
      | Some reason \<Rightarrow>
          (case err_text reason of
             None \<Rightarrow> Some (Exited, buf)
           | Some text \<Rightarrow> do {
               (res, buf') \<leftarrow> emit_err text buf;
               case res of
                 Inl e \<Rightarrow> Some (Exited, buf')
               | Inr n \<Rightarrow> do { out \<leftarrow> slice_to buf' n; Some (WritingErr out, buf') }
             }))"

text \<open>From the head of the drain loop to the next await.\<close>

definition writer_drain ::
  "'n connection_state \<Rightarrow> bytes \<Rightarrow> (writer_pc \<times> bytes \<times> 'n connection_state) option" where
  "writer_drain c buf = do {
     (n, buf', c') \<leftarrow> drain_into c buf;
     if n = 0 then do { (pc, buf'') \<leftarrow> writer_close c' buf'; Some (pc, buf'', c') }
     else do { out \<leftarrow> slice_to buf' n; Some (Writing out, buf', c') }
   }"

text \<open>
  The connection with its writer: the shared state, the writer's position and buffer, what the peer
  has received, and whether a write failed.  \<open>accepted\<close> records what \<open>enqueue\<close> accepted.
\<close>

record 'n writer_sys =
  shared :: "'n connection_state"
  wpc :: writer_pc
  wbuf :: bytes
  received :: bytes
  write_failed :: bool
  accepted :: bytes

inductive writer_step ::
  "('n \<Rightarrow> 'n) \<Rightarrow> ('n \<Rightarrow> 'n option) \<Rightarrow> 'n writer_sys \<Rightarrow> 'n writer_sys \<Rightarrow> bool"
  for notify_one notified where
  wake: "\<lbrakk>wpc s = Waiting; wait_for_event notified (shared s) = Some c;
      writer_drain c (wbuf s) = Some (pc, buf, c')\<rbrakk> \<Longrightarrow>
    writer_step notify_one notified s (s\<lparr>shared := c', wpc := pc, wbuf := buf\<rparr>)"
| write_done: "\<lbrakk>wpc s = Writing bs; writer_drain (shared s) (wbuf s) = Some (pc, buf, c')\<rbrakk> \<Longrightarrow>
    writer_step notify_one notified s
      (s\<lparr>shared := c', wpc := pc, wbuf := buf, received := received s @ bs\<rparr>)"
| write_broken: "\<lbrakk>wpc s = Writing bs\<rbrakk> \<Longrightarrow>
    writer_step notify_one notified s
      (s\<lparr>wpc := Exited, received := received s @ take k bs, write_failed := True\<rparr>)"
| err_done: "\<lbrakk>wpc s = WritingErr bs\<rbrakk> \<Longrightarrow>
    writer_step notify_one notified s (s\<lparr>wpc := Exited, received := received s @ bs\<rparr>)"
| err_broken: "\<lbrakk>wpc s = WritingErr bs\<rbrakk> \<Longrightarrow>
    writer_step notify_one notified s
      (s\<lparr>wpc := Exited, received := received s @ take k bs, write_failed := True\<rparr>)"

text \<open>What the other tasks of the worker do to the shared state.\<close>

inductive publisher_step :: "('n \<Rightarrow> 'n) \<Rightarrow> 'n writer_sys \<Rightarrow> 'n writer_sys \<Rightarrow> bool" for notify_one where
  publish: "\<lbrakk>enqueue notify_one (shared s) bs = Some (r, c)\<rbrakk> \<Longrightarrow>
    publisher_step notify_one s
      (s\<lparr>shared := c, accepted := accepted s @ (if r = EnqueueOk then bs else [])\<rparr>)"
| close: "publisher_step notify_one s (s\<lparr>shared := mark_close notify_one (shared s) reason\<rparr>)"

definition conn_step ::
  "('n \<Rightarrow> 'n) \<Rightarrow> ('n \<Rightarrow> 'n option) \<Rightarrow> 'n writer_sys \<Rightarrow> 'n writer_sys \<Rightarrow> bool" where
  "conn_step notify_one notified s s' \<longleftrightarrow>
     writer_step notify_one notified s s' \<or> publisher_step notify_one s s'"

definition writer_start :: "'n \<Rightarrow> connection_id \<Rightarrow> nat \<Rightarrow> bytes \<Rightarrow> 'n writer_sys" where
  "writer_start fresh cid capacity buf =
     \<lparr>shared = new_state fresh cid capacity, wpc = Waiting, wbuf = buf, received = [],
      write_failed = False, accepted = []\<rparr>"

inductive_cases writer_stepE: "writer_step notify_one notified s s'"
inductive_cases publisher_stepE: "publisher_step notify_one s s'"

section \<open>Between two awaits\<close>

definition err_frame :: "close_reason option \<Rightarrow> bytes" where
  "err_frame r = (case r of None \<Rightarrow> [] | Some r \<Rightarrow>
     (case err_text r of None \<Rightarrow> [] | Some text \<Rightarrow> encode (ErrFrame text)))"

text \<open>The buffer is large enough for any error frame of the writer.\<close>

definition buffer_ok :: "bytes \<Rightarrow> bool" where
  "buffer_ok buf \<longleftrightarrow> 21 \<le> length buf \<and> length buf \<le> isize_max"

lemma err_frame_fits: "length (err_frame (Some r)) \<le> 21"
  by (cases r) (simp_all add: err_frame_def encode_def CRLF_def)

lemma writer_close_eq:
  assumes "buffer_ok buf"
  shows "\<exists>buf'. length buf' = length buf \<and> writer_close c buf =
    Some (case close_with c of None \<Rightarrow> Waiting
          | Some r \<Rightarrow> if err_text r = None then Exited else WritingErr (err_frame (Some r)), buf')"
proof (cases "close_with c")
  case None
  then show ?thesis by (simp add: writer_close_def)
next
  case (Some r)
  show ?thesis
  proof (cases "err_text r")
    case None
    with Some show ?thesis by (simp add: writer_close_def)
  next
    case t: (Some msg)
    let ?e = "encode (ErrFrame msg)"
    have "length ?e \<le> length buf" "length buf \<le> isize_max"
      using assms err_frame_fits [of r] t by (simp_all add: buffer_ok_def err_frame_def)
    with emits_fits [OF emits_emit_frame, of "ErrFrame msg" buf] have
      "emit_err msg buf = Some (Inr (length ?e), ?e @ drop (length ?e) buf)" by simp
    with Some t \<open>length ?e \<le> length buf\<close> show ?thesis
      by (simp add: writer_close_def slice_simps err_frame_def)
  qed
qed

text \<open>
  Either a nonempty prefix of the pending bytes goes into the next write, or nothing is pending and
  the close reason decides.
\<close>

lemma writer_drain_eq:
  assumes "conn_invar c" "buffer_ok buf"
  obtains n buf' c' where "0 < n" "writer_drain c buf = Some (Writing (take n (pending c)), buf', c')"
      "n \<le> length (pending c)" "conn_invar c'" "pending c' = drop n (pending c)"
      "close_with c' = close_with c" "notify c' = notify c" "length buf' = length buf"
  | buf' c' where "pending c = []" "pending c' = []" "conn_invar c'" "close_with c' = close_with c"
      "notify c' = notify c" "length buf' = length buf"
      "writer_drain c buf = Some (case close_with c of None \<Rightarrow> Waiting
          | Some r \<Rightarrow> if err_text r = None then Exited else WritingErr (err_frame (Some r)), buf', c')"
proof -
  define n where "n = min (length (pending c)) (length buf)"
  from drain_into_eq [OF assms(1) n_def] obtain c' where c':
    "drain_into c buf = Some (n, take n (pending c) @ drop n buf, c')" "conn_invar c'"
    "pending c' = drop n (pending c)" "close_with c' = close_with c" "notify c' = notify c" by blast
  have n: "n \<le> length (pending c)" "n \<le> length buf" by (simp_all add: n_def)
  show thesis
  proof (cases "n = 0")
    case True
    with assms(2) have p: "pending c = []"
      by (auto simp: buffer_ok_def n_def min_def split: if_splits)
    from writer_close_eq [OF assms(2), of c'] c'(4) obtain buf' where "length buf' = length buf"
      "writer_close c' buf = Some (case close_with c of None \<Rightarrow> Waiting
         | Some r \<Rightarrow> if err_text r = None then Exited else WritingErr (err_frame (Some r)), buf')" by auto
    with c' p True show thesis by (intro that(2) [of c' buf']) (simp_all add: writer_drain_def)
  next
    case False
    with c' n show thesis
      by (intro that(1) [of n "take n (pending c) @ drop n buf" c'])
        (simp_all add: writer_drain_def slice_simps)
  qed
qed

section \<open>Invariant\<close>

text \<open>
  The accepted bytes are at the peer, in the write under way, or pending.  While the writer waits
  with no permit to take, there is nothing to do.
\<close>

definition writer_invar :: "('n \<Rightarrow> 'n option) \<Rightarrow> 'n writer_sys \<Rightarrow> bool" where
  "writer_invar notified s \<longleftrightarrow> conn_invar (shared s) \<and> buffer_ok (wbuf s) \<and>
     (case wpc s of
        Waiting \<Rightarrow> accepted s = received s @ pending (shared s) \<and> \<not> write_failed s \<and>
          (notified (notify (shared s)) = None \<longrightarrow> pending (shared s) = [] \<and> close_with (shared s) = None)
      | Writing bs \<Rightarrow> accepted s = received s @ bs @ pending (shared s) \<and> \<not> write_failed s \<and> bs \<noteq> []
      | WritingErr bs \<Rightarrow> accepted s = received s \<and> \<not> write_failed s \<and> pending (shared s) = [] \<and>
          close_with (shared s) \<noteq> None \<and> bs = err_frame (close_with (shared s))
      | Exited \<Rightarrow>
          if write_failed s
          then \<exists>rest. accepted s @ err_frame (close_with (shared s)) = received s @ rest
          else close_with (shared s) \<noteq> None \<and>
            received s = accepted s @ err_frame (close_with (shared s)))"

lemma writer_drain_invar:
  assumes "conn_invar c" "buffer_ok (wbuf s)" "writer_drain c (wbuf s) = Some (pc, buf, c')"
    and "accepted s = rcv @ pending c" "\<not> write_failed s"
  shows "writer_invar notified (s\<lparr>shared := c', wpc := pc, wbuf := buf, received := rcv\<rparr>)"
proof (rule writer_drain_eq [OF assms(1,2)])
  fix n buf' c''
  assume "0 < n" "writer_drain c (wbuf s) = Some (Writing (take n (pending c)), buf', c'')"
    "n \<le> length (pending c)" "conn_invar c''" "pending c'' = drop n (pending c)"
    "length buf' = length (wbuf s)"
  with assms show ?thesis by (auto simp: writer_invar_def buffer_ok_def)
next
  fix buf' c''
  assume "pending c = []" "pending c'' = []" "conn_invar c''" "close_with c'' = close_with c"
    "length buf' = length (wbuf s)"
    "writer_drain c (wbuf s) = Some (case close_with c of None \<Rightarrow> Waiting
       | Some r \<Rightarrow> if err_text r = None then Exited else WritingErr (err_frame (Some r)), buf', c'')"
  with assms show ?thesis
    by (auto simp: writer_invar_def buffer_ok_def err_frame_def split: option.splits)
qed

lemma wait_for_event_facts:
  "wait_for_event notified c = Some c' \<Longrightarrow> conn_invar c' = conn_invar c \<and> pending c' = pending c \<and>
     close_with c' = close_with c"
  by (auto simp: wait_for_event_def conn_invar_def pending_def)

lemma writer_step_invar:
  assumes "writer_step notify_one notified s s'" "writer_invar notified s"
  shows "writer_invar notified s'"
  using assms(1)
proof (cases rule: writer_step.cases)
  case (wake c pc buf c')
  with wait_for_event_facts [OF wake(3)] assms(2) writer_drain_invar [OF _ _ wake(4), of "received s" notified]
  show ?thesis by (simp add: writer_invar_def)
next
  case (write_done bs pc buf c')
  with assms(2) writer_drain_invar [OF _ _ write_done(3), of "received s @ bs" notified]
  show ?thesis by (simp add: writer_invar_def)
next
  case (write_broken bs k)
  have "received s @ bs @ x = (received s @ take k bs) @ (drop k bs @ x)" for x
    by simp
  with write_broken assms(2) show ?thesis by (simp add: writer_invar_def)
next
  case (err_done bs)
  with assms(2) show ?thesis by (simp add: writer_invar_def)
next
  case (err_broken bs k)
  have "\<exists>rest. bs = take k bs @ rest" by (metis append_take_drop_id)
  with err_broken assms(2) show ?thesis by (simp add: writer_invar_def)
qed

text \<open>The three outcomes of an enqueue, as seen by the writer.\<close>

lemma enqueue_outcomes:
  assumes "conn_invar c" "enqueue notify_one c bs = Some (r, c')"
  shows "r = AlreadyClosing \<and> close_with c \<noteq> None \<and> c' = c \<or>
    close_with c = None \<and> conn_invar c' \<and> notify c' = notify_one (notify c) \<and>
      (r = EnqueueOk \<and> pending c' = pending c @ bs \<and> close_with c' = None \<or>
       r = SlowConsumerClosed \<and> pending c' = pending c \<and> close_with c' = Some SlowConsumer)"
proof (cases "close_with c")
  case None
  show ?thesis
  proof (cases "length bs \<le> free_bytes c")
    case True
    with enqueue_fits [OF assms(1) None True, of notify_one] assms(2) None show ?thesis by auto
  next
    case False
    with enqueue_overflow [OF assms(1) None, of bs notify_one] assms None show ?thesis
      by (auto simp: conn_invar_def pending_def)
  qed
qed (use assms(2) in \<open>auto simp: enqueue_closing\<close>)

lemma publisher_step_invar:
  assumes notify_law: "\<And>p. notified (notify_one p) \<noteq> None"
    and "publisher_step notify_one s s'" "writer_invar notified s"
  shows "writer_invar notified s'"
proof -
  have law: "(notified (notify_one p) = None) = False" for p using notify_law [of p] by simp
  show ?thesis using assms(2)
  proof (cases rule: publisher_step.cases)
    case (publish bs r c)
    have "conn_invar (shared s)" using assms(3) by (simp add: writer_invar_def)
    from enqueue_outcomes [OF this publish(2)] show ?thesis
    proof (elim disjE conjE)
      assume "r = AlreadyClosing" "c = shared s"
      with publish assms(3) show ?thesis by (cases "wpc s") (simp_all add: writer_invar_def)
    next
      assume "close_with (shared s) = None" "conn_invar c" "notify c = notify_one (notify (shared s))"
        "r = EnqueueOk" "pending c = pending (shared s) @ bs" "close_with c = None"
      with publish assms(3) show ?thesis
        by (cases "wpc s") (auto simp: writer_invar_def law err_frame_def split: if_splits)
    next
      assume "close_with (shared s) = None" "conn_invar c" "notify c = notify_one (notify (shared s))"
        "r = SlowConsumerClosed" "pending c = pending (shared s)" "close_with c = Some SlowConsumer"
      with publish assms(3) show ?thesis
        by (cases "wpc s") (auto simp: writer_invar_def law err_frame_def split: if_splits)
    qed
  next
    case (close reason)
    with assms(3) show ?thesis
      by (cases "wpc s"; cases "close_with (shared s)")
        (auto simp: writer_invar_def law conn_simps err_frame_def split: if_splits)
  qed
qed

lemma writer_start_invar:
  "capacity \<le> isize_max \<Longrightarrow> buffer_ok buf \<Longrightarrow> writer_invar notified (writer_start fresh cid capacity buf)"
  by (simp add: writer_start_def writer_invar_def conn_simps)

lemma reachable_invar:
  assumes "\<And>p. notified (notify_one p) \<noteq> None" "capacity \<le> isize_max" "buffer_ok buf"
    and "(conn_step notify_one notified)\<^sup>*\<^sup>* (writer_start fresh cid capacity buf) s"
  shows "writer_invar notified s"
  using assms(4)
proof induction
  case base
  show ?case using assms(2,3) by (rule writer_start_invar)
next
  case (step s s')
  then show ?case
    using writer_step_invar publisher_step_invar [of notified notify_one, OF assms(1)]
    by (auto simp: conn_step_def)
qed

section \<open>Progress\<close>

text \<open>The next step of the writer when its writes succeed.\<close>

definition writer_advance :: "('n \<Rightarrow> 'n option) \<Rightarrow> 'n writer_sys \<Rightarrow> 'n writer_sys option" where
  "writer_advance notified s =
     (case wpc s of
        Waiting \<Rightarrow> do {
          c \<leftarrow> wait_for_event notified (shared s);
          (pc, buf, c') \<leftarrow> writer_drain c (wbuf s);
          Some (s\<lparr>shared := c', wpc := pc, wbuf := buf\<rparr>)
        }
      | Writing bs \<Rightarrow> do {
          (pc, buf, c') \<leftarrow> writer_drain (shared s) (wbuf s);
          Some (s\<lparr>shared := c', wpc := pc, wbuf := buf, received := received s @ bs\<rparr>)
        }
      | WritingErr bs \<Rightarrow> Some (s\<lparr>wpc := Exited, received := received s @ bs\<rparr>)
      | Exited \<Rightarrow> None)"

lemma writer_advance_step:
  "writer_advance notified s = Some s' \<Longrightarrow> writer_step notify_one notified s s'"
  by (auto simp: writer_advance_def split: writer_pc.splits bind_splits intro: writer_step.intros)

lemma writer_drain_total:
  assumes "conn_invar c" "buffer_ok buf"
  shows "\<exists>pc buf' c'. writer_drain c buf = Some (pc, buf', c') \<and> close_with c' = close_with c \<and>
    (pc = Waiting \<longrightarrow> close_with c = None) \<and>
    (\<forall>bs. pc = Writing bs \<longrightarrow> length (pending c') < length (pending c))"
  by (rule writer_drain_eq [OF assms]) (auto split: option.splits)

lemma writer_advance_enabled:
  assumes "writer_invar notified s" "wpc s \<noteq> Exited"
    and "pending (shared s) \<noteq> [] \<or> close_with (shared s) \<noteq> None"
  shows "\<exists>s'. writer_advance notified s = Some s'"
proof (cases "wpc s")
  case Waiting
  with assms(1,3) obtain p where "notified (notify (shared s)) = Some p"
    by (cases "notified (notify (shared s))") (auto simp: writer_invar_def)
  then have w: "wait_for_event notified (shared s) = Some ((shared s)\<lparr>notify := p\<rparr>)"
    by (simp add: wait_for_event_def)
  from assms(1) have "conn_invar ((shared s)\<lparr>notify := p\<rparr>)" "buffer_ok (wbuf s)"
    by (simp_all add: writer_invar_def conn_invar_def)
  from writer_drain_total [OF this] w Waiting show ?thesis by (auto simp: writer_advance_def)
next
  case (Writing bs)
  from assms(1) have "conn_invar (shared s)" "buffer_ok (wbuf s)" by (simp_all add: writer_invar_def)
  from writer_drain_total [OF this] Writing show ?thesis by (auto simp: writer_advance_def)
qed (use assms(2) in \<open>simp_all add: writer_advance_def\<close>)

text \<open>Once a close is pending the writer is bound to end.\<close>

definition writer_rank :: "'n writer_sys \<Rightarrow> nat" where
  "writer_rank s = (case wpc s of
     Waiting \<Rightarrow> 3 + length (pending (shared s)) | Writing bs \<Rightarrow> 2 + length (pending (shared s))
   | WritingErr bs \<Rightarrow> 1 | Exited \<Rightarrow> 0)"

lemma drained_rank:
  assumes "conn_invar c" "buffer_ok buf" "close_with c \<noteq> None" "writer_drain c buf = Some (pc, buf', c')"
    and "wpc s = pc" "shared s = c'"
  shows "writer_rank s < 2 + length (pending c) \<and> close_with c' = close_with c"
  using writer_drain_total [OF assms(1,2)] assms(3-6)
  by (cases pc) (auto simp: writer_rank_def)

lemma writer_advance_rank:
  assumes "writer_invar notified s" "writer_advance notified s = Some s'" "close_with (shared s) \<noteq> None"
  shows "writer_rank s' < writer_rank s \<and> close_with (shared s') = close_with (shared s) \<and>
    write_failed s' = write_failed s \<and> accepted s' = accepted s"
proof -
  from assms(1) have c: "conn_invar (shared s)" "buffer_ok (wbuf s)" by (simp_all add: writer_invar_def)
  show ?thesis
  proof (cases "wpc s")
    case Waiting
    with assms(2) obtain c' pc buf c'' where w: "wait_for_event notified (shared s) = Some c'"
      "writer_drain c' (wbuf s) = Some (pc, buf, c'')" "s' = s\<lparr>shared := c'', wpc := pc, wbuf := buf\<rparr>"
      by (auto simp: writer_advance_def split: bind_splits)
    note f = wait_for_event_facts [OF w(1)]
    with drained_rank [OF _ c(2) _ w(2), of s'] w(3) c assms(3) Waiting show ?thesis
      by (simp add: writer_rank_def)
  next
    case (Writing bs)
    with assms(2) obtain pc buf c'' where w: "writer_drain (shared s) (wbuf s) = Some (pc, buf, c'')"
      "s' = s\<lparr>shared := c'', wpc := pc, wbuf := buf, received := received s @ bs\<rparr>"
      by (auto simp: writer_advance_def split: bind_splits)
    with drained_rank [OF c assms(3) w(1), of s'] Writing show ?thesis by (simp add: writer_rank_def)
  qed (use assms(2) in \<open>auto simp: writer_advance_def writer_rank_def\<close>)
qed

lemma closing_ends:
  assumes "writer_invar notified s" "close_with (shared s) \<noteq> None" "\<not> write_failed s"
  shows "\<exists>s'. (\<lambda>s s'. writer_advance notified s = Some s')\<^sup>*\<^sup>* s s' \<and> wpc s' = Exited \<and>
    received s' = accepted s @ err_frame (close_with (shared s))"
  using assms
proof (induction "writer_rank s" arbitrary: s rule: less_induct)
  case less
  show ?case
  proof (cases "wpc s = Exited")
    case True
    with less.prems show ?thesis by (auto simp: writer_invar_def)
  next
    case False
    from writer_advance_enabled [OF less.prems(1) False] less.prems(2) obtain s1 where
      s1: "writer_advance notified s = Some s1" by blast
    from writer_step_invar [OF writer_advance_step [OF s1] less.prems(1)] have
      "writer_invar notified s1" .
    with less.hyps [of s1] writer_advance_rank [OF less.prems(1) s1 less.prems(2)] less.prems obtain s' where
      "(\<lambda>s s'. writer_advance notified s = Some s')\<^sup>*\<^sup>* s1 s'" "wpc s' = Exited"
      "received s' = accepted s @ err_frame (close_with (shared s))" by auto
    with s1 show ?thesis by (meson converse_rtranclp_into_rtranclp)
  qed
qed

text \<open>A run used as an instance below: a publisher enqueues two bytes and the connection is closed.\<close>

definition one_permit :: "bool \<Rightarrow> bool option" where
  "one_permit p = (if p then Some False else None)"

definition sample_start :: "bool writer_sys" where
  "sample_start = writer_start False (ConnectionId 1) 8 (replicate 21 SP)"

lemma sample_run:
  "\<exists>s. (conn_step (\<lambda>_. True) one_permit)\<^sup>*\<^sup>* sample_start s \<and> accepted s = ''ab'' \<and>
     pending (shared s) = ''ab'' \<and> wpc s = Waiting \<and> close_with (shared s) = Some ProtocolError \<and>
     \<not> write_failed s"
proof -
  have "conn_invar (new_state False (ConnectionId 1) 8)"
    "close_with (new_state False (ConnectionId 1) 8) = None"
    "length ''ab'' \<le> free_bytes (new_state False (ConnectionId 1) 8)"
    by (simp_all add: conn_simps isize_max_numeral)
  from enqueue_fits [OF this, of "\<lambda>_. True"] obtain c where
    c: "enqueue (\<lambda>_. True) (new_state False (ConnectionId 1) 8) ''ab'' = Some (EnqueueOk, c)"
      "pending c = ''ab''" "close_with c = None" by (auto simp: conn_simps)
  let ?s = "sample_start\<lparr>shared := c, accepted := ''ab''\<rparr>"
  have "publisher_step (\<lambda>_. True) sample_start ?s"
    using publisher_step.publish [of "\<lambda>_. True" sample_start "''ab''" EnqueueOk c] c(1)
    by (simp add: sample_start_def writer_start_def)
  moreover have "publisher_step (\<lambda>_. True) ?s (?s\<lparr>shared := mark_close (\<lambda>_. True) (shared ?s) ProtocolError\<rparr>)"
    by (rule publisher_step.close)
  ultimately have "(conn_step (\<lambda>_. True) one_permit)\<^sup>*\<^sup>* sample_start
      (?s\<lparr>shared := mark_close (\<lambda>_. True) (shared ?s) ProtocolError\<rparr>)"
    by (meson conn_step_def converse_rtranclp_into_rtranclp r_into_rtranclp)
  with c show ?thesis
    by (intro exI [of _ "?s\<lparr>shared := mark_close (\<lambda>_. True) (shared ?s) ProtocolError\<rparr>"])
      (simp add: conn_simps sample_start_def writer_start_def)
qed

section \<open>Properties\<close>

text \<open>C8. The peer receives the accepted bytes in order: whatever the interleaving of publishers and
  writer, what has been sent is a prefix of the accepted bytes followed by the error frame of the
  close reason, and when the writer has ended without a failed write it is all of it.\<close>

theorem writer_delivers:
  assumes notify_law: "\<And>p. notified (notify_one p) \<noteq> None"
    and "capacity \<le> isize_max" "21 \<le> length buf" "length buf \<le> isize_max"
    and "(conn_step notify_one notified)\<^sup>*\<^sup>* (writer_start fresh cid capacity buf) s"
  shows "(\<exists>rest. accepted s @ err_frame (close_with (shared s)) = received s @ rest) \<and>
    (wpc s = Exited \<longrightarrow> \<not> write_failed s \<longrightarrow>
       received s = accepted s @ err_frame (close_with (shared s)))"
proof -
  have "writer_invar notified s"
    using assms by (intro reachable_invar [where notify_one = notify_one]) (simp_all add: buffer_ok_def)
  then show ?thesis
    by (cases "wpc s") (auto simp: writer_invar_def split: if_splits)
qed

theorem writer_delivers_witness:
  "\<exists>s rest. (conn_step (\<lambda>_. True) one_permit)\<^sup>*\<^sup>* sample_start s \<and> accepted s = ''ab'' \<and>
     ''ab'' @ err_frame (Some ProtocolError) = received s @ rest"
proof -
  obtain s where s: "(conn_step (\<lambda>_. True) one_permit)\<^sup>*\<^sup>* sample_start s" "accepted s = ''ab''"
    "close_with (shared s) = Some ProtocolError" using sample_run by blast
  with writer_delivers [of one_permit "\<lambda>_. True" 8 "replicate 21 SP" False "ConnectionId 1" s] show ?thesis
    by (auto simp: one_permit_def sample_start_def isize_max_numeral)
qed

text \<open>C25. No wakeup is lost: whenever bytes are pending or a close is signalled and the writer has
  not ended, the writer can take a step; in particular it never sleeps on pending work.\<close>

theorem no_lost_wakeup:
  assumes notify_law: "\<And>p. notified (notify_one p) \<noteq> None"
    and "capacity \<le> isize_max" "21 \<le> length buf" "length buf \<le> isize_max"
    and "(conn_step notify_one notified)\<^sup>*\<^sup>* (writer_start fresh cid capacity buf) s"
    and "pending (shared s) \<noteq> [] \<or> close_with (shared s) \<noteq> None" "wpc s \<noteq> Exited"
  shows "\<exists>s'. writer_step notify_one notified s s'"
proof -
  have "writer_invar notified s"
    using assms(1-5) by (intro reachable_invar [where notify_one = notify_one]) (simp_all add: buffer_ok_def)
  from writer_advance_enabled [OF this assms(7,6)] show ?thesis
    using writer_advance_step by blast
qed

theorem no_lost_wakeup_witness:
  "\<exists>s s'. (conn_step (\<lambda>_. True) one_permit)\<^sup>*\<^sup>* sample_start s \<and> wpc s = Waiting \<and>
     writer_step (\<lambda>_. True) one_permit s s'"
proof -
  obtain s where s: "(conn_step (\<lambda>_. True) one_permit)\<^sup>*\<^sup>* sample_start s" "wpc s = Waiting"
    "close_with (shared s) = Some ProtocolError" using sample_run by blast
  with no_lost_wakeup [of one_permit "\<lambda>_. True" 8 "replicate 21 SP" False "ConnectionId 1" s] show ?thesis
    by (auto simp: one_permit_def sample_start_def isize_max_numeral)
qed

text \<open>C26. A signalled close is carried out: when no write fails the writer, running on its own, ends
  after finitely many steps, having sent every accepted byte and then the error frame.\<close>

theorem close_is_carried_out:
  assumes notify_law: "\<And>p. notified (notify_one p) \<noteq> None"
    and "capacity \<le> isize_max" "21 \<le> length buf" "length buf \<le> isize_max"
    and "(conn_step notify_one notified)\<^sup>*\<^sup>* (writer_start fresh cid capacity buf) s"
    and "close_with (shared s) = Some reason" "\<not> write_failed s"
  shows "\<exists>s'. (\<lambda>s s'. writer_advance notified s = Some s')\<^sup>*\<^sup>* s s' \<and> wpc s' = Exited \<and>
    received s' = accepted s @ err_frame (Some reason)"
proof -
  have "writer_invar notified s"
    using assms(1-5) by (intro reachable_invar [where notify_one = notify_one]) (simp_all add: buffer_ok_def)
  from closing_ends [OF this] assms(6,7) show ?thesis by simp
qed

theorem close_is_carried_out_witness:
  "\<exists>s s'. (conn_step (\<lambda>_. True) one_permit)\<^sup>*\<^sup>* sample_start s \<and>
     (\<lambda>s s'. writer_advance one_permit s = Some s')\<^sup>*\<^sup>* s s' \<and> wpc s' = Exited \<and>
     received s' = ''ab'' @ encode (ErrFrame ''protocol error'')"
proof -
  obtain s where s: "(conn_step (\<lambda>_. True) one_permit)\<^sup>*\<^sup>* sample_start s" "accepted s = ''ab''"
    "close_with (shared s) = Some ProtocolError" "\<not> write_failed s" using sample_run by blast
  with close_is_carried_out [of one_permit "\<lambda>_. True" 8 "replicate 21 SP" False "ConnectionId 1" s
      ProtocolError] show ?thesis
    by (auto simp: one_permit_def sample_start_def isize_max_numeral err_frame_def)
qed

end
