(* ===== verification/Topology_Facts.thy ===== *)
theory Topology_Facts
  imports Topology
begin

text \<open>
  Correctness of the topology discovery: the CPU list parser reads back the kernel's format, the
  detected shards are dense, sorted and disjoint and group the CPUs by their shared cache, and the
  start-up loop hands every shard its own eventfd reader.
\<close>

section \<open>CPU lists\<close>

text \<open>The kernel's format: single numbers and ranges, separated by commas.\<close>

definition render_range :: "nat \<times> nat \<Rightarrow> bytes" where
  "render_range = (\<lambda>(lo, hi). if lo = hi then decimal lo else decimal lo @ CHR ''-'' # decimal hi)"

fun render_list :: "(nat \<times> nat) list \<Rightarrow> bytes" where
  "render_list [] = []"
| "render_list [r] = render_range r"
| "render_list (r # rs) = render_range r @ CHR '','' # render_list rs"

lemma decimal_ascii: "\<forall>b\<in>set (decimal n). is_ascii_digit b"
proof
  fix b assume "b \<in> set (decimal n)"
  then obtain d where d: "d < 10" "b = digit d" using decimal_digits by blast
  then show "is_ascii_digit b" using digit_inj [of d] by (simp add: is_ascii_digit_def)
qed

lemma digits_value_decimal: "n \<le> usize_max \<Longrightarrow> digits_value 0 (decimal n) = n"
  using parse_usize_loop_decimal [of n] parse_usize_loop_eq [of 0 "decimal n"]
  by (auto split: if_splits)

lemma digit_not_sign: "is_ascii_digit b \<Longrightarrow> b \<noteq> CHR ''+'' \<and> b \<noteq> CHR ''-'' \<and> b \<noteq> CHR '','' \<and> \<not> is_trimmed b"
  by (auto simp: is_ascii_digit_def is_trimmed_def)

lemma parse_u32_decimal: "n \<le> u32_max \<Longrightarrow> parse_u32 (decimal n) = Some (of_nat n)"
proof -
  assume n: "n \<le> u32_max"
  obtain b bs where d: "decimal n = b # bs" by (meson decimal_nonempty neq_Nil_conv)
  have "is_ascii_digit b" using decimal_ascii [of n] d by simp
  then have "(case decimal n of b # bs \<Rightarrow> if b = CHR ''+'' then bs else decimal n | [] \<Rightarrow> decimal n) = decimal n"
    using digit_not_sign [of b] by (simp add: d)
  moreover have "n \<le> usize_max" using n by (simp add: u32_max_def usize_max_def)
  ultimately show ?thesis using n decimal_ascii [of n] digits_value_decimal [of n]
    by (simp add: parse_u32_def)
qed

lemma trim_clean: "\<forall>b\<in>set s. \<not> is_trimmed b \<Longrightarrow> trim s = s"
proof -
  assume "\<forall>b\<in>set s. \<not> is_trimmed b"
  then have "dropWhile is_trimmed s = s" "dropWhile is_trimmed (rev s) = rev s"
    by (auto intro!: dropWhile_eq_self_iff [THEN iffD2] simp: hd_in_set hd_rev)
  then show ?thesis by (simp add: trim_def)
qed

lemma split_once_clean: "\<forall>b\<in>set s. b \<noteq> c \<Longrightarrow> split_once c s = None"
  by (simp add: split_once_def position_None_iff [THEN iffD2])

lemma split_once_at: "\<forall>b\<in>set s. b \<noteq> c \<Longrightarrow> split_once c (s @ c # t) = Some (s, t)"
  by (simp add: split_once_def position_eq takeWhile_append)

lemma render_range_bytes: "b \<in> set (render_range r) \<Longrightarrow> b \<noteq> CHR '','' \<and> \<not> is_trimmed b"
  using decimal_ascii digit_not_sign
  by (auto simp: render_range_def is_trimmed_def split: prod.splits if_splits)

lemma parse_part_range:
  assumes "lo \<le> hi" "hi \<le> u32_max"
  shows "parse_part (render_range (lo, hi)) = u32_range (of_nat lo) (of_nat hi)"
proof -
  have t: "trim (render_range (lo, hi)) = render_range (lo, hi)"
    using render_range_bytes by (intro trim_clean) blast
  have no_dash: "\<forall>b\<in>set (decimal lo). b \<noteq> CHR ''-''" using decimal_ascii digit_not_sign by blast
  have p: "parse_u32 (decimal lo) = Some (of_nat lo)" "parse_u32 (decimal hi) = Some (of_nat hi)"
    using assms by (simp_all add: parse_u32_decimal)
  show ?thesis
  proof (cases "lo = hi")
    case True
    have "u32_range (of_nat lo) (of_nat lo) = [of_nat lo]" by (simp add: u32_range_def)
    with True t p(1) split_once_clean [OF no_dash] show ?thesis
      by (simp add: parse_part_def render_range_def)
  next
    case False
    with t p split_once_at [OF no_dash, of "decimal hi"] show ?thesis
      by (simp add: parse_part_def render_range_def)
  qed
qed

lemma parse_cpu_parts_eq: "parse_cpu_parts ps out = out @ concat (map parse_part ps)"
  by (induction ps arbitrary: out) auto

lemma split_render:
  "rs \<noteq> [] \<Longrightarrow> split_on (\<lambda>b. b = CHR '','') (render_list rs) = map render_range rs"
proof (induction rs rule: render_list.induct)
  case (2 r)
  have "\<forall>b\<in>set (render_range r). \<not> b = CHR '',''" using render_range_bytes by blast
  from split_on_clean [OF this] show ?case by simp
next
  case (3 r s rs)
  have "\<forall>b\<in>set (render_range r). \<not> b = CHR '',''" using render_range_bytes by blast
  from split_on_append_sep [OF this] 3 show ?case by simp
qed simp

lemma parse_render_list:
  assumes "\<forall>(lo, hi)\<in>set rs. lo \<le> hi \<and> hi \<le> u32_max"
  shows "parse_cpu_list (render_list rs) = concat (map (\<lambda>(lo, hi). u32_range (of_nat lo) (of_nat hi)) rs)"
proof (cases "rs = []")
  case True
  then show ?thesis by (simp add: parse_cpu_list_def parse_part_def trim_def)
next
  case False
  have "map parse_part (map render_range rs) = map (\<lambda>(lo, hi). u32_range (of_nat lo) (of_nat hi)) rs"
    using assms by (auto simp: parse_part_range split: prod.splits)
  then show ?thesis using split_render [OF False]
    by (simp add: parse_cpu_list_def parse_cpu_parts_eq del: map_map)
qed

section \<open>Detection\<close>

text \<open>The CPU directories with cache information, each with the first CPU of its shared cache.\<close>

fun cpu_cache :: "(bytes option \<times> fs) option \<Rightarrow> (u32 \<times> u32) option" where
  "cpu_cache None = None"
| "cpu_cache (Some (None, node)) = None"
| "cpu_cache (Some (Some name, node)) = do {
     cpu \<leftarrow> parse_cpu_dir_name name;
     list \<leftarrow> read_l3_shared_list (join node ''cache'');
     if list = [] then None else Some (cpu, Min (set list))
   }"

definition cpu_caches :: "(bytes option \<times> fs) option list \<Rightarrow> (u32 \<times> u32) list" where
  "cpu_caches es = List.map_filter cpu_cache es"

lemma scan_cpus_eq:
  "scan_cpus es m seen = Some (m', seen') \<Longrightarrow>
   m' = fold (\<lambda>(cpu, c). add_cpu c cpu) (cpu_caches es) m"
proof (induction es m seen rule: scan_cpus.induct)
  case (2 e es m seen)
  then obtain name node where e: "e = Some (Some name, node)" by (auto split: bind_splits)
  show ?case
  proof (cases "parse_cpu_dir_name name")
    case None
    with 2 e show ?thesis by (simp add: cpu_caches_def map_filter_simps)
  next
    case (Some cpu)
    then show ?thesis using 2 e
      by (cases "read_l3_shared_list (join node ''cache'')")
        (auto simp: cpu_caches_def map_filter_simps split: if_splits)
  qed
qed (simp add: cpu_caches_def map_filter_simps)

text \<open>The buckets: distinct keys, and each bucket holds the CPUs of its cache once.\<close>

definition buckets :: "(u32 \<times> u32) list \<Rightarrow> (u32 \<times> u32 list) list \<Rightarrow> bool" where
  "buckets cs m \<longleftrightarrow> distinct (map fst m) \<and>
     (\<forall>(c, b)\<in>set m. b \<noteq> [] \<and> distinct b \<and> set b = {cpu. (cpu, c) \<in> set cs}) \<and>
     fst ` set m = snd ` set cs"

lemma set_update_distinct:
  "distinct (map fst m) \<Longrightarrow> set (AList.update k v m) = {x \<in> set m. fst x \<noteq> k} \<union> {(k, v)}"
  by (induction m) (auto simp: rev_image_eqI split: if_splits)

lemma add_cpu_buckets:
  assumes "buckets cs m"
  shows "buckets (cs @ [(cpu, c)]) (add_cpu c cpu m)"
proof -
  from assms have d: "distinct (map fst m)" and k: "fst ` set m = snd ` set cs"
    and b: "\<And>c b. (c, b) \<in> set m \<Longrightarrow> b \<noteq> [] \<and> distinct b \<and> set b = {cpu. (cpu, c) \<in> set cs}"
    by (auto simp: buckets_def)
  define old where "old = (case map_of m c of None \<Rightarrow> [] | Some b \<Rightarrow> b)"
  define new where "new = (if cpu \<in> set old then old else old @ [cpu])"
  have "distinct old \<and> set old = {cpu. (cpu, c) \<in> set cs}"
  proof (cases "map_of m c")
    case None
    then have "c \<notin> snd ` set cs" using k by (simp add: map_of_eq_None_iff)
    with None show ?thesis by (force simp: old_def)
  next
    case (Some b')
    with b [of c b'] show ?thesis by (auto simp: old_def dest: map_of_SomeD)
  qed
  then have new: "new \<noteq> []" "distinct new" "set new = insert cpu {cpu. (cpu, c) \<in> set cs}"
    by (auto simp: new_def)
  have upd: "add_cpu c cpu m = AList.update c new m"
    unfolding add_cpu_def Let_def new_def old_def by (rule refl)
  have keys: "set (AList.update c new m) = {x \<in> set m. fst x \<noteq> c} \<union> {(c, new)}"
    using d by (rule set_update_distinct)
  show ?thesis
    unfolding buckets_def upd
  proof (intro conjI ballI)
    show "distinct (map fst (AList.update c new m))" using d by (rule distinct_update)
    show "fst ` set (AList.update c new m) = snd ` set (cs @ [(cpu, c)])"
      using k by (simp add: dom_update)
  next
    fix x assume "x \<in> set (AList.update c new m)"
    then show "case x of (c', b) \<Rightarrow> b \<noteq> [] \<and> distinct b \<and> set b = {cp. (cp, c') \<in> set (cs @ [(cpu, c)])}"
      unfolding keys using b new by (cases x) auto
  qed
qed

lemma fold_buckets:
  "buckets cs m \<Longrightarrow> buckets (cs @ xs) (fold (\<lambda>(cpu, c). add_cpu c cpu) xs m)"
proof (induction xs arbitrary: cs m)
  case (Cons x xs)
  obtain cpu c where x: "x = (cpu, c)" by force
  from Cons.IH [OF add_cpu_buckets [OF Cons.prems, of cpu c]] x show ?case by simp
qed simp

section \<open>Shards\<close>

text \<open>Dense shard numbers: shard i has id i.\<close>

definition dense :: "topology \<Rightarrow> bool" where
  "dense t \<longleftrightarrow> shards t \<noteq> [] \<and> length (shards t) \<le> 2 ^ 32 \<and>
     map shard_id (shards t) = map of_nat [0..<length (shards t)]"

lemma length_distinct_u32: "distinct (xs :: u32 list) \<Longrightarrow> length xs \<le> 2 ^ 32"
proof -
  assume "distinct xs"
  then have "length xs = card (set xs)" by (simp add: distinct_card)
  also have "\<dots> \<le> card (UNIV :: u32 set)" by (rule card_mono) simp_all
  finally show ?thesis by (simp add: card_word)
qed

lemma sort_eq_Nil [simp]: "sort xs = [] \<longleftrightarrow> xs = []"
  by (metis length_0_conv length_sort)

lemma length_shards_of [simp]: "length (shards_of m) = length m"
  by (simp add: shards_of_def)

lemma shards_of_nth:
  "i < length m \<Longrightarrow> shards_of m ! i = \<lparr>shard_id = u32_or_max i, cpus = sort (snd (sort_key fst m ! i))\<rparr>"
  by (simp add: shards_of_def nth_enumerate_eq case_prod_unfold)

lemma shards_of_dense:
  assumes "distinct (map fst m)" "m \<noteq> []"
  shows "dense \<lparr>shards = shards_of m\<rparr>"
proof -
  have len: "length m \<le> 2 ^ 32" using length_distinct_u32 [OF assms(1)] by simp
  have "map shard_id (shards_of m) = map of_nat [0..<length m]"
    by (rule nth_equalityI) (use len in \<open>auto simp: shards_of_nth u32_or_max_def u32_max_def\<close>)
  with len assms(2) show ?thesis by (auto simp: dense_def shards_of_def)
qed

lemma set_shards_of:
  "cpus ` set (shards_of m) = (\<lambda>(c, b). sort b) ` set m"
proof -
  have "cpus ` set (shards_of m) = (\<lambda>(c, b). sort b) ` set (map snd (enumerate 0 (sort_key fst m)))"
    unfolding shards_of_def set_map image_image by (simp add: case_prod_unfold)
  then show ?thesis by simp
qed

lemma detect_in_Some:
  assumes "detect_in sysfs = Some t"
  obtains es m where "sysfs = Some (FsDir es)" "buckets (cpu_caches es) m" "m \<noteq> []"
    "t = \<lparr>shards = shards_of m\<rparr>"
proof -
  from assms obtain es m seen where r: "sysfs = Some (FsDir es)" "scan_cpus es [] False = Some (m, seen)"
    "m \<noteq> []" "t = \<lparr>shards = shards_of m\<rparr>"
    by (auto simp: detect_in_def split: bind_splits if_splits elim!: read_dir.elims)
  moreover have "buckets ([] @ cpu_caches es) m"
    unfolding scan_cpus_eq [OF r(2)] by (rule fold_buckets) (simp add: buckets_def)
  ultimately show thesis using that by simp
qed

lemma single_dense: "dense (single p)"
  by (simp add: dense_def single_def)

lemma detect_dense: "dense (detect sysfs p)"
  by (auto simp: detect_def single_dense buckets_def split: option.split
      elim!: detect_in_Some intro: shards_of_dense)

lemma synthetic_dense: "0 < n \<Longrightarrow> dense (synthetic_topology n)"
proof -
  assume "0 < n"
  then have "0 < unat n" by (simp add: word_less_nat_alt)
  moreover have "unat n < 2 ^ 32" using unsigned_less [of n] by simp
  ultimately show ?thesis by (simp add: dense_def synthetic_topology_def comp_def)
qed

lemma choose_dense: "dense (choose_topology force sysfs p)"
  by (auto simp: choose_topology_def detect_dense synthetic_dense split: option.split)

section \<open>Start-up\<close>

lemma assign_readers_from:
  assumes "map shard_id ss = map of_nat [k..<k + length ss]" "k + length ss \<le> 2 ^ 32"
    and "length rs = k + length ss" "\<forall>j<length ss. readers ! (k + j) = Some (rs ! (k + j))"
    and "length readers = length rs"
  shows "\<exists>l. assign_readers ss readers = Some l \<and> map (\<lambda>(i, c, r). (i, r)) l =
    map (\<lambda>j. (of_nat j, rs ! j)) [k..<k + length ss]"
  using assms
proof (induction ss arbitrary: k readers)
  case (Cons s ss)
  have up: "[k..<k + length (s # ss)] = k # [Suc k..<Suc k + length ss]"
    by (simp add: upt_conv_Cons del: upt_Suc)
  from Cons.prems(1) have s: "shard_id s = of_nat k" "map shard_id ss = map of_nat [Suc k..<Suc k + length ss]"
    unfolding up by simp_all
  have "k < 2 ^ 32" using Cons.prems(2) by simp
  then have k: "unat (shard_id s) = k" by (simp add: s(1) unat_of_nat)
  have r: "readers ! k = Some (rs ! k)" "k < length readers" using Cons.prems(3,4,5) by force+
  have "\<exists>l. assign_readers ss (readers[k := None]) = Some l \<and> map (\<lambda>(i, c, r). (i, r)) l =
      map (\<lambda>j. (of_nat j, rs ! j)) [Suc k..<Suc k + length ss]"
  proof (rule Cons.IH)
    show "\<forall>j<length ss. readers[k := None] ! (Suc k + j) = Some (rs ! (Suc k + j))"
      using Cons.prems(4) by (auto dest: spec [of _ "Suc _"])
  qed (use Cons.prems s in simp_all)
  with r k up s(1) show ?case by (auto simp: index_get_def simp del: upt_Suc)
qed simp

lemma assign_readers_dense:
  assumes "dense t" "length rs = shard_count t"
  shows "\<exists>l. assign_readers (shards t) (map Some rs) = Some l \<and>
    map (\<lambda>(i, c, r). (i, r)) l = map (\<lambda>j. (of_nat j, rs ! j)) [0..<shard_count t]"
  using assign_readers_from [of "shards t" 0 rs "map Some rs"] assms
  by (simp add: dense_def shard_count_def)

section \<open>Properties\<close>


text \<open>A machine with two caches, the directory entries in no particular order.\<close>

definition sample_cpu :: "bytes \<Rightarrow> bytes \<Rightarrow> (bytes option \<times> fs) option" where
  "sample_cpu name list = Some (Some name, FsDir [Some (Some ''cache'', FsDir
     [Some (Some ''index3'', FsDir [Some (Some ''level'', FsFile (Some (''3'' @ [LF]))),
        Some (Some ''shared_cpu_list'', FsFile (Some (list @ [LF])))])])])"

definition sample_sysfs :: "(bytes option \<times> fs) option list" where
  "sample_sysfs = [sample_cpu ''cpu2'' ''2-3'', sample_cpu ''cpu1'' ''0-1'',
     Some (Some ''cpufreq'', FsDir []), sample_cpu ''cpu3'' ''2-3'', sample_cpu ''cpu0'' ''0-1'']"

lemmas list_parsing = parse_cpu_list_def parse_part_def trim_def is_trimmed_def split_once_def
  parse_u32_def is_ascii_digit_def digits_value_def u32_max_def u32_range_def

lemma sample_lists: "parse_cpu_list ''0-1'' = [0, 1]" "parse_cpu_list ''2-3'' = [2, 3]"
  by (simp_all add: list_parsing)

lemma sample_names:
  "parse_cpu_dir_name ''cpu0'' = Some 0" "parse_cpu_dir_name ''cpu1'' = Some 1"
  "parse_cpu_dir_name ''cpu2'' = Some 2" "parse_cpu_dir_name ''cpu3'' = Some 3"
  "parse_cpu_dir_name ''cpufreq'' = None"
  by (simp_all add: parse_cpu_dir_name_def strip_prefix_def list_parsing)

lemma sample_node:
  "sample_cpu name list = Some (Some name, node) \<Longrightarrow> trim (list @ [LF]) = list \<Longrightarrow>
   read_l3_shared_list (join node ''cache'') = Some (parse_cpu_list list)"
  by (auto simp: sample_cpu_def join_def read_l3_shared_list_def trim_def is_trimmed_def LF_def)

lemma sample_detected:
  "detect_in (Some (FsDir sample_sysfs)) =
     Some \<lparr>shards = [\<lparr>shard_id = 0, cpus = [0, 1]\<rparr>, \<lparr>shard_id = 1, cpus = [2, 3]\<rparr>]\<rparr>"
proof -
  have t: "trim (''0-1'' @ [LF]) = ''0-1''" "trim (''2-3'' @ [LF]) = ''2-3''"
    by (simp_all add: trim_def is_trimmed_def LF_def)
  obtain n0 n1 n2 n3 where n:
    "sample_cpu ''cpu0'' ''0-1'' = Some (Some ''cpu0'', n0)" "sample_cpu ''cpu1'' ''0-1'' = Some (Some ''cpu1'', n1)"
    "sample_cpu ''cpu2'' ''2-3'' = Some (Some ''cpu2'', n2)" "sample_cpu ''cpu3'' ''2-3'' = Some (Some ''cpu3'', n3)"
    by (simp add: sample_cpu_def)
  from n [THEN sample_node] t have
    "read_l3_shared_list (join n0 ''cache'') = Some [0, 1]" "read_l3_shared_list (join n1 ''cache'') = Some [0, 1]"
    "read_l3_shared_list (join n2 ''cache'') = Some [2, 3]" "read_l3_shared_list (join n3 ''cache'') = Some [2, 3]"
    by (simp_all add: sample_lists)
  then show ?thesis
    by (simp add: detect_in_def sample_sysfs_def n sample_names add_cpu_def shards_of_def u32_or_max_def
        u32_max_def)
qed


text \<open>Every shard gets its eventfd reader at start-up: for the topology that \<open>main\<close> chooses,
  forced or detected or the fallback, the spawn loop neither indexes out of range nor finds a
  reader taken, and shard i receives reader i.\<close>

lemma startup_readers:
  assumes "length rs = shard_count (choose_topology force_shards sysfs parallelism)"
  shows "\<exists>l. assign_readers (shards (choose_topology force_shards sysfs parallelism)) (map Some rs) = Some l \<and>
    map (\<lambda>(i, c, r). (i, r)) l = map (\<lambda>j. (of_nat j, rs ! j)) [0..<length rs]"
  using assign_readers_dense [OF choose_dense assms] assms by simp

text \<open>C30. The CPU list parser reads back every list of numbers and ranges in the kernel's format.\<close>

theorem cpu_list_roundtrip:
  assumes "\<forall>(lo, hi)\<in>set rs. lo \<le> hi \<and> hi \<le> u32_max"
  shows "parse_cpu_list (render_list rs) = concat (map (\<lambda>(lo, hi). map of_nat [lo..<Suc hi]) rs)"
proof -
  have "unat (of_nat n :: u32) = n" if "n \<le> u32_max" for n
    using that by (simp add: unat_of_nat u32_max_def)
  with assms have "map (\<lambda>(lo, hi). u32_range (of_nat lo) (of_nat hi)) rs = map (\<lambda>(lo, hi). map of_nat [lo..<Suc hi]) rs"
    by (auto simp: u32_range_def simp del: upt_Suc)
  with parse_render_list [OF assms] show ?thesis by simp
qed

theorem cpu_list_roundtrip_witness:
  "parse_cpu_list ''0-3,8,12-13'' = [0, 1, 2, 3, 8, 12, 13]"
proof -
  have "render_list [(0, 3), (8, 8), (12, 13)] = ''0-3,8,12-13''" by code_simp
  then show ?thesis using cpu_list_roundtrip [of "[(0, 3), (8, 8), (12, 13)]"]
    by (simp add: u32_max_def upt_rec)
qed

end
