(* ===== verification/Shard_Inbox.thy ===== *)
theory Shard_Inbox
  imports Prelude
begin

unbundle bit_operations_syntax

text \<open>
  The bounded ring through which shards hand publishes to each other,
  \<open>aulon-core/src/shard_inbox.rs\<close>, as one thread sees it that runs alone.

  Counters and sequence numbers are 64-bit words that wrap around, and the slot difference is read
  as a signed number, as in the source.  The content of a slot is an option: None is memory that is
  not initialised, so that reading such a slot is an undefined result.  \<open>compare_exchange_weak\<close> may
  fail although the comparison holds; the list of flags says which attempts do.  The retry loop is
  a partial function whose value None is "does not return" or a panic.

  The lemmas show that the ring is a bounded first-in first-out queue, whatever the counters are.
\<close>

section \<open>Data\<close>

text \<open>\<open>PublishedFrame\<close>, the element type in the broker.\<close>

record published_frame =
  pf_subject :: bytes
  pf_reply_to :: "bytes option"
  pf_payload :: bytes

record 'a slot =
  seq :: u64
  val :: "'a option"

record 'a shard_inbox =
  ring_mask :: u64
  cells :: "'a slot list"
  tail :: u64
  head :: u64

section \<open>Construction\<close>

text \<open>\<open>usize::next_power_of_two\<close>, a panic when the power does not fit.\<close>

function next_power_from :: "nat \<Rightarrow> nat \<Rightarrow> nat" where
  "next_power_from p n = (if p < n \<and> 0 < p then next_power_from (2 * p) n else p)"
  by pat_completeness auto
termination by (relation "measure (\<lambda>(p, n). n - p)") auto

declare next_power_from.simps [simp del]

definition next_power_of_two :: "nat \<Rightarrow> nat option" where
  "next_power_of_two n = (let p = next_power_from 1 n in if p \<le> usize_max then Some p else None)"

definition with_capacity :: "nat \<Rightarrow> 'a shard_inbox option" where
  "with_capacity requested_capacity = do {
     cap \<leftarrow> next_power_of_two (max requested_capacity 2);
     Some \<lparr>ring_mask = of_nat (cap - 1),
       cells = map (\<lambda>i. \<lparr>seq = of_nat i, val = None\<rparr>) [0..<cap], tail = 0, head = 0\<rparr>
   }"

definition inbox_capacity :: "'a shard_inbox \<Rightarrow> nat" where
  "inbox_capacity ib = length (cells ib)"

section \<open>Operations\<close>

partial_function (option) push_loop ::
  "bool list \<Rightarrow> 'a shard_inbox \<Rightarrow> u64 \<Rightarrow> 'a \<Rightarrow> (('a + bool) \<times> 'a shard_inbox) option" where
  "push_loop spurious ib t v = do {
     let i = unat (t AND ring_mask ib);
     sl \<leftarrow> index_get (cells ib) i;
     let diff = sint (seq sl - t);
     if diff = 0 then
       (if tail ib = t \<and> \<not> (spurious \<noteq> [] \<and> hd spurious)
        then
          let ib1 = ib\<lparr>tail := t + 1\<rparr>;
              ib2 = ib1\<lparr>cells := (cells ib1)[i := sl\<lparr>val := Some v\<rparr>]\<rparr>;
              ib3 = ib2\<lparr>cells := (cells ib2)[i := (cells ib2 ! i)\<lparr>seq := t + 1\<rparr>]\<rparr>;
              head_after = head ib3
          in Some (Inr (head_after = t), ib3)
        else push_loop (tl spurious) ib (tail ib) v)
     else if diff < 0 then Some (Inl v, ib)
     else push_loop spurious ib (tail ib) v
   }"

definition push :: "bool list \<Rightarrow> 'a shard_inbox \<Rightarrow> 'a \<Rightarrow> (('a + bool) \<times> 'a shard_inbox) option" where
  "push spurious ib v = push_loop spurious ib (tail ib) v"

definition pop :: "'a shard_inbox \<Rightarrow> ('a option \<times> 'a shard_inbox) option" where
  "pop ib = do {
     let h = head ib;
     let i = unat (h AND ring_mask ib);
     sl \<leftarrow> index_get (cells ib) i;
     let diff = sint (seq sl - (h + 1));
     if diff = 0 then do {
       v \<leftarrow> val sl;
       let ib1 = ib\<lparr>cells := (cells ib)[i := \<lparr>seq = h + (ring_mask ib + 1), val = None\<rparr>]\<rparr>;
       Some (Some v, ib1\<lparr>head := h + 1\<rparr>)
     }
     else Some (None, ib)
   }"

definition inbox_is_empty :: "'a shard_inbox \<Rightarrow> bool option" where
  "inbox_is_empty ib = do {
     let h = head ib;
     sl \<leftarrow> index_get (cells ib) (unat (h AND ring_mask ib));
     Some (seq sl \<noteq> h + 1)
   }"

text \<open>\<open>Drop\<close>: \<open>while self.pop().is_some() {}\<close>, with what was dropped as the result.\<close>

partial_function (option) get_all :: "('q \<Rightarrow> ('a option \<times> 'q) option) \<Rightarrow> 'q \<Rightarrow> ('a list \<times> 'q) option" where
  "get_all get q = do {
     (r, q') \<leftarrow> get q;
     case r of
       None \<Rightarrow> Some ([], q')
     | Some v \<Rightarrow> do { (vs, q'') \<leftarrow> get_all get q'; Some (v # vs, q'') }
   }"

definition drop_inbox :: "'a shard_inbox \<Rightarrow> ('a list \<times> 'a shard_inbox) option" where
  "drop_inbox ib = get_all pop ib"

section \<open>The ring as a queue\<close>

text \<open>
  Position j counted from the head holds element j of the queue with sequence number one ahead, or
  is free with its own position as sequence number.
\<close>

definition slot_for :: "u64 \<Rightarrow> 'a list \<Rightarrow> nat \<Rightarrow> 'a slot" where
  "slot_for h q j =
     (if j < length q then \<lparr>seq = h + of_nat j + 1, val = Some (q ! j)\<rparr>
      else \<lparr>seq = h + of_nat j, val = None\<rparr>)"

definition ring_at :: "nat \<Rightarrow> 'a shard_inbox \<Rightarrow> 'a list \<Rightarrow> bool" where
  "ring_at k ib q \<longleftrightarrow> 1 \<le> k \<and> k \<le> 62 \<and> length (cells ib) = 2 ^ k \<and> ring_mask ib = mask k \<and>
     length q \<le> 2 ^ k \<and> tail ib = head ib + of_nat (length q) \<and>
     (\<forall>j < 2 ^ k. cells ib ! ((unat (head ib) + j) mod 2 ^ k) = slot_for (head ib) q j)"

definition ring :: "'a shard_inbox \<Rightarrow> 'a list \<Rightarrow> bool" where
  "ring ib q \<longleftrightarrow> (\<exists>k. ring_at k ib q)"

lemma mask_index: "k \<le> 64 \<Longrightarrow> unat ((h :: u64) AND mask k) = unat h mod 2 ^ k"
  unfolding take_bit_eq_mask [symmetric] unsigned_take_bit_eq by (simp add: take_bit_eq_mod)

lemma mask_index_add: "k \<le> 64 \<Longrightarrow> unat (((h :: u64) + of_nat j) AND mask k) = (unat h + j) mod 2 ^ k"
proof -
  assume k: "k \<le> 64"
  then have d: "(2 :: nat) ^ k dvd 2 ^ 64" by (rule le_imp_power_dvd)
  have "unat (h + of_nat j) = (unat h + j) mod 2 ^ 64"
    by (simp add: unat_word_ariths unat_of_nat mod_add_right_eq)
  with mask_index [OF k, of "h + of_nat j"] d show ?thesis by (simp add: mod_mod_cancel)
qed

lemma ring_slot:
  assumes "ring_at k ib q" "j < 2 ^ k"
  shows "index_get (cells ib) (unat ((head ib + of_nat j) AND ring_mask ib)) = Some (slot_for (head ib) q j)"
  using assms mask_index_add [of k "head ib" j] by (simp add: ring_at_def index_get_def)

text \<open>Two positions less than a lap apart are different slots and different words.\<close>

lemma position_inj:
  fixes n :: nat
  assumes "i < n" "j < n" "(h + i) mod n = (h + j) mod n"
  shows "i = j"
proof -
  have le: "i = j" if "i \<le> j" "j < n" "(h + i) mod n = (h + j) mod n" for i j
  proof -
    from that(1,3) have "n dvd j - i" using mod_eq_dvd_iff_nat [of "h + i" "h + j" n] by simp
    with that(1,2) show "i = j" by (metis diff_is_0_eq dvd_imp_le le_antisym less_imp_diff_less not_le gr0I)
  qed
  show ?thesis using le [of i j] le [of j i] assms by (cases "i \<le> j") auto
qed

lemma unat_small: "a < 2 ^ 64 \<Longrightarrow> unat (of_nat a :: u64) = a"
  by (simp add: unat_of_nat)

lemma of_nat_word_eq_iff:
  "a < 2 ^ 64 \<Longrightarrow> b < 2 ^ 64 \<Longrightarrow> (of_nat a :: u64) = of_nat b \<longleftrightarrow> a = b"
  using unat_small by metis

lemma sint_small: "- (2 ^ 63) \<le> x \<Longrightarrow> x < 2 ^ 63 \<Longrightarrow> sint (of_int x :: u64) = x"
  by (simp add: signed_of_int signed_take_bit_int_eq_self)

lemma power_62: "k \<le> 62 \<Longrightarrow> (2 :: nat) ^ k \<le> 2 ^ 62"
  by (rule power_increasing) simp_all

text \<open>The signed slot differences that \<open>push\<close> and \<open>pop\<close> see.\<close>

lemma diff_full: "1 \<le> k \<Longrightarrow> k \<le> 62 \<Longrightarrow> sint ((h + 1) - (h + of_nat (2 ^ k)) :: u64) < 0"
proof -
  assume k: "1 \<le> k" "k \<le> 62"
  have "(h + 1) - (h + of_nat (2 ^ k)) = (of_int (1 - 2 ^ k) :: u64)" by simp
  moreover have "(2 :: int) ^ k \<le> 2 ^ 62" "2 \<le> (2 :: int) ^ k"
    using k power_increasing [of k 62 "2 :: int"] power_increasing [of 1 k "2 :: int"] by simp_all
  ultimately show ?thesis using sint_small [of "1 - 2 ^ k"] by simp
qed

lemma diff_empty: "sint ((h :: u64) - (h + 1)) \<noteq> 0"
  by simp

text \<open>A slot other than the changed one keeps its position.\<close>

lemma ring_at_update:
  assumes "ring_at k ib q" "i < 2 ^ k" "j < 2 ^ k" "i \<noteq> j"
  shows "(cells ib)[(unat (head ib) + i) mod 2 ^ k := sl] ! ((unat (head ib) + j) mod 2 ^ k) =
    slot_for (head ib) q j"
proof -
  have "(unat (head ib) + i) mod 2 ^ k \<noteq> (unat (head ib) + j) mod 2 ^ k"
    using assms(2-4) position_inj [of i "2 ^ k" j "unat (head ib)"] by blast
  with assms show ?thesis by (simp add: ring_at_def)
qed

section \<open>Push\<close>

lemma slot_for_append:
  "j \<noteq> length q \<Longrightarrow> slot_for h (q @ [v]) j = slot_for h q j"
  "slot_for h (q @ [v]) (length q) = \<lparr>seq = h + of_nat (length q) + 1, val = Some v\<rparr>"
  by (auto simp: slot_for_def nth_append)

lemma push_loop_full:
  assumes "ring_at k ib q" "length q = 2 ^ k"
  shows "push_loop spurious ib (tail ib) v = Some (Inl v, ib)"
proof -
  from assms have r: "1 \<le> k" "k \<le> 62" "tail ib = head ib + of_nat (2 ^ k)" "ring_mask ib = mask k"
    by (simp_all add: ring_at_def)
  have "unat (tail ib AND ring_mask ib) = unat ((head ib + of_nat 0) AND ring_mask ib)"
    unfolding r(3,4) using mask_index_add [of k "head ib" "2 ^ k"] mask_index_add [of k "head ib" 0] r(2)
    by simp
  with ring_slot [OF assms(1), of 0] have
    "index_get (cells ib) (unat (tail ib AND ring_mask ib)) = Some (slot_for (head ib) q 0)" by simp
  moreover have "seq (slot_for (head ib) q 0) = head ib + 1"
    using assms(2) by (simp add: slot_for_def)
  ultimately show ?thesis
    using diff_full [OF r(1,2), of "head ib"]
    by (subst push_loop.simps) (simp add: Let_def r(3))
qed

text \<open>The ring after an element was written behind the last one.\<close>

definition extended :: "nat \<Rightarrow> 'a shard_inbox \<Rightarrow> 'a list \<Rightarrow> 'a \<Rightarrow> 'a shard_inbox" where
  "extended k ib q v = ib\<lparr>tail := tail ib + 1,
     cells := (cells ib)[(unat (head ib) + length q) mod 2 ^ k := \<lparr>seq = tail ib + 1, val = Some v\<rparr>]\<rparr>"

lemma extended_ring:
  assumes "ring_at k ib q" "length q < 2 ^ k"
  shows "ring_at k (extended k ib q v) (q @ [v])"
proof -
  let ?i = "(unat (head ib) + length q) mod 2 ^ k"
  have "cells (extended k ib q v) ! ((unat (head ib) + j) mod 2 ^ k) = slot_for (head ib) (q @ [v]) j"
    if "j < 2 ^ k" for j
  proof (cases "j = length q")
    case True
    moreover have "?i < length (cells ib)" using assms(1) by (simp add: ring_at_def)
    ultimately show ?thesis using assms(1) by (simp add: extended_def slot_for_append ring_at_def)
  next
    case False
    with that ring_at_update [OF assms(1), of "length q" j] assms(2) show ?thesis
      by (simp add: extended_def slot_for_append)
  qed
  with assms show ?thesis by (simp add: ring_at_def extended_def)
qed

lemma push_loop_step:
  assumes "ring_at k ib q" "length q < 2 ^ k"
  shows "push_loop spurious ib (tail ib) v =
    (if spurious \<noteq> [] \<and> hd spurious then push_loop (tl spurious) ib (tail ib) v
     else Some (Inr (q = []), extended k ib q v))"
proof -
  from assms have t: "tail ib = head ib + of_nat (length q)" "ring_mask ib = mask k" "k \<le> 62"
    and len: "length (cells ib) = 2 ^ k" by (simp_all add: ring_at_def)
  let ?i = "(unat (head ib) + length q) mod 2 ^ k"
  have i: "unat (tail ib AND ring_mask ib) = ?i"
    unfolding t(1,2) using t(3) by (intro mask_index_add) simp
  have "index_get (cells ib) ?i = Some \<lparr>seq = tail ib, val = None\<rparr>"
    using ring_slot [OF assms] i t(1) by (simp add: slot_for_def)
  moreover have "?i < length (cells ib)" using len by simp
  moreover have "length q < 2 ^ 64" using assms(2) power_62 [OF t(3)] by simp
  then have "head ib = tail ib \<longleftrightarrow> q = []"
    using of_nat_word_eq_iff [of 0 "length q"] by (auto simp: t(1))
  ultimately show ?thesis
    by (subst push_loop.simps) (simp add: i Let_def extended_def)
qed

lemma push_loop_room:
  assumes "ring_at k ib q" "length q < 2 ^ k"
  shows "push_loop spurious ib (tail ib) v = Some (Inr (q = []), extended k ib q v)"
proof (induction spurious)
  case Nil
  then show ?case using push_loop_step [OF assms, of "[]" v] by simp
next
  case (Cons a spurious)
  then show ?case using push_loop_step [OF assms, of "a # spurious" v] by (cases a) simp_all
qed

section \<open>Pop\<close>

definition shrunk :: "nat \<Rightarrow> 'a shard_inbox \<Rightarrow> 'a shard_inbox" where
  "shrunk k ib = ib\<lparr>cells := (cells ib)[unat (head ib) mod 2 ^ k :=
       \<lparr>seq = head ib + (ring_mask ib + 1), val = None\<rparr>], head := head ib + 1\<rparr>"

lemma next_position:
  fixes h :: u64
  assumes "k \<le> 62"
  shows "(unat (h + 1) + j) mod 2 ^ k = (unat h + Suc j) mod 2 ^ k"
  using mask_index_add [of k "h + 1" j] mask_index_add [of k h "Suc j"] assms
  by (simp add: algebra_simps)

lemma slot_for_tl: "slot_for (h + 1) q j = slot_for h (v # q) (Suc j)"
  by (simp add: slot_for_def algebra_simps)

lemma shrunk_ring:
  assumes "ring_at k ib (v # q)"
  shows "ring_at k (shrunk k ib) q"
proof -
  from assms have k: "k \<le> 62" "length q < 2 ^ k" "ring_mask ib = mask k" "length (cells ib) = 2 ^ k"
    by (simp_all add: ring_at_def)
  let ?h = "head ib"
  have "cells (shrunk k ib) ! ((unat (?h + 1) + j) mod 2 ^ k) = slot_for (?h + 1) q j" if "j < 2 ^ k" for j
  proof (cases "Suc j = 2 ^ k")
    case True
    then have "(unat ?h + Suc j) mod 2 ^ k = unat ?h mod 2 ^ k" by simp
    moreover have "(of_nat j :: u64) = mask k"
      using True by (metis Suc_eq_plus1 add_diff_cancel_right' mask_eq_exp_minus_1 of_nat_mask_eq
          diff_Suc_1 of_nat_1 of_nat_Suc of_nat_numeral of_nat_power add_diff_cancel_left' plus_1_eq_Suc)
    ultimately show ?thesis
      using k True next_position [OF k(1), of ?h j]
      by (simp add: shrunk_def slot_for_def algebra_simps)
  next
    case False
    with that have "Suc j < 2 ^ k" by simp
    then show ?thesis
      using ring_at_update [OF assms, of 0 "Suc j"] next_position [OF k(1), of ?h j]
      by (simp add: shrunk_def slot_for_tl [of ?h q j v])
  qed
  with assms show ?thesis by (simp add: ring_at_def shrunk_def algebra_simps)
qed

lemma pop_first:
  assumes "ring_at k ib (v # q)"
  shows "pop ib = Some (Some v, shrunk k ib)"
proof -
  have "ring_mask ib = mask k" "k \<le> 62" using assms by (simp_all add: ring_at_def)
  then have "unat (head ib AND ring_mask ib) = unat (head ib) mod 2 ^ k" by (simp add: mask_index)
  with ring_slot [OF assms, of 0] show ?thesis
    by (simp add: pop_def slot_for_def Let_def shrunk_def)
qed

lemma pop_none:
  assumes "ring_at k ib []"
  shows "pop ib = Some (None, ib)"
  using ring_slot [OF assms, of 0] by (simp add: pop_def slot_for_def Let_def)

section \<open>The interface: a bounded queue\<close>

datatype 'a inbox_op = Push "bool list" 'a | Pop

text \<open>A history with what was accepted and what came out.\<close>

fun run_inbox ::
  "(bool list \<Rightarrow> 'q \<Rightarrow> 'a \<Rightarrow> (('a + bool) \<times> 'q) option) \<Rightarrow> ('q \<Rightarrow> ('a option \<times> 'q) option) \<Rightarrow>
   'a inbox_op list \<Rightarrow> 'q \<Rightarrow> ('a list \<times> 'a list \<times> 'q) option" where
  "run_inbox put get [] q = Some ([], [], q)"
| "run_inbox put get (Push sp v # opers) q = do {
     (r, q') \<leftarrow> put sp q v;
     (ins, outs, q'') \<leftarrow> run_inbox put get opers q';
     Some ((case r of Inl _ \<Rightarrow> [] | Inr _ \<Rightarrow> [v]) @ ins, outs, q'')
   }"
| "run_inbox put get (Pop # opers) q = do {
     (r, q') \<leftarrow> get q;
     (ins, outs, q'') \<leftarrow> run_inbox put get opers q';
     Some (ins, (case r of None \<Rightarrow> [] | Some v \<Rightarrow> [v]) @ outs, q'')
   }"

locale bounded_queue =
  fixes put :: "bool list \<Rightarrow> 'q \<Rightarrow> 'a \<Rightarrow> (('a + bool) \<times> 'q) option"
    and get :: "'q \<Rightarrow> ('a option \<times> 'q) option"
    and invar :: "'q \<Rightarrow> bool"
    and content :: "'q \<Rightarrow> 'a list"
    and capacity :: "'q \<Rightarrow> nat"
  assumes bounded: "invar q \<Longrightarrow> length (content q) \<le> capacity q"
    and put_room: "invar q \<Longrightarrow> length (content q) < capacity q \<Longrightarrow>
      \<exists>q'. put sp q v = Some (Inr (content q = []), q') \<and> invar q' \<and> content q' = content q @ [v] \<and>
        capacity q' = capacity q"
    and put_full: "invar q \<Longrightarrow> length (content q) = capacity q \<Longrightarrow> put sp q v = Some (Inl v, q)"
    and get_first: "invar q \<Longrightarrow> content q = v # vs \<Longrightarrow>
      \<exists>q'. get q = Some (Some v, q') \<and> invar q' \<and> content q' = vs \<and> capacity q' = capacity q"
    and get_empty: "invar q \<Longrightarrow> content q = [] \<Longrightarrow> get q = Some (None, q)"
begin

lemma put_cases:
  assumes "invar q"
  obtains q' where "put sp q v = Some (Inr (content q = []), q')" "invar q'"
      "content q' = content q @ [v]" "capacity q' = capacity q" "length (content q) < capacity q"
  | "put sp q v = Some (Inl v, q)" "length (content q) = capacity q"
  using put_room [OF assms] put_full [OF assms] bounded [OF assms] by (metis le_neq_implies_less)

lemma queue_history:
  "invar q \<Longrightarrow> \<exists>ins outs q'. run_inbox put get opers q = Some (ins, outs, q') \<and> invar q' \<and>
    capacity q' = capacity q \<and> content q @ ins = outs @ content q'"
proof (induction opers arbitrary: q)
  case (Cons oper opers)
  show ?case
  proof (cases oper)
    case (Push sp v)
    from Cons.prems show ?thesis
    proof (cases rule: put_cases [of q sp v])
      case (1 q')
      with Cons.IH [OF 1(2)] Push show ?thesis by auto
    next
      case 2
      with Cons.IH [OF Cons.prems] Push show ?thesis by auto
    qed
  next
    case Pop
    show ?thesis
    proof (cases "content q")
      case Nil
      with get_empty [OF Cons.prems] Cons.IH [OF Cons.prems] Pop show ?thesis by auto
    next
      case c: (Cons v vs)
      from get_first [OF Cons.prems c] obtain q' where
        "get q = Some (Some v, q')" "invar q'" "content q' = vs" "capacity q' = capacity q" by blast
      with Cons.IH [of q'] c Pop show ?thesis by auto
    qed
  qed
qed simp

lemma get_all_content:
  assumes "invar q"
  shows "\<exists>q'. get_all get q = Some (content q, q') \<and> invar q' \<and> content q' = []"
  using assms
proof (induction "content q" arbitrary: q)
  case Nil
  then show ?case using get_empty [of q] by (subst get_all.simps) simp
next
  case (Cons v vs)
  from get_first [OF Cons.prems Cons.hyps(2) [symmetric]] obtain q' where
    q': "get q = Some (Some v, q')" "invar q'" "content q' = vs" by blast
  with Cons.hyps(1) [of q'] Cons.hyps(2) show ?case by (subst get_all.simps) auto
qed

end

section \<open>The ring provides it\<close>

definition ring_content :: "'a shard_inbox \<Rightarrow> 'a list" where
  "ring_content ib = map (\<lambda>j. the (val (cells ib ! unat ((head ib + of_nat j) AND ring_mask ib))))
     [0..<unat (tail ib - head ib)]"

definition ring_invar :: "'a shard_inbox \<Rightarrow> bool" where
  "ring_invar ib \<longleftrightarrow> ring ib (ring_content ib)"

lemma ring_content_eq:
  assumes "ring_at k ib q"
  shows "ring_content ib = q"
proof -
  from assms have k: "k \<le> 62" "length q \<le> 2 ^ k" "tail ib = head ib + of_nat (length q)"
    "ring_mask ib = mask k" by (simp_all add: ring_at_def)
  have "length q < 2 ^ 64" using k(2) power_62 [OF k(1)] by simp
  then have n: "unat (tail ib - head ib) = length q" using unat_small by (simp add: k(3))
  have "the (val (cells ib ! unat ((head ib + of_nat j) AND ring_mask ib))) = q ! j" if "j < length q" for j
    using assms k that mask_index_add [of k "head ib" j] by (simp add: ring_at_def slot_for_def)
  then show ?thesis by (auto simp: ring_content_def n intro: nth_equalityI)
qed

lemma ring_invar_iff: "ring_invar ib \<longleftrightarrow> (\<exists>k. ring_at k ib (ring_content ib))"
  by (simp add: ring_invar_def ring_def)

lemma ring_atD: "ring_at k ib q \<Longrightarrow> ring_invar ib \<and> ring_content ib = q \<and> inbox_capacity ib = 2 ^ k"
  using ring_content_eq [of k ib q] by (auto simp: ring_invar_iff inbox_capacity_def ring_at_def)

interpretation inbox: bounded_queue push pop ring_invar ring_content inbox_capacity
proof
  fix ib :: "'a shard_inbox" and sp and v :: 'a and vs
  assume "ring_invar ib"
  then obtain k where k: "ring_at k ib (ring_content ib)" by (auto simp: ring_invar_iff)
  note cap = ring_atD [OF k]
  show "length (ring_content ib) \<le> inbox_capacity ib"
    using k by (simp add: ring_at_def inbox_capacity_def)
  show "\<exists>ib'. push sp ib v = Some (Inr (ring_content ib = []), ib') \<and> ring_invar ib' \<and>
      ring_content ib' = ring_content ib @ [v] \<and> inbox_capacity ib' = inbox_capacity ib"
    if "length (ring_content ib) < inbox_capacity ib"
    using that cap push_loop_room [OF k, of sp v] ring_atD [OF extended_ring [OF k, of v]]
    by (simp add: push_def)
  show "push sp ib v = Some (Inl v, ib)" if "length (ring_content ib) = inbox_capacity ib"
    using that cap push_loop_full [OF k, of sp v] by (simp add: push_def)
  show "\<exists>ib'. pop ib = Some (Some v, ib') \<and> ring_invar ib' \<and> ring_content ib' = vs \<and>
      inbox_capacity ib' = inbox_capacity ib" if "ring_content ib = v # vs"
    using cap pop_first [of k ib v vs] ring_atD [OF shrunk_ring, of k ib v vs] k that by simp
  show "pop ib = Some (None, ib)" if "ring_content ib = []"
    using k that pop_none [of k ib] by simp
qed

section \<open>Construction\<close>

lemma next_power_from_spec:
  "0 < p \<Longrightarrow> \<exists>k. next_power_from p n = p * 2 ^ k \<and> n \<le> p * 2 ^ k \<and> (k = 0 \<or> p * 2 ^ k < 2 * n)"
proof (induction p n rule: next_power_from.induct)
  case (1 p n)
  show ?case
  proof (cases "p < n")
    case True
    with 1 obtain k where k: "next_power_from (2 * p) n = 2 * p * 2 ^ k" "n \<le> 2 * p * 2 ^ k"
      "k = 0 \<or> 2 * p * 2 ^ k < 2 * n" by auto
    with True "1.prems" show ?thesis
      by (intro exI [of _ "Suc k"]) (auto simp: next_power_from.simps [of p n])
  next
    case False
    then show ?thesis by (intro exI [of _ 0]) (simp add: next_power_from.simps [of p n])
  qed
qed

lemma next_power_of_two_spec:
  assumes "2 \<le> n" "n \<le> 2 ^ 62"
  obtains k where "1 \<le> k" "k \<le> 62" "next_power_of_two n = Some (2 ^ k)" "n \<le> 2 ^ k" "2 ^ k < 2 * n"
proof -
  from next_power_from_spec [of 1 n] obtain k where
    k: "next_power_from 1 n = 2 ^ k" "n \<le> 2 ^ k" "k = 0 \<or> (2 :: nat) ^ k < 2 * n" by auto
  from k(2) assms(1) have "1 \<le> k" by (cases k) auto
  with k(3) assms(2) have "(2 :: nat) ^ k < 2 ^ 63" by auto
  then have "k < 63" by (rule power_less_imp_less_exp [rotated]) simp
  moreover have "(2 :: nat) ^ k \<le> usize_max" using \<open>(2 :: nat) ^ k < 2 ^ 63\<close> by (simp add: usize_max_def)
  ultimately show thesis using that [of k] k \<open>1 \<le> k\<close> by (auto simp: next_power_of_two_def)
qed

lemma with_capacity_ring:
  assumes "n \<le> 2 ^ 62"
  shows "\<exists>k (ib :: 'a shard_inbox). with_capacity n = Some ib \<and> ring_at k ib [] \<and>
    max n 2 \<le> 2 ^ k \<and> 2 ^ k < 2 * max n 2"
proof -
  from assms have "2 \<le> max n 2" "max n 2 \<le> 2 ^ 62" by simp_all
  then obtain k where k: "1 \<le> k" "k \<le> 62" "next_power_of_two (max n 2) = Some (2 ^ k)"
    "max n 2 \<le> 2 ^ k" "2 ^ k < 2 * max n 2" by (rule next_power_of_two_spec)
  have "(of_nat (2 ^ k - 1) :: u64) = mask k" by (simp add: mask_eq_exp_minus_1 of_nat_diff)
  with k show ?thesis
    by (intro exI [of _ k]) (simp add: with_capacity_def ring_at_def slot_for_def)
qed

section \<open>Properties\<close>

text \<open>C9. The ring is a bounded first-in first-out queue: any history of pushes (with any number of
  spurious failures of the compare-and-swap) and pops on a new inbox returns, the accepted
  elements are the popped ones followed by those still queued, in order, and the capacity is the
  requested one rounded up to a power of two, at least 2.\<close>

theorem inbox_fifo:
  assumes "n \<le> 2 ^ 62"
  shows "\<exists>k ib ins outs ib'. with_capacity n = Some ib \<and> run_inbox push pop opers ib = Some (ins, outs, ib') \<and>
    ring_invar ib' \<and> ins = outs @ ring_content ib' \<and> inbox_capacity ib' = 2 ^ k \<and>
    max n 2 \<le> 2 ^ k \<and> 2 ^ k < 2 * max n 2"
proof -
  obtain k and ib :: "'a shard_inbox" where ib: "with_capacity n = Some ib" "ring_at k ib []"
    "max n 2 \<le> 2 ^ k" "2 ^ k < 2 * max n 2" using with_capacity_ring [OF assms] by blast
  with ring_atD [OF ib(2)] inbox.queue_history [of ib opers] show ?thesis by fastforce
qed

theorem inbox_fifo_witness:
  "\<exists>k ib ins outs ib'. with_capacity 3 = Some ib \<and>
    run_inbox push pop [Push [] ''a'', Push [True, False] ''b'', Pop, Push [True] ''c''] ib = Some (ins, outs, ib') \<and>
    ins = outs @ ring_content ib' \<and> inbox_capacity ib' = 2 ^ k \<and> 3 \<le> (2 :: nat) ^ k \<and> (2 :: nat) ^ k < 6"
  using inbox_fifo [of 3 "[Push [] ''a'', Push [True, False] ''b'', Pop, Push [True] ''c'']"] by auto

text \<open>C27. One push, at any value of the wrapping counters and under any spurious failures: into a
  full ring it gives the element back and changes nothing; otherwise the element goes to the back
  and the result says exactly whether the ring was empty before, which decides the wakeup.\<close>

theorem push_branches:
  assumes "ring_invar ib"
  shows "if length (ring_content ib) = inbox_capacity ib then push spurious ib v = Some (Inl v, ib)
    else \<exists>ib'. push spurious ib v = Some (Inr (ring_content ib = []), ib') \<and> ring_invar ib' \<and>
      ring_content ib' = ring_content ib @ [v] \<and> inbox_capacity ib' = inbox_capacity ib"
  using inbox.put_full [OF assms] inbox.put_room [OF assms] inbox.bounded [OF assms]
  by (auto simp: le_less)

lemma wrapping_ring:
  "ring_at 1 \<lparr>ring_mask = 1, cells = [\<lparr>seq = 0, val = None\<rparr>, \<lparr>seq = - 1, val = None\<rparr>], tail = - 1, head = - 1\<rparr> []"
proof -
  have "(\<forall>j<2. P j) \<longleftrightarrow> P 0 \<and> P 1" for P :: "nat \<Rightarrow> bool" using less_2_cases by auto
  moreover have "unat (- 1 :: u64) = 18446744073709551615"
    by (simp add: unsigned_minus_1_eq_mask mask_eq_exp_minus_1)
  ultimately show ?thesis by (simp add: ring_at_def slot_for_def mask_eq_exp_minus_1)
qed

theorem push_branches_witness:
  "\<exists>ib'. push [True] \<lparr>ring_mask = 1, cells = [\<lparr>seq = 0, val = None\<rparr>, \<lparr>seq = - 1, val = None\<rparr>],
      tail = - 1, head = - 1\<rparr> ''a'' = Some (Inr True, ib') \<and> ring_content ib' = [''a'']"
  using push_branches [of "\<lparr>ring_mask = 1, cells = [\<lparr>seq = 0, val = None\<rparr>, \<lparr>seq = - 1, val = None\<rparr>],
      tail = - 1, head = - 1\<rparr>" "[True]" "''a''"] ring_atD [OF wrapping_ring [where 'a = bytes]]
  by auto

text \<open>C28. The consumer's side: \<open>pop\<close> takes the oldest element, \<open>is_empty\<close> tells whether there is
  one, neither reads a slot that is not initialised, and dropping the inbox ends after every
  remaining element has been taken out once.\<close>

theorem consumer_side:
  assumes "ring_invar ib"
  shows "inbox_is_empty ib = Some (ring_content ib = []) \<and>
    (case ring_content ib of
       [] \<Rightarrow> pop ib = Some (None, ib)
     | v # vs \<Rightarrow> \<exists>ib'. pop ib = Some (Some v, ib') \<and> ring_invar ib' \<and> ring_content ib' = vs) \<and>
    (\<exists>ib'. drop_inbox ib = Some (ring_content ib, ib') \<and> ring_content ib' = [])"
proof -
  from assms obtain k where k: "ring_at k ib (ring_content ib)" by (auto simp: ring_invar_iff)
  from ring_slot [OF k, of 0] have "inbox_is_empty ib = Some (ring_content ib = [])"
    by (simp add: inbox_is_empty_def slot_for_def Let_def)
  then show ?thesis
    using inbox.get_first [OF assms] inbox.get_empty [OF assms] inbox.get_all_content [OF assms]
    by (auto simp: drop_inbox_def split: list.split)
qed

theorem consumer_side_witness:
  "\<exists>ib'. drop_inbox \<lparr>ring_mask = 1, cells = [\<lparr>seq = 0, val = None\<rparr>, \<lparr>seq = - 1, val = None\<rparr>],
      tail = - 1, head = - 1\<rparr> = Some ([] :: bytes list, ib')"
  using consumer_side [where 'a = bytes, of "\<lparr>ring_mask = 1, cells = [\<lparr>seq = 0, val = None\<rparr>, \<lparr>seq = - 1, val = None\<rparr>],
      tail = - 1, head = - 1\<rparr>"] ring_atD [OF wrapping_ring [where 'a = bytes]]
  by auto

end
