(* ===== verification/Worker.thy ===== *)
theory Worker
  imports Connection_State Emit Shard_Inbox
begin

unbundle bit_operations_syntax

text \<open>
  The per-shard worker of \<open>aulon-server/src/main.rs\<close>: its state and the synchronous handlers that a
  reader task and the drain task call.

  \<open>Rc<ConnectionState>\<close> is an address into the store of connection states, so that the connection
  map and the tasks may refer to the same state.  The inboxes and wakers that all shards share are
  the record \<open>fabric\<close>; \<open>wake\<close> and \<open>notify_one\<close> stand for the kernel's eventfd and for tokio's
  \<open>Notify\<close>.  A handler that would panic returns None.  The reader task's map from sid to subject is
  an association list with distinct keys.
\<close>

section \<open>Constants\<close>

definition MAX_PAYLOAD_BYTES :: nat where
  "MAX_PAYLOAD_BYTES = 1024 * 1024"

definition MAX_FRAME_SIZE :: nat where
  "MAX_FRAME_SIZE = MAX_PAYLOAD_BYTES * 2"

definition EMIT_SCRATCH_CAPACITY :: nat where
  "EMIT_SCRATCH_CAPACITY = MAX_PAYLOAD_BYTES + 4096"

definition SHARD_INBOX_CAPACITY :: nat where
  "SHARD_INBOX_CAPACITY = 4096"

definition SHORT_FRAME_BUF :: nat where
  "SHORT_FRAME_BUF = 4096"

section \<open>State\<close>

type_synonym addr = nat
type_synonym snapshot = "connection_id \<times> bytes"
type_synonym group_bucket = "bytes \<times> snapshot list"

record 'n worker =
  worker_shard :: u32
  table :: subscription_trie
  connections :: "connection_id \<rightharpoonup> addr"
  next_conn_id :: u32
  emit_scratch :: bytes
  rng :: u64
  states :: "'n connection_state list"

record 'w fabric =
  peer_inboxes :: "published_frame shard_inbox list"
  peer_wakers :: "'w list"

definition seed :: "u32 \<Rightarrow> u64" where
  "seed shard = 0x123456789abcdef0 XOR (ucast shard * 0x9E3779B9)"

definition new_worker :: "u32 \<Rightarrow> 'n worker" where
  "new_worker shard =
     \<lparr>worker_shard = shard, table = new_trie, connections = Map.empty, next_conn_id = 0,
      emit_scratch = replicate EMIT_SCRATCH_CAPACITY zero_byte, rng = seed shard, states = []\<rparr>"

text \<open>
  The loop of \<open>main\<close> that makes the inboxes, the wakers and the readers, given what \<open>eventfd_pair\<close>
  returns for each shard; the first error ends it.
\<close>

fun build_fabric ::
  "('e + 'r \<times> 'w) list \<Rightarrow> 'r option list \<Rightarrow> 'w fabric \<Rightarrow> ('e + 'r option list \<times> 'w fabric) option" where
  "build_fabric [] readers fab = Some (Inr (readers, fab))"
| "build_fabric (Inl e # pairs) readers fab = Some (Inl e)"
| "build_fabric (Inr (reader, waker) # pairs) readers fab = do {
     ib \<leftarrow> with_capacity SHARD_INBOX_CAPACITY;
     build_fabric pairs (readers @ [Some reader])
       (fab\<lparr>peer_inboxes := peer_inboxes fab @ [ib], peer_wakers := peer_wakers fab @ [waker]\<rparr>)
   }"

definition no_fabric :: "'w fabric" where
  "no_fabric = \<lparr>peer_inboxes = [], peer_wakers = []\<rparr>"

definition next_id :: "'n worker \<Rightarrow> connection_id \<times> 'n worker" where
  "next_id w = (ConnectionId (next_conn_id w), w\<lparr>next_conn_id := next_conn_id w + 1\<rparr>)"

definition lookup :: "'n worker \<Rightarrow> connection_id \<Rightarrow> addr option" where
  "lookup w cid = connections w cid"

definition worker_shard_count :: "'w fabric \<Rightarrow> nat" where
  "worker_shard_count fab = length (peer_inboxes fab)"

text \<open>One step of the xorshift generator, and the index it gives; \<open>n = 0\<close> divides by zero.\<close>

definition xorshift :: "u64 \<Rightarrow> u64" where
  "xorshift s0 =
     (let s1 = s0 XOR push_bit 13 s0;
          s2 = s1 XOR drop_bit 7 s1
      in s2 XOR push_bit 17 s2)"

definition pick_index :: "nat \<Rightarrow> 'n worker \<Rightarrow> (nat \<times> 'n worker) option" where
  "pick_index n w =
     (let s = xorshift (rng w)
      in if n = 0 then None else Some (unat s mod n, w\<lparr>rng := s\<rparr>))"

section \<open>Enqueueing on a connection\<close>

definition enqueue_at :: "('n \<Rightarrow> 'n) \<Rightarrow> addr \<Rightarrow> bytes \<Rightarrow> 'n worker \<Rightarrow> 'n worker option" where
  "enqueue_at notify_one a bs w = do {
     c \<leftarrow> index_get (states w) a;
     (r, c') \<leftarrow> enqueue notify_one c bs;
     Some (w\<lparr>states := (states w)[a := c']\<rparr>)
   }"

definition emit_err_to :: "('n \<Rightarrow> 'n) \<Rightarrow> addr \<Rightarrow> bytes \<Rightarrow> 'n worker \<Rightarrow> 'n worker option" where
  "emit_err_to notify_one a msg w = do {
     (res, buf) \<leftarrow> emit_err msg (replicate SHORT_FRAME_BUF zero_byte);
     case res of
       Inl e \<Rightarrow> Some w
     | Inr n \<Rightarrow> do { out \<leftarrow> slice_to buf n; enqueue_at notify_one a out w }
   }"

fun subject_error_text :: "subject_error \<Rightarrow> bytes" where
  "subject_error_text Empty = ''empty subject''"
| "subject_error_text EmptyToken = ''empty token in subject''"
| "subject_error_text WildcardInPublish = ''wildcard not allowed in publish subject''"
| "subject_error_text InvalidGreaterPosition = ''`>` must be the last token''"

section \<open>Local dispatch\<close>

text \<open>The callback of the match: plain subscribers, and one bucket per queue group.\<close>

fun push_group :: "bytes \<Rightarrow> snapshot \<Rightarrow> group_bucket list \<Rightarrow> group_bucket list" where
  "push_group qg entry [] = [(qg, [entry])]"
| "push_group qg entry ((k, members) # groups) =
     (if k = qg then (k, members @ [entry]) # groups
      else (k, members) # push_group qg entry groups)"

definition collect_sub :: "sub \<Rightarrow> snapshot list \<times> group_bucket list \<Rightarrow> snapshot list \<times> group_bucket list" where
  "collect_sub s = (\<lambda>(plain, groups).
     let entry = (conn_id s, sid s) in
     case queue_group s of
       Some qg \<Rightarrow> (plain, push_group qg entry groups)
     | None \<Rightarrow> (plain @ [entry], groups))"

text \<open>Encode one message into the scratch buffer and enqueue it on its connection.\<close>

definition deliver ::
  "('n \<Rightarrow> 'n) \<Rightarrow> bytes \<Rightarrow> bytes option \<Rightarrow> bytes \<Rightarrow> snapshot \<Rightarrow> 'n worker \<Rightarrow> 'n worker option" where
  "deliver notify_one subject reply_to payload = (\<lambda>(cid, sub_id) w. do {
     (res, scratch) \<leftarrow> emit_msg subject sub_id reply_to payload (emit_scratch w);
     let w1 = w\<lparr>emit_scratch := scratch\<rparr>;
     case res of
       Inl e \<Rightarrow> Some w1
     | Inr n \<Rightarrow>
         (case lookup w1 cid of
            None \<Rightarrow> Some w1
          | Some a \<Rightarrow> do { out \<leftarrow> slice_to scratch n; enqueue_at notify_one a out w1 })
   })"

fun deliver_plain ::
  "('n \<Rightarrow> 'n) \<Rightarrow> bytes \<Rightarrow> bytes option \<Rightarrow> bytes \<Rightarrow> snapshot list \<Rightarrow> 'n worker \<Rightarrow> 'n worker option" where
  "deliver_plain notify_one subject reply_to payload [] w = Some w"
| "deliver_plain notify_one subject reply_to payload (e # es) w = do {
     w' \<leftarrow> deliver notify_one subject reply_to payload e w;
     deliver_plain notify_one subject reply_to payload es w'
   }"

fun deliver_groups ::
  "('n \<Rightarrow> 'n) \<Rightarrow> bytes \<Rightarrow> bytes option \<Rightarrow> bytes \<Rightarrow> group_bucket list \<Rightarrow> 'n worker \<Rightarrow> 'n worker option" where
  "deliver_groups notify_one subject reply_to payload [] w = Some w"
| "deliver_groups notify_one subject reply_to payload ((qg, members) # groups) w = do {
     (pick, w1) \<leftarrow> pick_index (length members) w;
     e \<leftarrow> index_get members pick;
     w2 \<leftarrow> deliver notify_one subject reply_to payload e w1;
     deliver_groups notify_one subject reply_to payload groups w2
   }"

definition dispatch_local ::
  "('n \<Rightarrow> 'n) \<Rightarrow> bytes \<Rightarrow> bytes option \<Rightarrow> bytes \<Rightarrow> 'n worker \<Rightarrow>
   ((subject_error + unit) \<times> 'n worker) option" where
  "dispatch_local notify_one subject reply_to payload w =
     (case for_each_match (table w) subject collect_sub ([], []) of
        Inl e \<Rightarrow> Some (Inl e, w)
      | Inr (plain, groups) \<Rightarrow> do {
          w1 \<leftarrow> deliver_plain notify_one subject reply_to payload plain w;
          w2 \<leftarrow> deliver_groups notify_one subject reply_to payload groups w1;
          Some (Inr (), w2)
        })"

section \<open>Publishing\<close>

text \<open>
  The loop over the peers.  The flags give the spurious failures of the push to each peer.
\<close>

fun push_peers ::
  "('w \<Rightarrow> 'w) \<Rightarrow> (nat \<Rightarrow> bool list) \<Rightarrow> nat \<Rightarrow> published_frame \<Rightarrow> nat list \<Rightarrow> bool \<Rightarrow> 'w fabric \<Rightarrow>
   (bool \<times> 'w fabric) option" where
  "push_peers wake spurious our_idx fr [] seen fab = Some (seen, fab)"
| "push_peers wake spurious our_idx fr (i # is) seen fab =
     (if i = our_idx then push_peers wake spurious our_idx fr is seen fab
      else do {
        ib \<leftarrow> index_get (peer_inboxes fab) i;
        (r, ib') \<leftarrow> push (spurious i) ib fr;
        let fab1 = fab\<lparr>peer_inboxes := (peer_inboxes fab)[i := ib']\<rparr>;
        case r of
          Inr was_empty \<Rightarrow>
            push_peers wake spurious our_idx fr is seen
              (if was_empty \<and> i < length (peer_wakers fab1)
               then fab1\<lparr>peer_wakers := (peer_wakers fab1)[i := wake (peer_wakers fab1 ! i)]\<rparr>
               else fab1)
        | Inl full \<Rightarrow> push_peers wake spurious our_idx fr is True fab1
      })"

definition handle_pub ::
  "('n \<Rightarrow> 'n) \<Rightarrow> ('w \<Rightarrow> 'w) \<Rightarrow> (nat \<Rightarrow> bool list) \<Rightarrow> bytes \<Rightarrow> bytes option \<Rightarrow> bytes \<Rightarrow> addr \<Rightarrow>
   'n worker \<Rightarrow> 'w fabric \<Rightarrow> ('n worker \<times> 'w fabric) option" where
  "handle_pub notify_one wake spurious subject reply_to payload a w fab = do {
     (r, w1) \<leftarrow> dispatch_local notify_one subject reply_to payload w;
     case r of
       Inl e \<Rightarrow> do {
         w2 \<leftarrow> emit_err_to notify_one a (subject_error_text e) w1;
         Some (w2, fab)
       }
     | Inr _ \<Rightarrow>
         if 1 < worker_shard_count fab then do {
           let fr = \<lparr>pf_subject = subject, pf_reply_to = reply_to, pf_payload = payload\<rparr>;
           (back_pressure_seen, fab1) \<leftarrow> push_peers wake spurious (unat (worker_shard w1)) fr
             [0..<length (peer_inboxes fab)] False fab;
           if back_pressure_seen then do {
             w2 \<leftarrow> emit_err_to notify_one a ''shard back-pressure'' w1;
             Some (w2, fab1)
           }
           else Some (w1, fab1)
         }
         else Some (w1, fab)
   }"

section \<open>Frames\<close>

type_synonym subscriptions = "(bytes \<times> bytes) list"

text \<open>\<open>state.id()\<close> of the connection at an address.\<close>

definition id_at :: "'n worker \<Rightarrow> addr \<Rightarrow> connection_id option" where
  "id_at w a = map_option state_id (index_get (states w) a)"

fun handle_frame ::
  "('n \<Rightarrow> 'n) \<Rightarrow> ('w \<Rightarrow> 'w) \<Rightarrow> (nat \<Rightarrow> bool list) \<Rightarrow> frame \<Rightarrow> addr \<Rightarrow> 'n worker \<Rightarrow> 'w fabric \<Rightarrow>
   subscriptions \<Rightarrow> ('n worker \<times> 'w fabric \<times> subscriptions) option" where
  "handle_frame notify_one wake spurious (Connect opts) a w fab subs = Some (w, fab, subs)"
| "handle_frame notify_one wake spurious Pong a w fab subs = Some (w, fab, subs)"
| "handle_frame notify_one wake spurious Ping a w fab subs = do {
     (res, buf) \<leftarrow> emit_pong (replicate 8 zero_byte);
     case res of
       Inl e \<Rightarrow> Some (w, fab, subs)
     | Inr n \<Rightarrow> do {
         out \<leftarrow> slice_to buf n;
         w1 \<leftarrow> enqueue_at notify_one a out w;
         Some (w1, fab, subs)
       }
   }"
| "handle_frame notify_one wake spurious (Sub subject group_opt sub_id) a w fab subs = do {
     cid \<leftarrow> id_at w a;
     let new_sub = \<lparr>conn_id = cid, sid = sub_id, queue_group = group_opt\<rparr>;
     (r, t) \<leftarrow> subscribe (table w) subject new_sub;
     let w1 = w\<lparr>table := t\<rparr>;
     case r of
       Inl e \<Rightarrow> do {
         w2 \<leftarrow> emit_err_to notify_one a (subject_error_text e) w1;
         Some (w2, fab, subs)
       }
     | Inr _ \<Rightarrow> Some (w1, fab, AList.update sub_id subject subs)
   }"
| "handle_frame notify_one wake spurious (Unsub sub_id max_msgs) a w fab subs =
     (if max_msgs \<noteq> None then do {
        w1 \<leftarrow> emit_err_to notify_one a ''UNSUB max_msgs not supported in v1'' w;
        Some (w1, fab, subs)
      }
      else
        (case map_of subs sub_id of
           None \<Rightarrow> Some (w, fab, subs)
         | Some subject \<Rightarrow> do {
             cid \<leftarrow> id_at w a;
             (removed, t) \<leftarrow> unsubscribe (table w) subject cid sub_id;
             Some (w\<lparr>table := t\<rparr>, fab, AList.delete sub_id subs)
           }))"
| "handle_frame notify_one wake spurious (Pub subject reply_to payload) a w fab subs =
     (if length payload > MAX_PAYLOAD_BYTES then do {
        w1 \<leftarrow> emit_err_to notify_one a ''maximum payload exceeded'' w;
        Some (w1, fab, subs)
      }
      else do {
        (w1, fab1) \<leftarrow> handle_pub notify_one wake spurious subject reply_to payload a w fab;
        Some (w1, fab1, subs)
      })"
| "handle_frame notify_one wake spurious fr a w fab subs = do {
     w1 \<leftarrow> emit_err_to notify_one a ''unexpected verb'' w;
     Some (w1, fab, subs)
   }"

end
