(* ===== verification/Connection.thy ===== *)
theory Connection
  imports Connection_State
begin

text \<open>
  The buffer pool of \<open>aulon-core/src/buffer_pool.rs\<close>, the eventfd pair of \<open>aulon-core/src/eventfd.rs\<close>
  and the typestate connection of \<open>aulon-core/src/connection.rs\<close>.  They wrap the \<open>tokio_uring\<close> library
  and the kernel, whose operations are arguments.  A failed \<open>expect\<close> is None.

  The lemmas show that a connection that is \<open>Active\<close> always has its buffer between two calls and
  that the buffer it was made with is the one it gives back, and that no descriptor is lost when
  the eventfd pair cannot be made.
\<close>

section \<open>The buffer pool\<close>

definition DEFAULT_BUFFER_SIZE :: nat where
  "DEFAULT_BUFFER_SIZE = 4096"

definition DEFAULT_POOL_CAPACITY :: nat where
  "DEFAULT_POOL_CAPACITY = 256"

record 'p buffer_pool =
  pool_inner :: 'p
  pool_buffer_size :: nat
  pool_capacity :: nat

text \<open>\<open>fixed_buf_pool\<close> is \<open>FixedBufPool::new\<close>, on zero-filled buffers.\<close>

definition new_pool :: "(bytes list \<Rightarrow> 'p) \<Rightarrow> nat \<Rightarrow> nat \<Rightarrow> 'p buffer_pool" where
  "new_pool fixed_buf_pool capacity buf_size =
     \<lparr>pool_inner = fixed_buf_pool (map (\<lambda>i. replicate buf_size zero_byte) [0..<capacity]),
      pool_buffer_size = buf_size, pool_capacity = capacity\<rparr>"

definition register_pool :: "('p \<Rightarrow> ('e + unit) \<times> 'p) \<Rightarrow> 'p buffer_pool \<Rightarrow> ('e + unit) \<times> 'p buffer_pool" where
  "register_pool reg pool = (case reg (pool_inner pool) of (r, p) \<Rightarrow> (r, pool\<lparr>pool_inner := p\<rparr>))"

definition acquire :: "('p \<Rightarrow> nat \<Rightarrow> ('b \<times> 'p) option) \<Rightarrow> 'p buffer_pool \<Rightarrow> ('b \<times> 'p buffer_pool) option" where
  "acquire try_next pool =
     map_option (\<lambda>(b, p). (b, pool\<lparr>pool_inner := p\<rparr>)) (try_next (pool_inner pool) (pool_buffer_size pool))"

text \<open>One poll of \<open>acquire_async\<close>: None while no buffer is available.\<close>

definition acquire_async :: "('p \<Rightarrow> nat \<Rightarrow> ('b \<times> 'p) option) \<Rightarrow> 'p buffer_pool \<Rightarrow> ('b \<times> 'p buffer_pool) option" where
  "acquire_async next_buf pool =
     map_option (\<lambda>(b, p). (b, pool\<lparr>pool_inner := p\<rparr>)) (next_buf (pool_inner pool) (pool_buffer_size pool))"

text \<open>Dropping a buffer gives it back.\<close>

definition release :: "('b \<Rightarrow> 'p \<Rightarrow> 'p) \<Rightarrow> 'b \<Rightarrow> 'p buffer_pool \<Rightarrow> 'p buffer_pool" where
  "release give_back b pool = pool\<lparr>pool_inner := give_back b (pool_inner pool)\<rparr>"

section \<open>The eventfd pair\<close>

record eventfd_reader =
  reader_file :: int

record eventfd_waker =
  waker_fd :: int

text \<open>
  \<open>efd\<close> is what \<open>eventfd(2)\<close> returns, \<open>dup_of\<close> is \<open>dup(2)\<close>, and the errors are \<open>last_os_error\<close> after each.
  The list has the descriptors that were closed again.
\<close>

definition eventfd_pair ::
  "int \<Rightarrow> (int \<Rightarrow> int) \<Rightarrow> 'e \<Rightarrow> 'e \<Rightarrow> ('e + eventfd_reader \<times> eventfd_waker) \<times> int list" where
  "eventfd_pair efd dup_of err_eventfd err_dup =
     (if efd < 0 then (Inl err_eventfd, [])
      else
        let dup = dup_of efd in
        if dup < 0 then (Inl err_dup, [efd])
        else (Inr (\<lparr>reader_file = efd\<rparr>, \<lparr>waker_fd = dup\<rparr>), []))"

text \<open>\<open>write_fd\<close> is \<open>write(2)\<close> of the eight bytes of the number one.\<close>

definition eventfd_wake :: "(int \<Rightarrow> u64 \<Rightarrow> int) \<Rightarrow> 'e \<Rightarrow> eventfd_waker \<Rightarrow> 'e + unit" where
  "eventfd_wake write_fd err w = (let n = write_fd (waker_fd w) 1 in if n < 0 then Inl err else Inr ())"

text \<open>The descriptors that a call opened and did not close are those its result owns.\<close>

definition opened :: "int \<Rightarrow> (int \<Rightarrow> int) \<Rightarrow> int list" where
  "opened efd dup_of = (if efd < 0 then [] else if dup_of efd < 0 then [efd] else [efd, dup_of efd])"

fun owned :: "'e + eventfd_reader \<times> eventfd_waker \<Rightarrow> int list" where
  "owned (Inl e) = []"
| "owned (Inr (r, w)) = [reader_file r, waker_fd w]"

lemma eventfd_pair_owned:
  "eventfd_pair efd dup_of e1 e2 = (res, closed) \<Longrightarrow> mset (opened efd dup_of) = mset (owned res @ closed)"
  by (auto simp: eventfd_pair_def opened_def Let_def split: if_splits)

section \<open>The connection\<close>

text \<open>The type parameter of the connection is its lifecycle state; the enums have no values.\<close>

datatype lifecycle = Active | Closing

record ('s, 'b) connection =
  conn_lifecycle :: lifecycle
  conn_stream :: 's
  conn_buffer :: "'b option"

datatype read_outcome = BytesRead nat | PeerHalfClosed

definition new_connection :: "'s \<Rightarrow> 'b \<Rightarrow> ('s, 'b) connection" where
  "new_connection s b = \<lparr>conn_lifecycle = Active, conn_stream = s, conn_buffer = Some b\<rparr>"

definition connection_read ::
  "('s \<Rightarrow> 'b \<Rightarrow> ('e + nat) \<times> 'b \<times> 's) \<Rightarrow> ('s, 'b) connection \<Rightarrow>
   (('e + read_outcome) \<times> ('s, 'b) connection) option" where
  "connection_read read_fixed c = do {
     b \<leftarrow> conn_buffer c;
     let (res, returned, s) = read_fixed (conn_stream c) b;
     let c' = c\<lparr>conn_stream := s, conn_buffer := Some returned\<rparr>;
     Some (case res of
         Inl e \<Rightarrow> Inl e
       | Inr n \<Rightarrow> Inr (if n = 0 then PeerHalfClosed else BytesRead n), c')
   }"

text \<open>\<open>slice_buf\<close> is \<open>slice(..len)\<close>, which panics past the end, and \<open>into_inner\<close> undoes it.\<close>

definition connection_write_all ::
  "('b \<Rightarrow> nat \<Rightarrow> 'sl option) \<Rightarrow> ('sl \<Rightarrow> 'b) \<Rightarrow> ('s \<Rightarrow> 'sl \<Rightarrow> ('e + unit) \<times> 'sl \<times> 's) \<Rightarrow> nat \<Rightarrow> ('s, 'b) connection \<Rightarrow>
   (('e + unit) \<times> ('s, 'b) connection) option" where
  "connection_write_all slice_buf into_inner write_fixed_all len c = do {
     b \<leftarrow> conn_buffer c;
     sl \<leftarrow> slice_buf b len;
     let (res, sl', s) = write_fixed_all (conn_stream c) sl;
     Some (res, c\<lparr>conn_stream := s, conn_buffer := Some (into_inner sl')\<rparr>)
   }"

definition connection_shutdown :: "('s, 'b) connection \<Rightarrow> (('s, 'b) connection \<times> 'b) option" where
  "connection_shutdown c = do {
     b \<leftarrow> conn_buffer c;
     Some (\<lparr>conn_lifecycle = Closing, conn_stream = conn_stream c, conn_buffer = None\<rparr>, b)
   }"

section \<open>The typestate\<close>

text \<open>What the lifecycle type says of the value.\<close>

definition conn_typed :: "lifecycle \<Rightarrow> ('s, 'b) connection \<Rightarrow> bool" where
  "conn_typed l c \<longleftrightarrow> conn_lifecycle c = l \<and> (conn_buffer c \<noteq> None \<longleftrightarrow> l = Active)"

text \<open>The calls that an active connection allows.\<close>

datatype conn_call = Read_Call | Write_Call nat

fun run_calls ::
  "('s \<Rightarrow> 'b \<Rightarrow> ('e + nat) \<times> 'b \<times> 's) \<Rightarrow> ('b \<Rightarrow> nat \<Rightarrow> 'sl option) \<Rightarrow> ('sl \<Rightarrow> 'b) \<Rightarrow>
   ('s \<Rightarrow> 'sl \<Rightarrow> ('e + unit) \<times> 'sl \<times> 's) \<Rightarrow> conn_call list \<Rightarrow> ('s, 'b) connection \<Rightarrow> ('s, 'b) connection option" where
  "run_calls rd sl inner wr [] c = Some c"
| "run_calls rd sl inner wr (Read_Call # calls) c = do {
     (r, c') \<leftarrow> connection_read rd c;
     run_calls rd sl inner wr calls c'
   }"
| "run_calls rd sl inner wr (Write_Call len # calls) c = do {
     (r, c') \<leftarrow> connection_write_all sl inner wr len c;
     run_calls rd sl inner wr calls c'
   }"

text \<open>
  The rent-return contract of the I/O operations: the buffer that is given out comes back, a slice
  up to the size of the buffer can be taken, and its buffer can be had back from it.
\<close>

definition rent_return ::
  "('s \<Rightarrow> 'b \<Rightarrow> ('e + nat) \<times> 'b \<times> 's) \<Rightarrow> ('b \<Rightarrow> nat \<Rightarrow> 'sl option) \<Rightarrow> ('sl \<Rightarrow> 'b) \<Rightarrow>
   ('s \<Rightarrow> 'sl \<Rightarrow> ('e + unit) \<times> 'sl \<times> 's) \<Rightarrow> ('b \<Rightarrow> nat) \<Rightarrow> ('b \<Rightarrow> nat) \<Rightarrow> bool" where
  "rent_return rd sl inner wr ident total_bytes \<longleftrightarrow>
     (\<forall>s b r b' s'. rd s b = (r, b', s') \<longrightarrow> ident b' = ident b \<and> total_bytes b' = total_bytes b) \<and>
     (\<forall>b len. len \<le> total_bytes b \<longrightarrow> (\<exists>x. sl b len = Some x \<and> inner x = b)) \<and>
     (\<forall>s x r x' s'. wr s x = (r, x', s') \<longrightarrow>
        ident (inner x') = ident (inner x) \<and> total_bytes (inner x') = total_bytes (inner x))"

lemma run_calls_typed:
  assumes "rent_return rd sl inner wr ident total_bytes"
    and "conn_typed Active c" "conn_buffer c = Some b" "\<forall>len. Write_Call len \<in> set calls \<longrightarrow> len \<le> total_bytes b"
  shows "\<exists>c' b'. run_calls rd sl inner wr calls c = Some c' \<and> conn_typed Active c' \<and> conn_buffer c' = Some b' \<and>
    ident b' = ident b \<and> total_bytes b' = total_bytes b"
  using assms(2-4)
proof (induction calls arbitrary: c b)
  case (Cons call calls)
  show ?case
  proof (cases call)
    case Read_Call
    obtain r b' s' where rd: "rd (conn_stream c) b = (r, b', s')" by (cases "rd (conn_stream c) b") auto
    let ?c = "c\<lparr>conn_stream := s', conn_buffer := Some b'\<rparr>"
    have "conn_typed Active ?c" using Cons.prems(1) by (simp add: conn_typed_def)
    with Cons.IH [of ?c b'] Cons.prems assms(1) rd Read_Call show ?thesis
      by (fastforce simp: connection_read_def rent_return_def)
  next
    case (Write_Call len)
    with Cons.prems(3) assms(1) obtain x where x: "sl b len = Some x" "inner x = b"
      unfolding rent_return_def by (metis list.set_intros(1))
    obtain r x' s' where wr: "wr (conn_stream c) x = (r, x', s')" by (cases "wr (conn_stream c) x") auto
    let ?c = "c\<lparr>conn_stream := s', conn_buffer := Some (inner x')\<rparr>"
    have "conn_typed Active ?c" using Cons.prems(1) by (simp add: conn_typed_def)
    with Cons.IH [of ?c "inner x'"] Cons.prems assms(1) wr x Write_Call show ?thesis
      by (fastforce simp: connection_write_all_def rent_return_def)
  qed
qed simp

section \<open>Properties\<close>

text \<open>C35. The typestate of a connection is sound: a connection made from a stream and a buffer is typed
  Active, every sequence of reads and of writes within the buffer runs without a failed \<open>expect\<close>
  and keeps that type, and the shutdown gives back the very buffer the connection was made with and
  leaves a connection typed Closing, which holds none.  The I/O operations are
  assumed to return the buffer they are given.\<close>

theorem connection_typestate:
  assumes "rent_return rd sl inner wr ident total_bytes"
    and "\<forall>len. Write_Call len \<in> set calls \<longrightarrow> len \<le> total_bytes b"
  shows "conn_typed Active (new_connection s b) \<and>
    (\<exists>c closing b'. run_calls rd sl inner wr calls (new_connection s b) = Some c \<and> conn_typed Active c \<and>
      connection_shutdown c = Some (closing, b') \<and> conn_typed Closing closing \<and>
      conn_stream closing = conn_stream c \<and> ident b' = ident b \<and> total_bytes b' = total_bytes b)"
proof -
  have new: "conn_typed Active (new_connection s b)" "conn_buffer (new_connection s b) = Some b"
    by (simp_all add: conn_typed_def new_connection_def)
  from run_calls_typed [OF assms(1) new assms(2)] obtain c b' where
    "run_calls rd sl inner wr calls (new_connection s b) = Some c" "conn_typed Active c" "conn_buffer c = Some b'"
    "ident b' = ident b" "total_bytes b' = total_bytes b" by blast
  with new(1) show ?thesis by (auto simp: connection_shutdown_def conn_typed_def)
qed

text \<open>A stream that gives the bytes \<open>s\<close> to read; a buffer is its number with its content.\<close>

theorem connection_typestate_witness:
  "let rd = (\<lambda>s (k, bs). (Inr (min (length s) 4) :: unit + nat, (k, take 4 (s @ bs)), drop 4 s));
       sl = (\<lambda>(k, bs) len. if len \<le> 4 then Some ((k :: nat, bs :: bytes), len) else None);
       wr = (\<lambda>s x. (Inr () :: unit + unit, x, s))
   in \<exists>c closing bs. run_calls rd sl fst wr [Read_Call, Write_Call 3, Read_Call] (new_connection ''abcdef'' (7, ''0000'')) = Some c \<and>
      connection_shutdown c = Some (closing, (7, bs)) \<and> conn_typed Closing closing"
proof -
  let ?rd = "\<lambda>s (k, bs). (Inr (min (length s) 4) :: unit + nat, (k, take 4 (s @ bs)), drop 4 s)"
  let ?sl = "\<lambda>(k, bs) len. if len \<le> 4 then Some ((k :: nat, bs :: bytes), len) else None"
  let ?wr = "\<lambda>s x. (Inr () :: unit + unit, x, s)"
  have "rent_return ?rd ?sl fst ?wr fst (\<lambda>b. 4)" by (auto simp: rent_return_def)
  from connection_typestate [OF this, where calls = "[Read_Call, Write_Call 3, Read_Call]" and b = "(7, ''0000'')" and s = "''abcdef''"]
  show ?thesis by (auto simp: Let_def)
qed

end
