(* ===== verification/Reader.thy ===== *)
theory Reader
  imports Worker Connection Parse
begin

text \<open>
  The accept loop, the reader task and the cross-shard drain task of \<open>aulon-server/src/main.rs\<close>.

  A task runs without interruption from one await to the next; each definition here is the code
  of such a piece, given what the await returned: a read of the socket, of the eventfd, or an
  accepted connection.  The operations of the buffer pool's library are arguments.
\<close>

section \<open>Accepting a connection\<close>

text \<open>
  One turn of the accept loop.  The new connection's state is put at the end of the store; the
  result is its address with the reader's and the writer's buffer, or None when the pool is
  exhausted and the peer is dropped.
\<close>

definition accept_conn ::
  "('p \<Rightarrow> nat \<Rightarrow> ('b \<times> 'p) option) \<Rightarrow> ('b \<Rightarrow> 'p \<Rightarrow> 'p) \<Rightarrow> 'n \<Rightarrow> 'n worker \<Rightarrow> 'p buffer_pool \<Rightarrow>
   (addr \<times> 'b \<times> 'b) option \<times> 'n worker \<times> 'p buffer_pool" where
  "accept_conn try_next give_back fresh w pool =
     (let (cid, w1) = next_id w in
      case acquire try_next pool of
        None \<Rightarrow> (None, w1, pool)
      | Some (read_buf, pool1) \<Rightarrow>
          (case acquire try_next pool1 of
             None \<Rightarrow> (None, w1, release give_back read_buf pool1)
           | Some (write_buf, pool2) \<Rightarrow>
               let a = length (states w1);
                   state = new_state fresh cid DEFAULT_OUTBOUND_CAPACITY
               in (Some (a, read_buf, write_buf),
                   w1\<lparr>states := states w1 @ [state], connections := (connections w1)(cid \<mapsto> a)\<rparr>, pool2)))"

section \<open>The reader task\<close>

definition SERVER_INFO_JSON :: bytes where
  \<open>SERVER_INFO_JSON = ''{"server_id":"aulon","server_name":"aulon","version":"0.0.1","host":"127.0.0.1","port":4222,"max_payload":1048576,"proto":1,"headers":false,"jetstream":false}''\<close>

datatype reader_pc = Starting | Reading | Finished

record reader_task =
  rpc :: reader_pc
  accum :: bytes
  subs_map :: subscriptions

definition reader_start :: reader_task where
  "reader_start = \<lparr>rpc = Starting, accum = [], subs_map = []\<rparr>"

definition mark_close_at :: "('n \<Rightarrow> 'n) \<Rightarrow> addr \<Rightarrow> close_reason \<Rightarrow> 'n worker \<Rightarrow> 'n worker option" where
  "mark_close_at notify_one a reason w = do {
     c \<leftarrow> index_get (states w) a;
     Some (w\<lparr>states := (states w)[a := mark_close notify_one c reason]\<rparr>)
   }"

text \<open>\<open>state.close_reason().is_some()\<close>.\<close>

definition closing_at :: "addr \<Rightarrow> 'n worker \<Rightarrow> bool option" where
  "closing_at a w = map_option (\<lambda>c. close_with c \<noteq> None) (index_get (states w) a)"

text \<open>The greeting, up to the first read.  When it cannot be encoded the task ends at once.\<close>

definition reader_greet ::
  "('n \<Rightarrow> 'n) \<Rightarrow> addr \<Rightarrow> reader_task \<Rightarrow> 'n worker \<Rightarrow> (reader_task \<times> 'n worker) option" where
  "reader_greet notify_one a t w = do {
     (res, buf) \<leftarrow> emit_info SERVER_INFO_JSON (replicate SHORT_FRAME_BUF zero_byte);
     case res of
       Inl e \<Rightarrow> do {
         w1 \<leftarrow> mark_close_at notify_one a ProtocolError w;
         Some (t\<lparr>rpc := Finished\<rparr>, w1)
       }
     | Inr n \<Rightarrow> do {
         out \<leftarrow> slice_to buf n;
         w1 \<leftarrow> enqueue_at notify_one a out w;
         Some (t\<lparr>rpc := Reading, accum := [], subs_map := []\<rparr>, w1)
       }
   }"

text \<open>
  The parse loop.  \<open>consumed_total\<close> is the loop's offset; the flags \<open>spurious\<close> may differ from frame
  to frame.  A loop that does not end gives None, as a panic does.
\<close>

partial_function (option) frames_loop ::
  "('n \<Rightarrow> 'n) \<Rightarrow> ('w \<Rightarrow> 'w) \<Rightarrow> (nat \<Rightarrow> nat \<Rightarrow> bool list) \<Rightarrow> addr \<Rightarrow> bytes \<Rightarrow> nat \<Rightarrow> 'n worker \<Rightarrow> 'w fabric \<Rightarrow>
   subscriptions \<Rightarrow> (nat \<times> 'n worker \<times> 'w fabric \<times> subscriptions) option" where
  "frames_loop notify_one wake spurious a buf consumed_total w fab subs = do {
     rest \<leftarrow> slice_from buf consumed_total;
     outcome \<leftarrow> parse_frame rest;
     (case outcome of
        Frame f consumed \<Rightarrow> do {
          (w1, fab1, subs1) \<leftarrow> handle_frame notify_one wake (spurious consumed_total) f a w fab subs;
          closing \<leftarrow> closing_at a w1;
          if closing then Some (consumed_total + consumed, w1, fab1, subs1)
          else frames_loop notify_one wake spurious a buf (consumed_total + consumed) w1 fab1 subs1
        }
      | NeedMore \<Rightarrow> Some (consumed_total, w, fab, subs)
      | Err e \<Rightarrow> do {
          w1 \<leftarrow> mark_close_at notify_one a ProtocolError w;
          Some (consumed_total, w1, fab, subs)
        })
   }"

text \<open>One turn of the read loop on the bytes of a read; the flag says whether the loop is left.\<close>

definition reader_chunk ::
  "('n \<Rightarrow> 'n) \<Rightarrow> ('w \<Rightarrow> 'w) \<Rightarrow> (nat \<Rightarrow> nat \<Rightarrow> bool list) \<Rightarrow> addr \<Rightarrow> bytes \<Rightarrow> reader_task \<Rightarrow> 'n worker \<Rightarrow> 'w fabric \<Rightarrow>
   (bool \<times> reader_task \<times> 'n worker \<times> 'w fabric) option" where
  "reader_chunk notify_one wake spurious a chunk t w fab =
     (let buf = accum t @ chunk in
      if length buf > MAX_FRAME_SIZE then do {
        w1 \<leftarrow> mark_close_at notify_one a ProtocolError w;
        Some (True, t\<lparr>accum := buf\<rparr>, w1, fab)
      }
      else do {
        (consumed_total, w1, fab1, subs1) \<leftarrow> frames_loop notify_one wake spurious a buf 0 w fab (subs_map t);
        buf1 \<leftarrow> (if 0 < consumed_total then slice_from buf consumed_total else Some buf);
        closing \<leftarrow> closing_at a w1;
        Some (closing, t\<lparr>accum := buf1, subs_map := subs1\<rparr>, w1, fab1)
      })"

text \<open>The code after the read loop.  The list gives the order in which the map is traversed.\<close>

fun unsubscribe_all ::
  "connection_id \<Rightarrow> subscriptions \<Rightarrow> subscription_trie \<Rightarrow> subscription_trie option" where
  "unsubscribe_all cid [] t = Some t"
| "unsubscribe_all cid ((sub_id, subject) # subs) t = do {
     (removed, t') \<leftarrow> unsubscribe t subject cid sub_id;
     unsubscribe_all cid subs t'
   }"

definition reader_cleanup :: "('n \<Rightarrow> 'n) \<Rightarrow> addr \<Rightarrow> subscriptions \<Rightarrow> 'n worker \<Rightarrow> 'n worker option" where
  "reader_cleanup notify_one a subs w = do {
     cid \<leftarrow> id_at w a;
     t \<leftarrow> unsubscribe_all cid subs (table w);
     mark_close_at notify_one a PeerClosed (w\<lparr>table := t, connections := (connections w)(cid := None)\<rparr>)
   }"

text \<open>From a completed read to the next one or the end of the task; an error is Inl.\<close>

definition reader_read ::
  "('n \<Rightarrow> 'n) \<Rightarrow> ('w \<Rightarrow> 'w) \<Rightarrow> (nat \<Rightarrow> nat \<Rightarrow> bool list) \<Rightarrow> addr \<Rightarrow> unit + bytes \<Rightarrow> reader_task \<Rightarrow> 'n worker \<Rightarrow>
   'w fabric \<Rightarrow> (reader_task \<times> 'n worker \<times> 'w fabric) option" where
  "reader_read notify_one wake spurious a read_res t w fab = do {
     (leave, t1, w1, fab1) \<leftarrow>
       (case read_res of
          Inr chunk \<Rightarrow>
            if 0 < length chunk then reader_chunk notify_one wake spurious a chunk t w fab
            else Some (True, t, w, fab)
        | Inl e \<Rightarrow> Some (True, t, w, fab));
     if leave then do {
       w2 \<leftarrow> reader_cleanup notify_one a (subs_map t1) w1;
       Some (t1\<lparr>rpc := Finished\<rparr>, w2, fab1)
     }
     else Some (t1, w1, fab1)
   }"

section \<open>The drain task\<close>

datatype drain_pc = EventfdRead | Draining | DrainExited

text \<open>After a read of the eventfd: any result but eight bytes ends the task.\<close>

definition drain_wake :: "unit + nat \<Rightarrow> drain_pc" where
  "drain_wake res = (if res = Inr 8 then Draining else DrainExited)"

text \<open>One turn of the drain loop: a frame is popped and dispatched, or the task reads again.\<close>

definition drain_turn ::
  "('n \<Rightarrow> 'n) \<Rightarrow> 'n worker \<Rightarrow> 'w fabric \<Rightarrow> (drain_pc \<times> 'n worker \<times> 'w fabric) option" where
  "drain_turn notify_one w fab = do {
     let our_idx = unat (worker_shard w);
     ib \<leftarrow> index_get (peer_inboxes fab) our_idx;
     (r, ib') \<leftarrow> pop ib;
     let fab1 = fab\<lparr>peer_inboxes := (peer_inboxes fab)[our_idx := ib']\<rparr>;
     case r of
       None \<Rightarrow> Some (EventfdRead, w, fab1)
     | Some fr \<Rightarrow> do {
         (res, w1) \<leftarrow> dispatch_local notify_one (pf_subject fr) (pf_reply_to fr) (pf_payload fr) w;
         Some (Draining, w1, fab1)
       }
   }"

text \<open>The loop, when no other shard pushes meanwhile.\<close>

partial_function (option) drain_while ::
  "('n \<Rightarrow> 'n) \<Rightarrow> 'n worker \<Rightarrow> 'w fabric \<Rightarrow> ('n worker \<times> 'w fabric) option" where
  "drain_while notify_one w fab = do {
     (pc, w1, fab1) \<leftarrow> drain_turn notify_one w fab;
     if pc = Draining then drain_while notify_one w1 fab1 else Some (w1, fab1)
   }"

end
