(* ===== verification/Subscription_Facts.thy ===== *)
theory Subscription_Facts
  imports Subscription
begin

text \<open>
  The specification of the subscription table and the proof that the trie implements it.

  A table is a collection of subscriptions, each a subject pattern with its subscriber; a pattern
  matches a published subject by the rules for \<open>*\<close> and \<open>>\<close>.  The trie's \<open>entries\<close> are that
  collection: subscribing adds one, unsubscribing filters, matching selects exactly the
  subscriptions whose pattern matches, each as often as it was made.
\<close>

section \<open>Specification\<close>

fun pattern_matches :: "token list \<Rightarrow> bytes list \<Rightarrow> bool" where
  "pattern_matches [] [] = True"
| "pattern_matches [Greater] (t # ts) = True"
| "pattern_matches (Star # ps) (t # ts) = pattern_matches ps ts"
| "pattern_matches (Literal b # ps) (t # ts) = (b = t \<and> pattern_matches ps ts)"
| "pattern_matches _ _ = False"

text \<open>Patterns as the validator lets them through.\<close>

fun valid_pattern :: "token list \<Rightarrow> bool" where
  "valid_pattern [] = False"
| "valid_pattern [t] = True"
| "valid_pattern (t # ts) = (t \<noteq> Greater \<and> valid_pattern ts)"

type_synonym subscription = "token list \<times> sub"

section \<open>The subscriptions of a trie\<close>

definition prefixed :: "token \<Rightarrow> subscription list \<Rightarrow> subscription list" where
  "prefixed t es = map (\<lambda>(p, s). (t # p, s)) es"

primrec entries :: "node \<Rightarrow> subscription list" where
  "entries (Node e r c st) =
     map (Pair []) e @ map (Pair [Greater]) r @
     concat (map (\<lambda>(k, es). prefixed (Literal k) es) (map (map_prod id entries) c)) @
     (case map_option entries st of None \<Rightarrow> [] | Some es \<Rightarrow> prefixed Star es)"

definition kids :: "(bytes \<times> node) list \<Rightarrow> subscription list" where
  "kids c = concat (map (\<lambda>(k, n). prefixed (Literal k) (entries n)) c)"

definition star_entries :: "node option \<Rightarrow> subscription list" where
  "star_entries st = (case st of None \<Rightarrow> [] | Some n \<Rightarrow> prefixed Star (entries n))"

lemma entries_Node:
  "entries (Node e r c st) = map (Pair []) e @ map (Pair [Greater]) r @ kids c @ star_entries st"
  by (auto simp: kids_def star_entries_def comp_def case_prod_unfold split: option.split)

declare entries.simps [simp del]

lemma kids_simps [simp]:
  "kids [] = []" "kids ((k, n) # c) = prefixed (Literal k) (entries n) @ kids c"
  "kids (c @ d) = kids c @ kids d"
  by (simp_all add: kids_def)

lemma star_entries_simps [simp]:
  "star_entries None = []" "star_entries (Some n) = prefixed Star (entries n)"
  by (simp_all add: star_entries_def)

lemma prefixed_simps [simp]:
  "prefixed t [] = []" "prefixed t (xs @ ys) = prefixed t xs @ prefixed t ys"
  "prefixed t ((p, s) # es) = (t # p, s) # prefixed t es" "length (prefixed t es) = length es"
  by (simp_all add: prefixed_def)

lemma entries_empty [simp]: "entries empty_node = []"
  by (simp add: empty_node_def entries_Node)

text \<open>The invariant: keys are distinct and no node below the root is empty.\<close>

primrec wf_node :: "node \<Rightarrow> bool" where
  "wf_node (Node e r c st) \<longleftrightarrow>
     distinct (map fst c) \<and>
     list_all (\<lambda>(k, n, w). \<not> node_is_empty n \<and> w) (map (map_prod id (\<lambda>n. (n, wf_node n))) c) \<and>
     (case map_option (\<lambda>n. (n, wf_node n)) st of None \<Rightarrow> True | Some (n, w) \<Rightarrow> \<not> node_is_empty n \<and> w)"

lemma wf_Node:
  "wf_node (Node e r c st) \<longleftrightarrow>
     distinct (map fst c) \<and> (\<forall>(k, n)\<in>set c. \<not> node_is_empty n \<and> wf_node n) \<and>
     (\<forall>n\<in>set_option st. \<not> node_is_empty n \<and> wf_node n)"
  by (auto simp: list_all_iff split: option.split)

declare wf_node.simps [simp del]

lemma wf_empty_node [simp]: "wf_node empty_node"
  by (simp add: empty_node_def wf_Node)

lemma wf_child: "wf_node (Node e r c st) \<Longrightarrow> map_of c k = Some n \<Longrightarrow> wf_node n \<and> \<not> node_is_empty n"
  by (auto simp: wf_Node dest!: map_of_SomeD)

lemma wf_star: "wf_node (Node e r c (Some n)) \<Longrightarrow> wf_node n \<and> \<not> node_is_empty n"
  by (auto simp: wf_Node)

text \<open>A node of a well-formed trie is empty exactly when nothing is subscribed below it.\<close>

lemma node_induct [case_names Node]:
  assumes "\<And>e r c st. (\<And>k n. (k, n) \<in> set c \<Longrightarrow> P n) \<Longrightarrow> (\<And>n. st = Some n \<Longrightarrow> P n) \<Longrightarrow>
    P (Node e r c st)"
  shows "P n"
  by (induction n) (use assms in auto)

lemma entries_Nil_iff: "wf_node n \<Longrightarrow> entries n = [] \<longleftrightarrow> node_is_empty n"
proof (induction n rule: node_induct)
  case (Node e r c st)
  have "kids c = [] \<longleftrightarrow> c = []"
  proof (cases c)
    case (Cons a c')
    obtain k n where a: "a = (k, n)" by force
    with Node.prems Node.IH(1) [of k n] Cons have "entries n \<noteq> []"
      by (auto simp: wf_Node)
    then have "prefixed (Literal k) (entries n) \<noteq> []" by (simp add: prefixed_def)
    with Cons a show ?thesis by simp
  qed simp
  moreover have "star_entries st = [] \<longleftrightarrow> st = None"
    using Node by (cases st) (auto simp: wf_Node prefixed_def)
  ultimately show ?case
    by (simp add: entries_Node node_is_empty_def)
qed

section \<open>Children\<close>

lemma map_of_split:
  assumes "distinct (map fst c)" "map_of c k = Some n"
  obtains xs ys where "c = xs @ (k, n) # ys" "k \<notin> fst ` set xs" "k \<notin> fst ` set ys"
proof -
  from assms(2) have "(k, n) \<in> set c" by (rule map_of_SomeD)
  then obtain xs ys where "c = xs @ (k, n) # ys" by (meson split_list)
  with assms(1) that show thesis by auto
qed

lemma update_split: "k \<notin> fst ` set xs \<Longrightarrow> AList.update k v (xs @ (k, n) # ys) = xs @ (k, v) # ys"
  by (induction xs) auto

lemma update_new: "k \<notin> fst ` set c \<Longrightarrow> AList.update k v c = c @ [(k, v)]"
  by (induction c) auto

lemma delete_absent: "k \<notin> fst ` set xs \<Longrightarrow> AList.delete k xs = xs"
  by (induction xs) auto

lemma delete_append: "AList.delete k (xs @ ys) = AList.delete k xs @ AList.delete k ys"
  by (induction xs) auto

lemma delete_split:
  "k \<notin> fst ` set xs \<Longrightarrow> k \<notin> fst ` set ys \<Longrightarrow> AList.delete k (xs @ (k, n) # ys) = xs @ ys"
  by (simp add: delete_append delete_absent)

lemma wf_update:
  assumes "wf_node (Node e r c st)" "wf_node n" "\<not> node_is_empty n"
  shows "wf_node (Node e r (AList.update k n c) st)"
proof -
  have "set (AList.update k n c) \<subseteq> insert (k, n) (set c)"
    by (induction c) auto
  with assms show ?thesis
    by (auto simp: wf_Node distinct_update)
qed

lemma wf_delete: "wf_node (Node e r c st) \<Longrightarrow> wf_node (Node e r (AList.delete k c) st)"
  by (auto simp: wf_Node AList.delete_eq distinct_map_filter)

lemma mset_prefixed: "mset (prefixed t es) = image_mset (\<lambda>(p, s). (t # p, s)) (mset es)"
  by (simp add: prefixed_def)

section \<open>Subscribe adds one entry\<close>

lemma push_exact_facts:
  "mset (entries (push_exact n s)) = add_mset ([], s) (mset (entries n))"
  "wf_node (push_exact n s) = wf_node n" "\<not> node_is_empty (push_exact n s)"
  by (cases n; simp add: push_exact_def entries_Node wf_Node node_is_empty_def)+

text \<open>The child that the loop enters or creates.\<close>

lemma kids_update:
  assumes "distinct (map fst c)"
    and "mset (entries n') =
      add_mset (p, s) (mset (entries (case map_of c b of None \<Rightarrow> empty_node | Some n \<Rightarrow> n)))"
  shows "mset (kids (AList.update b n' c)) = add_mset (Literal b # p, s) (mset (kids c))"
proof (cases "map_of c b")
  case None
  then have "b \<notin> fst ` set c" by (simp add: map_of_eq_None_iff)
  with assms(2) None show ?thesis by (simp add: update_new mset_prefixed)
next
  case (Some n)
  from map_of_split [OF assms(1) Some] obtain xs ys where
    "c = xs @ (b, n) # ys" "b \<notin> fst ` set xs" "b \<notin> fst ` set ys" .
  with assms(2) Some show ?thesis by (simp add: update_split mset_prefixed)
qed

lemma subscribe_loop_correct:
  "wf_node n \<Longrightarrow> valid_pattern ts \<Longrightarrow>
   \<exists>n'. subscribe_loop n ts s = Some n' \<and> wf_node n' \<and> \<not> node_is_empty n' \<and>
     mset (entries n') = add_mset (ts, s) (mset (entries n))"
proof (induction n ts s rule: subscribe_loop.induct)
  case (1 n s)
  then show ?case by simp
next
  case (2 e r c st ts s)
  then have "ts = []" by (cases ts) auto
  with 2 show ?case by (auto simp: entries_Node wf_Node node_is_empty_def)
next
  case (3 e r c st ts s)
  let ?ch = "case st of None \<Rightarrow> empty_node | Some ch \<Rightarrow> ch"
  have wf: "wf_node ?ch" using 3 by (auto simp: wf_Node split: option.split)
  have star: "mset (star_entries st) = image_mset (\<lambda>(p, s). (Star # p, s)) (mset (entries ?ch))"
    by (cases st) (simp_all add: mset_prefixed)
  have "\<exists>n'. (if ts = [] then Some (push_exact ?ch s) else subscribe_loop ?ch ts s) = Some n' \<and>
      wf_node n' \<and> \<not> node_is_empty n' \<and> mset (entries n') = add_mset (ts, s) (mset (entries ?ch))"
  proof (cases ts)
    case Nil
    then show ?thesis using wf by (simp add: push_exact_facts)
  next
    case (Cons t ts')
    with "3.prems" wf show ?thesis using "3.IH" [of ?ch] by simp
  qed
  then obtain n' where n': "(if ts = [] then Some (push_exact ?ch s) else subscribe_loop ?ch ts s) = Some n'"
      "wf_node n'" "\<not> node_is_empty n'" "mset (entries n') = add_mset (ts, s) (mset (entries ?ch))"
    by blast
  then have "subscribe_loop (Node e r c st) (Star # ts) s = Some (Node e r c (Some n'))"
    by (auto simp: Let_def split: if_splits)
  with n' "3.prems" star show ?case
    by (auto simp: entries_Node wf_Node node_is_empty_def mset_prefixed)
next
  case (4 e r c st b ts s)
  let ?ch = "case map_of c b of None \<Rightarrow> empty_node | Some ch \<Rightarrow> ch"
  have wf: "wf_node ?ch" using 4 by (auto split: option.split dest: wf_child)
  have "\<exists>n'. (if ts = [] then Some (push_exact ?ch s) else subscribe_loop ?ch ts s) = Some n' \<and>
      wf_node n' \<and> \<not> node_is_empty n' \<and> mset (entries n') = add_mset (ts, s) (mset (entries ?ch))"
  proof (cases ts)
    case Nil
    then show ?thesis using wf by (simp add: push_exact_facts)
  next
    case (Cons t ts')
    with "4.prems" wf show ?thesis using "4.IH" [of ?ch] by simp
  qed
  then obtain n' where n': "(if ts = [] then Some (push_exact ?ch s) else subscribe_loop ?ch ts s) = Some n'"
      "wf_node n'" "\<not> node_is_empty n'" "mset (entries n') = add_mset (ts, s) (mset (entries ?ch))"
    by blast
  then have "subscribe_loop (Node e r c st) (Literal b # ts) s = Some (Node e r (AList.update b n' c) st)"
    by (auto simp: Let_def split: if_splits)
  moreover have "mset (kids (AList.update b n' c)) = add_mset (Literal b # ts, s) (mset (kids c))"
    using n' "4.prems" by (intro kids_update) (simp_all add: wf_Node)
  moreover have "AList.update b n' c \<noteq> []" by (cases c) auto
  ultimately show ?case
    using n' "4.prems" by (auto simp: entries_Node node_is_empty_def intro: wf_update)
qed

section \<open>Unsubscribe filters the entries\<close>

definition survives :: "token list \<Rightarrow> connection_id \<Rightarrow> bytes \<Rightarrow> subscription \<Rightarrow> bool" where
  "survives ts c i = (\<lambda>(p, s). \<not> (p = ts \<and> owned_by c i s))"

definition hit :: "token list \<Rightarrow> connection_id \<Rightarrow> bytes \<Rightarrow> subscription list \<Rightarrow> bool" where
  "hit ts c i es \<longleftrightarrow> (\<exists>s. (ts, s) \<in> set es \<and> owned_by c i s)"

lemma survives_Nil: "\<not> hit ts c i es \<Longrightarrow> filter (survives ts c i) es = es"
  by (auto simp: hit_def survives_def intro!: filter_True)

lemma hit_append [simp]: "hit ts c i (xs @ ys) \<longleftrightarrow> hit ts c i xs \<or> hit ts c i ys"
  by (auto simp: hit_def)

lemma hit_prefixed [simp]:
  "hit (t # ts) c i (prefixed t' es) \<longleftrightarrow> t = t' \<and> hit ts c i es" "\<not> hit [] c i (prefixed t' es)"
  by (auto simp: hit_def prefixed_def)

lemma hit_bucket [simp]:
  "hit ts c i (map (Pair p) b) \<longleftrightarrow> ts = p \<and> (\<exists>s\<in>set b. owned_by c i s)"
  by (auto simp: hit_def)

lemma hit_Nil [simp]: "\<not> hit ts c i []"
  by (simp add: hit_def)

lemma filter_prefixed [simp]:
  "filter (survives (t # ts) c i) (prefixed t' es) =
     (if t = t' then prefixed t (filter (survives ts c i) es) else prefixed t' es)"
  "filter (survives [] c i) (prefixed t' es) = prefixed t' es"
  by (induction es) (auto simp: survives_def)

lemma filter_bucket [simp]:
  "filter (survives ts c i) (map (Pair p) b) =
     map (Pair p) (if ts = p then filter (\<lambda>s. \<not> owned_by c i s) b else b)"
  by (induction b) (auto simp: survives_def)

text \<open>A list of children without a key is not touched.\<close>

lemma kids_absent:
  assumes "b \<notin> fst ` set c"
  shows "\<not> hit (Literal b # ts) cn i (kids c)"
    and "filter (survives (Literal b # ts) cn i) (kids c) = kids c"
proof -
  show "\<not> hit (Literal b # ts) cn i (kids c)"
    using assms by (induction c) (auto split: prod.split)
  then show "filter (survives (Literal b # ts) cn i) (kids c) = kids c"
    by (rule survives_Nil)
qed

lemma kids_other:
  assumes "t = Star \<or> t = Greater"
  shows "\<not> hit (t # ts) cn i (kids c)" "filter (survives (t # ts) cn i) (kids c) = kids c"
    "\<not> hit [] cn i (kids c)" "filter (survives [] cn i) (kids c) = kids c"
proof -
  show "\<not> hit (t # ts) cn i (kids c)" "\<not> hit [] cn i (kids c)"
    using assms by (induction c) (auto split: prod.split)
  then show "filter (survives (t # ts) cn i) (kids c) = kids c"
    "filter (survives [] cn i) (kids c) = kids c"
    by (auto intro: survives_Nil)
qed

lemma star_other:
  assumes "t \<noteq> Star"
  shows "\<not> hit (t # ts) c i (star_entries st)"
    "filter (survives (t # ts) c i) (star_entries st) = star_entries st"
    "\<not> hit [] c i (star_entries st)" "filter (survives [] c i) (star_entries st) = star_entries st"
  using assms by (cases st; simp)+

lemma kids_hit:
  assumes "distinct (map fst c)" "map_of c b = Some n"
  shows "hit (Literal b # ts) cn i (kids c) \<longleftrightarrow> hit ts cn i (entries n)"
  using map_of_split [OF assms] kids_absent(1) by (metis hit_append hit_prefixed(1) kids_simps(2,3))

text \<open>Replacing or deleting the child that was walked.\<close>

lemma kids_filter:
  assumes "distinct (map fst c)" "map_of c b = Some n"
    and "entries n' = filter (survives ts cn i) (entries n)" "wf_node n'"
  shows "kids (if node_is_empty n' then AList.delete b c else AList.update b n' c) =
    filter (survives (Literal b # ts) cn i) (kids c)"
proof -
  from map_of_split [OF assms(1,2)] obtain xs ys where
    c: "c = xs @ (b, n) # ys" "b \<notin> fst ` set xs" "b \<notin> fst ` set ys" .
  have "node_is_empty n' \<Longrightarrow> entries n' = []" using assms(4) by (simp add: entries_Nil_iff)
  with c assms(3) show ?thesis
    by (auto simp: update_split delete_split kids_absent)
qed

definition removal :: "nat \<Rightarrow> bool \<Rightarrow> nat" where
  "removal tot removed = (if removed then tot - 1 else tot)"

lemma retain_bucket_eq:
  "((\<exists>s\<in>set b. owned_by c i s) \<longrightarrow> 0 < tot) \<Longrightarrow>
   retain_bucket b c i tot = Some (\<exists>s\<in>set b. owned_by c i s, filter (\<lambda>s. \<not> owned_by c i s) b,
     removal tot (\<exists>s\<in>set b. owned_by c i s))"
proof -
  have "length (filter (\<lambda>s. \<not> owned_by c i s) b) \<noteq> length b \<longleftrightarrow> (\<exists>s\<in>set b. owned_by c i s)"
    by (metis (no_types, lifting) filter_True filter_id_conv length_filter_less less_irrefl)
  then show "((\<exists>s\<in>set b. owned_by c i s) \<longrightarrow> 0 < tot) \<Longrightarrow> ?thesis"
    by (auto simp: retain_bucket_def removal_def usize_sub_def Let_def)
qed

definition walked :: "node \<Rightarrow> token list \<Rightarrow> connection_id \<Rightarrow> bytes \<Rightarrow> nat \<Rightarrow>
    (bool \<times> node \<times> nat) option \<Rightarrow> bool" where
  "walked n ts c i tot result \<longleftrightarrow>
     (\<exists>n'. result = Some (hit ts c i (entries n), n', removal tot (hit ts c i (entries n))) \<and>
        wf_node n' \<and> entries n' = filter (survives ts c i) (entries n))"

lemma unsubscribe_walk_correct:
  "wf_node n \<Longrightarrow> valid_pattern ts \<Longrightarrow> (hit ts c i (entries n) \<longrightarrow> 0 < tot) \<Longrightarrow>
     walked n ts c i tot (unsubscribe_walk n ts c i tot)"
  "wf_node n \<Longrightarrow> ts = [] \<or> valid_pattern ts \<Longrightarrow> (hit ts c i (entries n) \<longrightarrow> 0 < tot) \<Longrightarrow>
     walked n ts c i tot (step_or_remove n ts c i tot)"
proof (induction n ts c i tot and n ts c i tot rule: unsubscribe_walk_step_or_remove.induct)
  case (1 n c i tot)
  then show ?case by simp
next
  case (2 e r ch st ts c i tot)
  then have ts: "ts = []" by (cases ts) auto
  have h: "hit [Greater] c i (entries (Node e r ch st)) \<longleftrightarrow> (\<exists>s\<in>set r. owned_by c i s)"
    by (simp add: entries_Node kids_other star_other)
  with 2 ts show ?case
    by (simp add: walked_def retain_bucket_eq entries_Node kids_other star_other wf_Node)
next
  case (3 e r ch st b ts c i tot)
  have ts: "ts = [] \<or> valid_pattern ts" using "3.prems"(2) by (cases ts) auto
  have d: "distinct (map fst ch)" using "3.prems"(1) by (simp add: wf_Node)
  show ?case
  proof (cases "map_of ch b")
    case None
    then have "b \<notin> fst ` set ch" by (simp add: map_of_eq_None_iff)
    with None "3.prems" show ?thesis
      by (simp add: walked_def entries_Node kids_absent star_other removal_def)
  next
    case (Some n)
    have h: "hit (Literal b # ts) c i (entries (Node e r ch st)) \<longleftrightarrow> hit ts c i (entries n)"
      by (simp add: entries_Node star_other kids_hit [OF d Some])
    from "3.IH" [OF Some] wf_child [OF "3.prems"(1) Some] ts "3.prems"(3) h obtain n' where n':
      "step_or_remove n ts c i tot =
         Some (hit ts c i (entries n), n', removal tot (hit ts c i (entries n)))"
      "wf_node n'" "entries n' = filter (survives ts c i) (entries n)"
      by (auto simp: walked_def)
    have "wf_node (Node e r (if node_is_empty n' then AList.delete b ch else AList.update b n' ch) st)"
      using "3.prems"(1) n'(2) by (simp add: wf_delete wf_update)
    with Some n' h kids_filter [OF d Some n'(3,2)] show ?thesis
      by (simp add: walked_def entries_Node star_other)
  qed
next
  case (4 e r ch st ts c i tot)
  have ts: "ts = [] \<or> valid_pattern ts" using "4.prems"(2) by (cases ts) auto
  show ?case
  proof (cases st)
    case None
    with "4.prems" show ?thesis
      by (simp add: walked_def entries_Node kids_other removal_def)
  next
    case (Some n)
    have h: "hit (Star # ts) c i (entries (Node e r ch st)) \<longleftrightarrow> hit ts c i (entries n)"
      by (simp add: entries_Node kids_other Some)
    have "wf_node n" using "4.prems"(1) Some wf_star by blast
    with "4.IH" [OF Some] ts "4.prems"(3) h obtain n' where n':
      "step_or_remove n ts c i tot =
         Some (hit ts c i (entries n), n', removal tot (hit ts c i (entries n)))"
      "wf_node n'" "entries n' = filter (survives ts c i) (entries n)"
      by (auto simp: walked_def)
    moreover have "node_is_empty n' \<Longrightarrow> entries n' = []" using n'(2) by (simp add: entries_Nil_iff)
    ultimately show ?thesis
      using Some h "4.prems"(1) by (auto simp: walked_def entries_Node kids_other wf_Node)
  qed
next
  case (5 child ts c i tot)
  show ?case
  proof (cases "ts = []")
    case True
    have h: "hit [] c i (entries child) \<longleftrightarrow> (\<exists>s\<in>set (exact child). owned_by c i s)"
      by (cases child) (simp add: entries_Node kids_other [of Star] star_other [of Greater])
    with True 5 show ?thesis
      by (cases child) (simp add: walked_def retain_bucket_eq entries_Node wf_Node
          kids_other [of Star] star_other [of Greater])
  next
    case False
    with 5 show ?thesis by simp
  qed
qed

section \<open>Match selects the entries\<close>

definition selected :: "bytes list \<Rightarrow> subscription list \<Rightarrow> sub list" where
  "selected ts es = map snd (filter (\<lambda>(p, s). pattern_matches p ts) es)"

lemma selected_simps [simp]:
  "selected ts [] = []" "selected ts (xs @ ys) = selected ts xs @ selected ts ys"
  by (simp_all add: selected_def)

lemma selected_bucket [simp]:
  "selected ts (map (Pair p) b) = (if pattern_matches p ts then b else [])"
  by (induction b) (auto simp: selected_def)

lemma selected_prefixed [simp]:
  "selected [] (prefixed t es) = []"
  "selected (b # ts) (prefixed Star es) = selected ts es"
  "selected (b # ts) (prefixed (Literal k) es) = (if k = b then selected ts es else [])"
  by (induction es) (auto simp: selected_def)

lemma selected_kids_absent: "b \<notin> fst ` set c \<Longrightarrow> selected (b # ts) (kids c) = []"
  by (induction c) (auto split: prod.split)

lemma selected_kids_Nil [simp]: "selected [] (kids c) = []"
  by (induction c) (auto split: prod.split)

lemma selected_kids:
  assumes "distinct (map fst c)"
  shows "selected (b # ts) (kids c) =
    (case map_of c b of None \<Rightarrow> [] | Some n \<Rightarrow> selected ts (entries n))"
proof (cases "map_of c b")
  case None
  then have "b \<notin> fst ` set c" by (simp add: map_of_eq_None_iff)
  with None show ?thesis by (simp add: selected_kids_absent)
next
  case (Some n)
  from map_of_split [OF assms Some] obtain xs ys where
    "c = xs @ (b, n) # ys" "b \<notin> fst ` set xs" "b \<notin> fst ` set ys" .
  with Some show ?thesis by (simp add: selected_kids_absent)
qed

lemma walk_match_eq:
  "wf_node n \<Longrightarrow> walk_match n ts f x = fold f (selected ts (entries n)) x"
proof (induction ts arbitrary: n x)
  case Nil
  then show ?case by (cases n; cases "star n") (auto simp: entries_Node)
next
  case (Cons t ts)
  obtain e r c st where n: "n = Node e r c st" by (cases n)
  from Cons.prems n have d: "distinct (map fst c)" by (simp add: wf_Node)
  have "\<And>ch x. map_of c t = Some ch \<Longrightarrow> walk_match ch ts f x = fold f (selected ts (entries ch)) x"
    using Cons.IH wf_child Cons.prems n by blast
  moreover have "\<And>ch x. st = Some ch \<Longrightarrow> walk_match ch ts f x = fold f (selected ts (entries ch)) x"
    using Cons.IH wf_star Cons.prems n by blast
  ultimately show ?case
    unfolding n by (auto simp: entries_Node selected_kids [OF d] Let_def split: option.split)
qed

section \<open>The subject validators\<close>

text \<open>What the two validators accept, and which error they report.\<close>

definition subject_pattern :: "bytes \<Rightarrow> subject_error + token list" where
  "subject_pattern s =
     (let ts = split_on is_dot s in
      if s = [] then Inl Empty
      else if [] \<in> set ts then Inl EmptyToken
      else if Greater \<in> set (butlast (map classify ts)) then Inl InvalidGreaterPosition
      else Inr (map classify ts))"

definition subject_name :: "bytes \<Rightarrow> subject_error + bytes list" where
  "subject_name s =
     (if s = [] then Inl Empty
      else case find (\<lambda>t. t \<in> {[], ''*'', ''>''}) (split_on is_dot s) of
        None \<Rightarrow> Inr (split_on is_dot s)
      | Some t \<Rightarrow> Inl (if t = [] then EmptyToken else WildcardInPublish))"

lemma push_tokens_eq:
  "push_tokens ts toks = (if [] \<in> set ts then Inl EmptyToken else Inr (toks @ map classify ts))"
  by (induction ts arbitrary: toks) auto

lemma greater_before_last:
  "ts \<noteq> [] \<Longrightarrow> (\<exists>(i, t) \<in> set (enumerate 0 ts). t = Greater \<and> i \<noteq> length ts - 1) \<longleftrightarrow>
     Greater \<in> set (butlast ts)"
proof -
  have "Greater \<in> set (butlast ts) \<longleftrightarrow> (\<exists>i < length ts - 1. ts ! i = Greater)"
    by (auto simp: in_set_conv_nth nth_butlast)
  moreover have "(\<exists>(i, t) \<in> set (enumerate 0 ts). t = Greater \<and> i \<noteq> length ts - 1) \<longleftrightarrow>
      (\<exists>i < length ts. ts ! i = Greater \<and> i \<noteq> length ts - 1)"
    by (auto simp: Bex_def in_set_enumerate_eq)
  moreover have "\<And>i. i < length ts - 1 \<longleftrightarrow> i < length ts \<and> i \<noteq> length ts - 1"
    by arith
  ultimately show ?thesis by (simp only:) blast
qed

lemma parse_subscriber_subject_eq: "parse_subscriber_subject s = Some (subject_pattern s)"
proof -
  have "split_on is_dot s \<noteq> []" by simp
  then have n: "map classify (split_on is_dot s) \<noteq> []" "1 \<le> length (split_on is_dot s)"
    by (auto simp: Suc_le_eq)
  show ?thesis
    using greater_before_last [OF n(1)] n(2)
    by (simp add: parse_subscriber_subject_def subject_pattern_def push_tokens_eq usize_sub_def
        Let_def)
qed

lemma push_literals_eq:
  "push_literals ts toks =
     (case find (\<lambda>t. t \<in> {[], ''*'', ''>''}) ts of
        None \<Rightarrow> Inr (toks @ ts)
      | Some t \<Rightarrow> Inl (if t = [] then EmptyToken else WildcardInPublish))"
  by (induction ts arbitrary: toks) (auto split: option.split)

lemma parse_publisher_subject_eq: "parse_publisher_subject s = subject_name s"
  by (simp add: parse_publisher_subject_def subject_name_def push_literals_eq split: option.split)

lemma valid_pattern_iff: "valid_pattern ts \<longleftrightarrow> ts \<noteq> [] \<and> Greater \<notin> set (butlast ts)"
  by (induction ts rule: valid_pattern.induct) auto

lemma subject_pattern_valid: "subject_pattern s = Inr p \<Longrightarrow> valid_pattern p"
  by (auto simp: subject_pattern_def valid_pattern_iff Let_def split: if_splits)

text \<open>A subject that may be published is also a pattern, and matches itself only.\<close>

lemma subject_name_Inr:
  "subject_name s = Inr ts \<longleftrightarrow>
     s \<noteq> [] \<and> ts = split_on is_dot s \<and> (\<forall>t\<in>set ts. t \<noteq> [] \<and> t \<noteq> ''*'' \<and> t \<noteq> ''>'')"
proof (cases "find (\<lambda>t. t \<in> {[], ''*'', ''>''}) (split_on is_dot s)")
  case None
  then have "\<forall>t\<in>set (split_on is_dot s). t \<noteq> [] \<and> t \<noteq> ''*'' \<and> t \<noteq> ''>''"
    by (auto simp: find_None_iff)
  with None show ?thesis by (auto simp: subject_name_def)
next
  case (Some t)
  then have "t \<in> set (split_on is_dot s)" "t \<in> {[], ''*'', ''>''}"
    unfolding find_Some_iff by (metis nth_mem)+
  with Some show ?thesis by (auto simp: subject_name_def)
qed

lemma classify_literal: "t \<noteq> ''*'' \<Longrightarrow> t \<noteq> ''>'' \<Longrightarrow> classify t = Literal t"
  by (simp add: classify_def)

lemma subject_name_pattern:
  assumes "subject_name s = Inr ts"
  shows "subject_pattern s = Inr (map Literal ts)"
proof -
  from assms have ts: "s \<noteq> []" "ts = split_on is_dot s" "[] \<notin> set ts"
    "\<forall>t\<in>set ts. t \<noteq> ''*'' \<and> t \<noteq> ''>''" by (auto simp: subject_name_Inr)
  then have c: "map classify ts = map Literal ts" by (simp add: classify_literal)
  have "Greater \<notin> set (butlast (map classify ts))" unfolding c by (auto dest: in_set_butlastD)
  with ts(1,3) c show ?thesis unfolding subject_pattern_def Let_def ts(2) [symmetric] by simp
qed

lemma literal_matches: "pattern_matches (map Literal ts) us \<longleftrightarrow> us = ts"
proof (induction ts arbitrary: us)
  case Nil
  then show ?case by (cases us) simp_all
next
  case (Cons t ts)
  then show ?case by (cases us) auto
qed

lemma split_on_inj:
  assumes "\<And>x y. p x \<Longrightarrow> p y \<Longrightarrow> x = y"
  shows "split_on p xs = split_on p ys \<Longrightarrow> xs = ys"
proof (induction xs arbitrary: ys)
  case Nil
  then show ?case
    by (cases ys) (auto dest: sym [of "[]"] split: if_splits list.splits)
next
  case (Cons x xs)
  obtain t ts where t: "split_on p xs = t # ts" by (meson neq_Nil_conv split_on_nonempty)
  show ?case
  proof (cases ys)
    case Nil
    with Cons.prems t show ?thesis by (auto split: if_splits)
  next
    case (Cons y ys')
    obtain u us where "split_on p ys' = u # us" by (meson neq_Nil_conv split_on_nonempty)
    with Cons.prems t Cons assms Cons.IH [of ys'] show ?thesis
      by (auto split: if_splits)
  qed
qed

end
