(* ===== verification/Sub_Table.thy ===== *)
theory Sub_Table
  imports Subscription_Facts
begin

text \<open>
  The contract of the subscription table, as an interface: the operations the server calls on a
  trie and the laws it may rely on.  What the server needs is proved once from the laws, and the
  interpretation at the end discharges them for the trie of \<open>Subscription\<close>.
\<close>

section \<open>Traces of table operations\<close>

datatype table_op =
    Subscribe_Op bytes sub
  | Unsubscribe_Op bytes connection_id bytes

text \<open>The abstract table: a multiset of subscriptions.\<close>

fun table_step :: "table_op \<Rightarrow> subscription multiset \<Rightarrow> subscription multiset" where
  "table_step (Subscribe_Op subj s) m =
     (case subject_pattern subj of Inl e \<Rightarrow> m | Inr p \<Rightarrow> add_mset (p, s) m)"
| "table_step (Unsubscribe_Op subj c i) m =
     (case subject_pattern subj of Inl e \<Rightarrow> m | Inr p \<Rightarrow> filter_mset (survives p c i) m)"

text \<open>The operations of a provider, run one after the other.\<close>

definition apply_op ::
  "('t \<Rightarrow> bytes \<Rightarrow> sub \<Rightarrow> ((subject_error + unit) \<times> 't) option) \<Rightarrow>
   ('t \<Rightarrow> bytes \<Rightarrow> connection_id \<Rightarrow> bytes \<Rightarrow> (bool \<times> 't) option) \<Rightarrow> table_op \<Rightarrow> 't \<Rightarrow> 't option" where
  "apply_op ins rem oper t =
     (case oper of
        Subscribe_Op subj s \<Rightarrow> map_option snd (ins t subj s)
      | Unsubscribe_Op subj c i \<Rightarrow> map_option snd (rem t subj c i))"

fun apply_ops ::
  "('t \<Rightarrow> bytes \<Rightarrow> sub \<Rightarrow> ((subject_error + unit) \<times> 't) option) \<Rightarrow>
   ('t \<Rightarrow> bytes \<Rightarrow> connection_id \<Rightarrow> bytes \<Rightarrow> (bool \<times> 't) option) \<Rightarrow> table_op list \<Rightarrow> 't \<Rightarrow> 't option" where
  "apply_ops ins rem [] t = Some t"
| "apply_ops ins rem (oper # opers) t = do {
     t' \<leftarrow> apply_op ins rem oper t;
     apply_ops ins rem opers t'
   }"

section \<open>The interface\<close>

locale sub_table =
  fixes initial :: 't
    and ins :: "'t \<Rightarrow> bytes \<Rightarrow> sub \<Rightarrow> ((subject_error + unit) \<times> 't) option"
    and rem :: "'t \<Rightarrow> bytes \<Rightarrow> connection_id \<Rightarrow> bytes \<Rightarrow> (bool \<times> 't) option"
    and matches :: "'t \<Rightarrow> bytes \<Rightarrow> subject_error + sub list"
    and invar :: "'t \<Rightarrow> bool"
    and counted :: "'t \<Rightarrow> nat"
    and table :: "'t \<Rightarrow> subscription multiset"
  assumes initial: "invar initial" "table initial = {#}" "counted initial = 0"
    and ins_ok: "invar t \<Longrightarrow> counted t < usize_max \<Longrightarrow> subject_pattern subj = Inr p \<Longrightarrow>
      \<exists>t'. ins t subj s = Some (Inr (), t') \<and> invar t' \<and> counted t' = Suc (counted t) \<and>
        table t' = add_mset (p, s) (table t)"
    and ins_rejected: "subject_pattern subj = Inl e \<Longrightarrow> ins t subj s = Some (Inl e, t)"
    and rem_ok: "invar t \<Longrightarrow> subject_pattern subj = Inr p \<Longrightarrow>
      \<exists>t'. rem t subj c i = Some (table t' \<noteq> table t, t') \<and> invar t' \<and> counted t' \<le> counted t \<and>
        table t' = filter_mset (survives p c i) (table t)"
    and rem_rejected: "subject_pattern subj = Inl e \<Longrightarrow> rem t subj c i = Some (False, t)"
    and matches_ok: "invar t \<Longrightarrow> subject_name subj = Inr ts \<Longrightarrow>
      \<exists>l. matches t subj = Inr l \<and>
        mset l = image_mset snd (filter_mset (\<lambda>(p, s). pattern_matches p ts) (table t))"
    and matches_rejected: "subject_name subj = Inl e \<Longrightarrow> matches t subj = Inl e"
begin

lemma apply_op_refines:
  assumes "invar t" "counted t < usize_max"
  shows "\<exists>t'. apply_op ins rem oper t = Some t' \<and> invar t' \<and> counted t' \<le> Suc (counted t) \<and>
    table t' = table_step oper (table t)"
proof (cases oper)
  case (Subscribe_Op subj s)
  show ?thesis
  proof (cases "subject_pattern subj")
    case (Inl e)
    with assms Subscribe_Op show ?thesis by (simp add: apply_op_def ins_rejected)
  next
    case (Inr p)
    with assms Subscribe_Op show ?thesis using ins_ok [OF assms Inr, of s]
      by (auto simp: apply_op_def)
  qed
next
  case (Unsubscribe_Op subj c i)
  show ?thesis
  proof (cases "subject_pattern subj")
    case (Inl e)
    with assms Unsubscribe_Op show ?thesis by (simp add: apply_op_def rem_rejected)
  next
    case (Inr p)
    with assms Unsubscribe_Op show ?thesis using rem_ok [OF assms(1) Inr, of c i]
      by (auto simp: apply_op_def)
  qed
qed

lemma apply_ops_refines:
  "invar t \<Longrightarrow> counted t + length opers \<le> usize_max \<Longrightarrow>
   \<exists>t'. apply_ops ins rem opers t = Some t' \<and> invar t' \<and> table t' = fold table_step opers (table t)"
proof (induction opers arbitrary: t)
  case (Cons oper opers)
  from Cons.prems have "counted t < usize_max" by simp
  from apply_op_refines [OF Cons.prems(1) this, of oper] obtain t' where
    t': "apply_op ins rem oper t = Some t'" "invar t'" "counted t' \<le> Suc (counted t)"
      "table t' = table_step oper (table t)" by blast
  with Cons.prems(2) Cons.IH [OF t'(2)] show ?case by auto
qed simp

text \<open>A trace from the initial table, and what matching then returns.\<close>

lemma run_matches:
  assumes "length opers \<le> usize_max" "subject_name subj = Inr ts"
  shows "\<exists>t l. apply_ops ins rem opers initial = Some t \<and> matches t subj = Inr l \<and>
    mset l = image_mset snd (filter_mset (\<lambda>(p, s). pattern_matches p ts) (fold table_step opers {#}))"
proof -
  obtain t where "apply_ops ins rem opers initial = Some t" "invar t"
    "table t = fold table_step opers {#}"
    using apply_ops_refines [OF initial(1), of opers] assms(1) by (auto simp: initial)
  with matches_ok [OF this(2) assms(2)] show ?thesis by auto
qed

lemma ins_matches:
  assumes "invar t" "counted t < usize_max" "subject_pattern subj = Inr p" "subject_name name = Inr ts"
  shows "\<exists>t' l l'. ins t subj s = Some (Inr (), t') \<and> matches t name = Inr l \<and>
    matches t' name = Inr l' \<and> mset l' = (if pattern_matches p ts then {#s#} else {#}) + mset l"
proof -
  obtain t' where t': "ins t subj s = Some (Inr (), t')" "invar t'" "table t' = add_mset (p, s) (table t)"
    using ins_ok [OF assms(1-3), of s] by blast
  with matches_ok [OF t'(2) assms(4)] matches_ok [OF assms(1,4)] show ?thesis by auto
qed

lemma rem_unmatched:
  assumes "invar t" "subject_pattern subj = Inr p"
  shows "\<exists>t' b. rem t subj c i = Some (b, t') \<and> invar t' \<and>
    (\<forall>s. (p, s) \<in># table t' \<longrightarrow> \<not> owned_by c i s) \<and>
    (\<forall>q s. q \<noteq> p \<or> \<not> owned_by c i s \<longrightarrow> Multiset.count (table t') (q, s) = Multiset.count (table t) (q, s))"
  using rem_ok [OF assms, of c i] by (auto simp: survives_def)

end

section \<open>The trie provides it\<close>

definition trie_table :: "subscription_trie \<Rightarrow> subscription multiset" where
  "trie_table t = mset (entries (root t))"

text \<open>The counter never falls below the number of subscriptions held, so it cannot underflow.\<close>

definition trie_invar :: "subscription_trie \<Rightarrow> bool" where
  "trie_invar t \<longleftrightarrow> wf_node (root t) \<and> size (trie_table t) \<le> total_subscriptions t"

definition matched :: "subscription_trie \<Rightarrow> bytes \<Rightarrow> subject_error + sub list" where
  "matched t subject = for_each_match t subject (\<lambda>s l. l @ [s]) []"

lemma fold_snoc: "fold (\<lambda>s l. l @ [s]) xs ys = ys @ xs"
  by (induction xs arbitrary: ys) auto

lemma matched_eq:
  "trie_invar t \<Longrightarrow> matched t subject =
     (case subject_name subject of Inl e \<Rightarrow> Inl e | Inr ts \<Rightarrow> Inr (selected ts (entries (root t))))"
  by (simp add: matched_def for_each_match_def parse_publisher_subject_eq walk_match_eq fold_snoc
      trie_invar_def split: sum.split)

text \<open>Any callback sees the matched subscribers in that order.\<close>

lemma for_each_match_eq:
  "trie_invar t \<Longrightarrow> for_each_match t subject f x = map_sum id (\<lambda>l. fold f l x) (matched t subject)"
  by (simp add: matched_eq for_each_match_def parse_publisher_subject_eq walk_match_eq
      trie_invar_def split: sum.split)

lemma mset_selected:
  "mset (selected ts es) = image_mset snd (filter_mset (\<lambda>(p, s). pattern_matches p ts) (mset es))"
  by (simp add: selected_def mset_filter)

lemma trie_subscribe:
  assumes "trie_invar t" "total_subscriptions t < usize_max" "subject_pattern subj = Inr p"
  shows "\<exists>t'. subscribe t subj s = Some (Inr (), t') \<and> trie_invar t' \<and>
    total_subscriptions t' = Suc (total_subscriptions t) \<and>
    trie_table t' = add_mset (p, s) (trie_table t)"
proof -
  from assms(3) have p: "valid_pattern p" by (rule subject_pattern_valid)
  then have "1 \<le> length p" by (cases p) auto
  moreover have "wf_node (root t)" using assms(1) by (simp add: trie_invar_def)
  from subscribe_loop_correct [OF this p, of s] obtain n' where
    "subscribe_loop (root t) p s = Some n'" "wf_node n'"
    "mset (entries n') = add_mset (p, s) (mset (entries (root t)))" by blast
  moreover from this(3) have "length (entries n') = Suc (length (entries (root t)))"
    by (metis size_add_mset size_mset)
  ultimately show ?thesis using assms
    by (simp add: subscribe_def parse_subscriber_subject_eq usize_sub_def checked_add_def
        trie_invar_def trie_table_def)
qed

lemma hit_iff_filter: "hit ts c i es \<longleftrightarrow> filter_mset (survives ts c i) (mset es) \<noteq> mset es"
  by (auto simp: filter_mset_eq_conv hit_def survives_def)

lemma filter_loses_one: "hit ts c i es \<Longrightarrow> length (filter (survives ts c i) es) < length es"
  by (auto simp: hit_def survives_def intro!: length_filter_less)

lemma trie_unsubscribe_counter:
  assumes "trie_invar t" "subject_pattern subj = Inr p"
  shows "\<exists>t'. unsubscribe t subj c i = Some (trie_table t' \<noteq> trie_table t, t') \<and> trie_invar t' \<and>
    total_subscriptions t' = removal (total_subscriptions t) (trie_table t' \<noteq> trie_table t) \<and>
    trie_table t' = filter_mset (survives p c i) (trie_table t)"
proof -
  let ?es = "entries (root t)" and ?tot = "total_subscriptions t"
  from assms have wf: "wf_node (root t)" "length ?es \<le> ?tot" "valid_pattern p"
    by (simp_all add: trie_invar_def trie_table_def subject_pattern_valid)
  then have pos: "hit p c i ?es \<longrightarrow> 0 < ?tot" by (metis filter_loses_one not_less0 not_gr0 le_0_eq)
  from unsubscribe_walk_correct(1) [OF wf(1,3) pos] obtain n' where n':
    "unsubscribe_walk (root t) p c i ?tot = Some (hit p c i ?es, n', removal ?tot (hit p c i ?es))"
    "wf_node n'" "entries n' = filter (survives p c i) ?es"
    by (auto simp: walked_def)
  have "length (filter (survives p c i) ?es) \<le> removal ?tot (hit p c i ?es)"
    using filter_loses_one [of p c i ?es] wf(2)
    by (auto simp: removal_def intro: order_trans [OF length_filter_le])
  with n' assms(2) show ?thesis
    by (simp add: unsubscribe_def parse_subscriber_subject_eq trie_invar_def trie_table_def
        hit_iff_filter removal_def)
qed

lemma trie_unsubscribe:
  assumes "trie_invar t" "subject_pattern subj = Inr p"
  shows "\<exists>t'. unsubscribe t subj c i = Some (trie_table t' \<noteq> trie_table t, t') \<and> trie_invar t' \<and>
    total_subscriptions t' \<le> total_subscriptions t \<and>
    trie_table t' = filter_mset (survives p c i) (trie_table t)"
proof -
  obtain t' where "unsubscribe t subj c i = Some (trie_table t' \<noteq> trie_table t, t')" "trie_invar t'"
    "total_subscriptions t' = removal (total_subscriptions t) (trie_table t' \<noteq> trie_table t)"
    "trie_table t' = filter_mset (survives p c i) (trie_table t)"
    using trie_unsubscribe_counter [OF assms] by blast
  then show ?thesis by (intro exI [of _ t']) (simp add: removal_def)
qed

lemma rejected_subject:
  "subject_pattern subj = Inl e \<Longrightarrow> subscribe t subj s = Some (Inl e, t)"
  "subject_pattern subj = Inl e \<Longrightarrow> unsubscribe t subj c i = Some (False, t)"
  by (simp_all add: subscribe_def unsubscribe_def parse_subscriber_subject_eq)

interpretation subs: sub_table new_trie subscribe unsubscribe matched trie_invar
  total_subscriptions trie_table
proof
  show "trie_invar new_trie" "trie_table new_trie = {#}" "total_subscriptions new_trie = 0"
    by (simp_all add: trie_invar_def trie_table_def new_trie_def)
  show "\<And>t subj ts. trie_invar t \<Longrightarrow> subject_name subj = Inr ts \<Longrightarrow> \<exists>l. matched t subj = Inr l \<and>
    mset l = image_mset snd (filter_mset (\<lambda>(p, s). pattern_matches p ts) (trie_table t))"
    by (simp add: matched_eq trie_table_def mset_selected)
  show "\<And>subj e t. subject_name subj = Inl e \<Longrightarrow> matched t subj = Inl e"
    by (simp add: matched_def for_each_match_def parse_publisher_subject_eq)
qed (simp_all add: trie_subscribe trie_unsubscribe rejected_subject)

section \<open>Properties\<close>

text \<open>C4. The trie refines the abstract subscription table: any sequence of subscribe and
  unsubscribe calls on a new trie (fewer than \<open>usize::MAX\<close> of them) runs without a panic, and
  afterwards matching a publish subject yields, each as often as it is subscribed, exactly the
  subscribers whose pattern matches that subject by the wildcard rules.\<close>

theorem trie_refines_table:
  assumes "length opers \<le> usize_max" "parse_publisher_subject subject = Inr ts"
  shows "\<exists>t l. apply_ops subscribe unsubscribe opers new_trie = Some t \<and>
    for_each_match t subject (\<lambda>s l. l @ [s]) [] = Inr l \<and>
    mset l = image_mset snd (filter_mset (\<lambda>(p, s). pattern_matches p ts) (fold table_step opers {#}))"
  using subs.run_matches [OF assms(1), of subject ts] assms(2)
  by (simp add: parse_publisher_subject_eq matched_def)

theorem trie_refines_table_witness:
  "\<exists>t l. apply_ops subscribe unsubscribe
      [Subscribe_Op ''a.*'' \<lparr>conn_id = ConnectionId 1, sid = ''1'', queue_group = None\<rparr>] new_trie = Some t \<and>
    for_each_match t ''a.b'' (\<lambda>s l. l @ [s]) [] = Inr l \<and>
    mset l = {#\<lparr>conn_id = ConnectionId 1, sid = ''1'', queue_group = None\<rparr>#}"
  using trie_refines_table [of
    "[Subscribe_Op ''a.*'' \<lparr>conn_id = ConnectionId 1, sid = ''1'', queue_group = None\<rparr>]"
    "''a.b''" "[''a'', ''b'']"]
  by (simp add: usize_max_numeral parse_publisher_subject_def subject_pattern_def is_dot_def
      classify_def)

text \<open>C19. Matching calls the callback once for every entry of the trie whose pattern matches, in a
  fixed order and threading the callback's state, and reports the validator's error on a malformed
  or wildcarded publish subject without calling it.\<close>

theorem for_each_match_visits:
  assumes "trie_invar t"
  shows "for_each_match t subject f x =
    (case parse_publisher_subject subject of
       Inl e \<Rightarrow> Inl e
     | Inr ts \<Rightarrow> Inr (fold f (map snd (filter (\<lambda>(p, s). pattern_matches p ts) (entries (root t)))) x))"
  by (simp add: for_each_match_eq [OF assms] matched_eq [OF assms] parse_publisher_subject_eq
      selected_def split: sum.split)

theorem for_each_match_visits_witness:
  "for_each_match new_trie ''a.*'' (\<lambda>s n. Suc n) (0 :: nat) = Inl WildcardInPublish \<and>
   for_each_match new_trie ''a.b'' (\<lambda>s n. Suc n) (0 :: nat) = Inr 0"
  using for_each_match_visits [OF subs.initial(1), of "''a.*''" "\<lambda>s n. Suc n" "0 :: nat"]
    for_each_match_visits [OF subs.initial(1), of "''a.b''" "\<lambda>s n. Suc n" "0 :: nat"]
  by (simp_all add: parse_publisher_subject_def is_dot_def new_trie_def)

text \<open>A new subscription changes the matches of a subject by exactly one occurrence of the new
  subscriber when its pattern matches, and not at all otherwise.\<close>

lemma subscribe_then_match:
  assumes "trie_invar t" "total_subscriptions t < usize_max"
    and "parse_subscriber_subject pattern = Some (Inr p)" "parse_publisher_subject subject = Inr ts"
  shows "\<exists>t' l l'. subscribe t pattern s = Some (Inr (), t') \<and>
    for_each_match t subject (\<lambda>s l. l @ [s]) [] = Inr l \<and>
    for_each_match t' subject (\<lambda>s l. l @ [s]) [] = Inr l' \<and>
    mset l' = (if pattern_matches p ts then {#s#} else {#}) + mset l"
  using subs.ins_matches [of t pattern p subject ts s] assms
  by (simp add: parse_subscriber_subject_eq parse_publisher_subject_eq matched_def)

text \<open>C20. Unsubscribing removes every subscription the connection holds under that sid on that
  subject and no other, reports whether there was one, keeps the invariant (no empty node is left
  below the root), and lowers the counter by one however many were removed.\<close>

theorem unsubscribe_effect:
  assumes "trie_invar t" "parse_subscriber_subject subject = Some (Inr p)"
    and "k = size (filter_mset (\<lambda>(q, s). q = p \<and> owned_by c i s) (trie_table t))"
  shows "\<exists>t'. unsubscribe t subject c i = Some (0 < k, t') \<and> trie_invar t' \<and>
    trie_table t' = filter_mset (\<lambda>(q, s). \<not> (q = p \<and> owned_by c i s)) (trie_table t) \<and>
    size (trie_table t') + k = size (trie_table t) \<and>
    total_subscriptions t' = total_subscriptions t - min 1 k"
proof -
  let ?m = "trie_table t" and ?P = "\<lambda>(q, s). q = p \<and> owned_by c i s"
  obtain t' where t': "unsubscribe t subject c i = Some (trie_table t' \<noteq> ?m, t')" "trie_invar t'"
    "total_subscriptions t' = removal (total_subscriptions t) (trie_table t' \<noteq> ?m)"
    "trie_table t' = filter_mset (survives p c i) ?m"
    using trie_unsubscribe_counter [OF assms(1), of subject p c i] assms(2)
    by (auto simp: parse_subscriber_subject_eq)
  have s: "survives p c i = (\<lambda>x. \<not> ?P x)" by (auto simp: survives_def fun_eq_iff)
  have m: "?m = filter_mset ?P ?m + trie_table t'" unfolding t'(4) s by (rule multiset_partition)
  then have "size ?m = k + size (trie_table t')" by (metis size_union assms(3))
  moreover from this m have "trie_table t' \<noteq> ?m \<longleftrightarrow> 0 < k"
    by (metis add_0 add_cancel_right_left assms(3) gr0I not_gr0 size_eq_0_iff_empty)
  ultimately show ?thesis using t' s by (intro exI [of _ t']) (auto simp: removal_def case_prod_unfold)
qed

theorem unsubscribe_effect_witness:
  "let s = \<lparr>conn_id = ConnectionId 1, sid = ''1'', queue_group = None\<rparr>;
       t = \<lparr>root = Node [] [] [(''a'', Node [s, s] [] [] None)] None, total_subscriptions = 2\<rparr>
   in trie_invar t \<and> (\<exists>t'. unsubscribe t ''a'' (ConnectionId 1) ''1'' = Some (True, t') \<and>
        trie_table t' = {#} \<and> total_subscriptions t' = 1)"
proof -
  let ?s = "\<lparr>conn_id = ConnectionId 1, sid = ''1'', queue_group = None\<rparr>"
  let ?t = "\<lparr>root = Node [] [] [(''a'', Node [?s, ?s] [] [] None)] None, total_subscriptions = 2\<rparr>"
  have t: "trie_invar ?t" "trie_table ?t = {#([Literal ''a''], ?s), ([Literal ''a''], ?s)#}"
    by (simp_all add: trie_invar_def trie_table_def wf_Node entries_Node node_is_empty_def)
  show ?thesis
    using unsubscribe_effect [OF t(1), of "''a''" "[Literal ''a'']" 2 "ConnectionId 1" "''1''"]
    by (auto simp: t Let_def parse_subscriber_subject_eq subject_pattern_def is_dot_def classify_def
        owned_by_def)
qed

text \<open>Subscribing and then unsubscribing a sid the connection did not use on that subject gives
  back the same subscriptions and the same counter.\<close>

lemma subscribe_unsubscribe_roundtrip:
  assumes "trie_invar t" "total_subscriptions t < usize_max"
    and "parse_subscriber_subject subject = Some (Inr p)"
    and "filter_mset (\<lambda>(q, s'). q = p \<and> owned_by (conn_id s) (sid s) s') (trie_table t) = {#}"
  shows "\<exists>t1 t2. subscribe t subject s = Some (Inr (), t1) \<and>
    unsubscribe t1 subject (conn_id s) (sid s) = Some (True, t2) \<and>
    trie_table t2 = trie_table t \<and> total_subscriptions t2 = total_subscriptions t"
proof -
  from assms(3) have p: "subject_pattern subject = Inr p" by (simp add: parse_subscriber_subject_eq)
  from trie_subscribe [OF assms(1,2) p, of s] obtain t1 where t1:
    "subscribe t subject s = Some (Inr (), t1)" "trie_invar t1"
    "total_subscriptions t1 = Suc (total_subscriptions t)" "trie_table t1 = add_mset (p, s) (trie_table t)"
    by blast
  have "filter_mset (survives p (conn_id s) (sid s)) (trie_table t) = trie_table t"
    using assms(4) by (auto simp: filter_mset_eq_conv survives_def)
  with t1(4) have "filter_mset (survives p (conn_id s) (sid s)) (trie_table t1) = trie_table t"
    by (simp add: survives_def owned_by_def)
  with trie_unsubscribe_counter [OF t1(2) p, of "conn_id s" "sid s"] t1 show ?thesis
    by (auto simp: removal_def)
qed

text \<open>Subjects without wildcards are matched literally: a subject that may be published is
  accepted by the subscriber's validator, and the pattern it gives matches that subject and no
  other.\<close>

lemma literal_subject_matches_itself:
  assumes "parse_publisher_subject a = Inr ts" "parse_publisher_subject b = Inr us"
  shows "\<exists>p. parse_subscriber_subject a = Some (Inr p) \<and> (pattern_matches p us \<longleftrightarrow> a = b)"
proof -
  have inj: "split_on is_dot a = split_on is_dot b \<Longrightarrow> a = b"
    by (rule split_on_inj [of is_dot]) (simp_all add: is_dot_def)
  from assms have names: "subject_name a = Inr ts" "subject_name b = Inr us"
    by (simp_all add: parse_publisher_subject_eq)
  then have "ts = split_on is_dot a" "us = split_on is_dot b" by (simp_all only: subject_name_Inr)
  with inj have "us = ts \<longleftrightarrow> a = b" by metis
  with subject_name_pattern [OF names(1)] show ?thesis
    by (simp add: parse_subscriber_subject_eq literal_matches)
qed

end
