(* ===== verification/Worker_Facts.thy ===== *)
theory Worker_Facts
  imports Worker Sub_Table
begin

unbundle bit_operations_syntax

text \<open>
  Correctness of the worker's handlers.  The invariant ties the connection map to the store of
  connection states; under it no handler panics.  A publish reaches every matching subscriber
  without a queue group and exactly one of each group, and every other shard's inbox.
\<close>

section \<open>The generator\<close>

lemma xor_eq_0: "(x :: u64) XOR y = 0 \<longleftrightarrow> x = y"
proof
  assume "x XOR y = 0"
  then have "bit x n \<longleftrightarrow> bit y n" for n by (metis bit_0_eq bit_xor_iff bot_apply bot_bool_def)
  then show "x = y" by (simp add: bit_eq_iff)
qed simp

text \<open>A word that equals itself shifted is zero, so a xorshift step keeps a word nonzero.\<close>

lemma xor_push_bit_zero:
  fixes x :: u64
  assumes "x XOR push_bit k x = 0" "0 < k"
  shows "x = 0"
proof -
  from assms(1) have e: "x = push_bit k x" by (simp only: xor_eq_0)
  have "\<not> bit x n" for n
  proof (induction n rule: less_induct)
    case (less n)
    have "bit x n \<longleftrightarrow> bit (push_bit k x) n" using e by simp
    with less [of "n - k"] assms(2) show ?case by (auto simp: bit_push_bit_iff)
  qed
  then show ?thesis by (simp add: bit_eq_iff)
qed

lemma xor_drop_bit_zero:
  fixes x :: u64
  assumes "x XOR drop_bit k x = 0" "0 < k"
  shows "x = 0"
proof -
  from assms(1) have e: "x = drop_bit k x" by (simp only: xor_eq_0)
  have "\<not> bit x n" for n
  proof (induction "64 - n" arbitrary: n rule: less_induct)
    case less
    show ?case
    proof (cases "n < 64")
      case True
      have "bit x n \<longleftrightarrow> bit x (k + n)" using e by (metis bit_drop_bit_eq comp_apply)
      with less [of "k + n"] True assms(2) show ?thesis by auto
    next
      case False
      then show ?thesis using bit_imp_le_length [of x n] by auto
    qed
  qed
  then show ?thesis by (simp add: bit_eq_iff)
qed

lemma xorshift_nonzero: "s \<noteq> 0 \<Longrightarrow> xorshift s \<noteq> 0"
  using xor_push_bit_zero [of s 13] xor_drop_bit_zero [of "s XOR push_bit 13 s" 7]
    xor_push_bit_zero [of "(s XOR push_bit 13 s) XOR drop_bit 7 (s XOR push_bit 13 s)" 17]
  by (auto simp: xorshift_def Let_def)

text \<open>The step is linear over exclusive or, so it is injective.\<close>

lemma xorshift_xor: "xorshift (x XOR y) = xorshift x XOR xorshift y"
  by (simp add: xorshift_def Let_def push_bit_xor drop_bit_xor ac_simps)

lemma xorshift_inj: "xorshift x = xorshift y \<longleftrightarrow> x = y"
  using xorshift_nonzero [of "x XOR y"] by (auto simp: xorshift_xor xor_eq_0)

lemma seed_product: "unat (ucast shard * 0x9E3779B9 :: u64) = unat (shard :: u32) * 2654435769"
proof -
  have "unat shard < 2 ^ 32" using unsigned_less [of shard] by simp
  then show ?thesis by (simp add: unat_word_ariths unsigned_ucast_eq take_bit_eq_mod)
qed

lemma seed_nonzero: "seed shard \<noteq> 0"
proof
  assume "seed shard = 0"
  then have "ucast shard * 0x9E3779B9 = (0x123456789abcdef0 :: u64)"
    unfolding seed_def xor_eq_0 by (rule sym)
  then have "unat (ucast shard * 0x9E3779B9 :: u64) = 1311768467463790320" by simp
  then have "unat shard * 2654435769 = 1311768467463790320" by (simp only: seed_product)
  then have "(2654435769 :: nat) dvd 1311768467463790320" by (metis dvd_triv_right)
  then show False by simp
qed

lemma seed_inj: "seed shard = seed shard' \<longleftrightarrow> shard = shard'"
proof
  assume "seed shard = seed shard'"
  then have "0x123456789abcdef0 XOR (seed shard) = 0x123456789abcdef0 XOR (seed shard')" by simp
  then have "(ucast shard * 0x9E3779B9 :: u64) = ucast shard' * 0x9E3779B9"
    by (simp only: seed_def xor.assoc [symmetric] xor_self_eq xor.left_neutral)
  then have "unat shard * 2654435769 = unat shard' * 2654435769" by (metis seed_product)
  then show "shard = shard'" by (simp add: unsigned_word_eqI)
qed simp

section \<open>The invariant\<close>

definition worker_invar :: "'n worker \<Rightarrow> bool" where
  "worker_invar w \<longleftrightarrow> trie_invar (table w) \<and> (\<forall>c\<in>set (states w). conn_invar c) \<and>
     (\<forall>cid a. connections w cid = Some a \<longrightarrow> a < length (states w) \<and> state_id (states w ! a) = cid) \<and>
     length (emit_scratch w) = EMIT_SCRATCH_CAPACITY \<and> rng w \<noteq> 0"

text \<open>The state after an enqueue, which is total on states that satisfy their invariant.\<close>

definition posted :: "('n \<Rightarrow> 'n) \<Rightarrow> bytes \<Rightarrow> 'n connection_state \<Rightarrow> 'n connection_state" where
  "posted notify_one bs c = (case enqueue notify_one c bs of None \<Rightarrow> c | Some (r, c') \<Rightarrow> c')"

lemma enqueue_posted:
  assumes "conn_invar c"
  shows "\<exists>r. enqueue notify_one c bs = Some (r, posted notify_one bs c)"
    and "conn_invar (posted notify_one bs c)" "state_id (posted notify_one bs c) = state_id c"
proof -
  have "\<exists>r c'. enqueue notify_one c bs = Some (r, c') \<and> conn_invar c' \<and> state_id c' = state_id c"
  proof (cases "close_with c")
    case None
    show ?thesis
    proof (cases "length bs \<le> free_bytes c")
      case True
      with enqueue_fits [OF assms None True, of notify_one] show ?thesis by blast
    next
      case False
      with enqueue_overflow [OF assms None, of bs notify_one] assms show ?thesis
        by (simp add: conn_invar_def)
    qed
  qed (simp add: enqueue_closing assms)
  then show "\<exists>r. enqueue notify_one c bs = Some (r, posted notify_one bs c)"
    "conn_invar (posted notify_one bs c)" "state_id (posted notify_one bs c) = state_id c"
    by (auto simp: posted_def)
qed

definition post_at :: "('n \<Rightarrow> 'n) \<Rightarrow> addr \<Rightarrow> bytes \<Rightarrow> 'n connection_state list \<Rightarrow> 'n connection_state list" where
  "post_at notify_one a bs sts = sts[a := posted notify_one bs (sts ! a)]"

lemma enqueue_at_eq:
  assumes "worker_invar w" "a < length (states w)"
  shows "enqueue_at notify_one a bs w = Some (w\<lparr>states := post_at notify_one a bs (states w)\<rparr>)"
proof -
  have "conn_invar (states w ! a)" using assms by (simp add: worker_invar_def)
  from enqueue_posted(1) [OF this, of notify_one bs] assms(2) show ?thesis
    by (auto simp: enqueue_at_def index_get_def post_at_def)
qed

text \<open>Stores that keep the ids and the invariant of every state.\<close>

definition same_ids :: "'n connection_state list \<Rightarrow> 'n connection_state list \<Rightarrow> bool" where
  "same_ids sts sts' \<longleftrightarrow> map state_id sts' = map state_id sts \<and> (\<forall>c\<in>set sts'. conn_invar c)"

lemma same_ids_refl: "\<forall>c\<in>set sts. conn_invar c \<Longrightarrow> same_ids sts sts"
  by (simp add: same_ids_def)

lemma same_ids_length: "same_ids sts sts' \<Longrightarrow> length sts' = length sts"
  by (metis same_ids_def length_map)

lemma same_ids_post:
  assumes "same_ids sts sts'" "a < length sts"
  shows "same_ids sts (post_at notify_one a bs sts')"
proof -
  from assms have a: "a < length sts'" by (simp add: same_ids_length)
  with assms(1) have "conn_invar (sts' ! a)" by (simp add: same_ids_def)
  note p = enqueue_posted(2,3) [OF this, of notify_one bs]
  have "map state_id (post_at notify_one a bs sts') = map state_id sts'"
    using a p(2) by (simp add: post_at_def map_update) (metis list_update_id nth_map)
  moreover have "\<forall>c\<in>set (post_at notify_one a bs sts'). conn_invar c"
    using assms(1) p(1) set_update_subset_insert [of sts' a "posted notify_one bs (sts' ! a)"]
    by (auto simp: post_at_def same_ids_def)
  ultimately show ?thesis using assms(1) by (simp add: same_ids_def)
qed

lemma worker_invar_states:
  assumes "worker_invar w" "same_ids (states w) sts"
  shows "worker_invar (w\<lparr>states := sts\<rparr>)"
proof -
  have n: "state_id (sts ! a) = state_id (states w ! a)" if "a < length (states w)" for a
  proof -
    have "map state_id sts ! a = map state_id (states w) ! a" using assms(2) by (simp add: same_ids_def)
    with that same_ids_length [OF assms(2)] show ?thesis by simp
  qed
  have "\<forall>c\<in>set sts. conn_invar c" using assms(2) by (simp add: same_ids_def)
  with n assms(1) same_ids_length [OF assms(2)] show ?thesis by (simp add: worker_invar_def)
qed

lemma worker_states_ok: "worker_invar w \<Longrightarrow> same_ids (states w) (states w)"
  by (simp add: worker_invar_def same_ids_refl)

lemma emit_err_to_eq:
  assumes "worker_invar w" "a < length (states w)" "length msg \<le> 4000"
  shows "emit_err_to notify_one a msg w =
    Some (w\<lparr>states := post_at notify_one a (encode (ErrFrame msg)) (states w)\<rparr>)"
proof -
  let ?e = "encode (ErrFrame msg)" and ?buf = "replicate SHORT_FRAME_BUF zero_byte"
  have l: "length ?e \<le> length ?buf" "length ?buf \<le> isize_max"
    using assms(3) by (simp_all add: encode_def CRLF_def SHORT_FRAME_BUF_def isize_max_numeral)
  with emits_fits [OF emits_emit_frame, of "ErrFrame msg" ?buf] have
    "emit_err msg ?buf = Some (Inr (length ?e), ?e @ drop (length ?e) ?buf)" by simp
  moreover have "slice_to (?e @ drop (length ?e) ?buf) (length ?e) = Some ?e"
    by (simp add: slice_simps)
  ultimately show ?thesis
    using enqueue_at_eq [OF assms(1,2), of notify_one ?e]
    unfolding emit_err_to_def by simp
qed

section \<open>Delivery\<close>

text \<open>What the delivery of one message does to the store.\<close>

definition post_msg ::
  "('n \<Rightarrow> 'n) \<Rightarrow> (connection_id \<rightharpoonup> addr) \<Rightarrow> bytes \<Rightarrow> bytes option \<Rightarrow> bytes \<Rightarrow> snapshot \<Rightarrow>
   'n connection_state list \<Rightarrow> 'n connection_state list" where
  "post_msg notify_one conns subject reply_to payload = (\<lambda>(cid, sub_id) sts.
     let m = encode (Msg subject sub_id reply_to payload) in
     if length m \<le> EMIT_SCRATCH_CAPACITY
     then (case conns cid of None \<Rightarrow> sts | Some a \<Rightarrow> post_at notify_one a m sts) else sts)"

lemma scratch_bound: "EMIT_SCRATCH_CAPACITY \<le> isize_max"
  by (simp add: EMIT_SCRATCH_CAPACITY_def MAX_PAYLOAD_BYTES_def isize_max_numeral)

lemma deliver_eq:
  assumes "worker_invar w" "length payload \<le> isize_max"
  shows "\<exists>scratch. length scratch = EMIT_SCRATCH_CAPACITY \<and>
    deliver notify_one subject reply_to payload e w = Some (w\<lparr>emit_scratch := scratch,
      states := post_msg notify_one (connections w) subject reply_to payload e (states w)\<rparr>)"
proof -
  obtain cid sub_id where e: "e = (cid, sub_id)" by force
  let ?m = "encode (Msg subject sub_id reply_to payload)"
  from assms(1) have len: "length (emit_scratch w) = EMIT_SCRATCH_CAPACITY" by (simp add: worker_invar_def)
  have em: "emits (emit_msg subject sub_id reply_to payload) 0 ?m"
    using emits_emit_frame [of "Msg subject sub_id reply_to payload"] assms(2) by simp
  show ?thesis
  proof (cases "length ?m \<le> EMIT_SCRATCH_CAPACITY")
    case False
    with len scratch_bound have small: "0 \<le> length (emit_scratch w)"
      "length (emit_scratch w) < 0 + length ?m" "length (emit_scratch w) \<le> isize_max" by simp_all
    obtain sz out where "emit_msg subject sub_id reply_to payload (emit_scratch w) =
        Some (Inl (BufferTooSmall sz (length (emit_scratch w))), out)" "length out = length (emit_scratch w)"
      by (rule emits_too_small [OF em small])
    with False len e show ?thesis by (intro exI [of _ out]) (simp add: deliver_def post_msg_def Let_def)
  next
    case True
    let ?out = "?m @ drop (length ?m) (emit_scratch w)"
    have out: "emit_msg subject sub_id reply_to payload (emit_scratch w) = Some (Inr (length ?m), ?out)"
      using emits_fits [OF em, of "emit_scratch w"] True len scratch_bound by simp
    have lo: "length ?out = EMIT_SCRATCH_CAPACITY" using True len by simp
    show ?thesis
    proof (cases "connections w cid")
      case None
      with out lo True e show ?thesis
        by (intro exI [of _ ?out]) (simp add: deliver_def post_msg_def lookup_def Let_def)
    next
      case (Some a)
      have "a < length (states w)" "worker_invar (w\<lparr>emit_scratch := ?out\<rparr>)"
        using assms(1) Some lo by (auto simp: worker_invar_def)
      then have "enqueue_at notify_one a ?m (w\<lparr>emit_scratch := ?out\<rparr>) =
          Some (w\<lparr>emit_scratch := ?out, states := post_at notify_one a ?m (states w)\<rparr>)"
        using enqueue_at_eq [of "w\<lparr>emit_scratch := ?out\<rparr>" a notify_one ?m] by simp
      with Some out lo True e show ?thesis
        by (intro exI [of _ ?out]) (simp add: deliver_def post_msg_def lookup_def Let_def slice_simps)
    qed
  qed
qed

lemma post_msg_ids:
  assumes "worker_invar w" "same_ids (states w) sts"
  shows "same_ids (states w) (post_msg notify_one (connections w) subject reply_to payload e sts)"
proof -
  have "same_ids (states w) (post_at notify_one a bs sts)" if "connections w cid = Some a" for cid a bs
    using assms that by (intro same_ids_post) (auto simp: worker_invar_def)
  with assms(2) show ?thesis
    by (auto simp: post_msg_def Let_def split: prod.split option.split)
qed

text \<open>The fields that dispatch leaves alone.\<close>

definition same_config :: "'n worker \<Rightarrow> 'n worker \<Rightarrow> bool" where
  "same_config w w' \<longleftrightarrow> table w' = table w \<and> connections w' = connections w \<and>
     worker_shard w' = worker_shard w \<and> next_conn_id w' = next_conn_id w"

lemma deliver_effect:
  assumes "worker_invar w" "length payload \<le> isize_max"
  shows "\<exists>w'. deliver notify_one subject reply_to payload e w = Some w' \<and> worker_invar w' \<and>
    same_config w w' \<and> rng w' = rng w \<and> same_ids (states w) (states w') \<and>
    states w' = post_msg notify_one (connections w) subject reply_to payload e (states w)"
proof -
  let ?sts = "post_msg notify_one (connections w) subject reply_to payload e (states w)"
  from deliver_eq [OF assms] obtain scratch where d: "length scratch = EMIT_SCRATCH_CAPACITY"
    "deliver notify_one subject reply_to payload e w = Some (w\<lparr>emit_scratch := scratch, states := ?sts\<rparr>)"
    by blast
  have ids: "same_ids (states w) ?sts" using post_msg_ids [OF assms(1) worker_states_ok [OF assms(1)]] .
  have "worker_invar (w\<lparr>emit_scratch := scratch\<rparr>)" using assms(1) d(1) by (simp add: worker_invar_def)
  from worker_invar_states [OF this, of ?sts] ids have
    "worker_invar (w\<lparr>emit_scratch := scratch, states := ?sts\<rparr>)" by simp
  with d(2) ids show ?thesis by (simp add: same_config_def)
qed

lemma same_ids_trans: "same_ids a b \<Longrightarrow> same_ids b c \<Longrightarrow> same_ids a c"
  by (simp add: same_ids_def)

lemma deliver_plain_effect:
  assumes "worker_invar w" "length payload \<le> isize_max"
  shows "\<exists>w'. deliver_plain notify_one subject reply_to payload es w = Some w' \<and> worker_invar w' \<and>
    same_config w w' \<and> rng w' = rng w \<and> same_ids (states w) (states w') \<and>
    states w' = fold (post_msg notify_one (connections w) subject reply_to payload) es (states w)"
  using assms(1)
proof (induction es arbitrary: w)
  case Nil
  then show ?case by (simp add: same_config_def worker_states_ok)
next
  case (Cons e es)
  from deliver_effect [OF Cons.prems assms(2), of notify_one subject reply_to e] obtain w1 where
    w1: "deliver notify_one subject reply_to payload e w = Some w1" "worker_invar w1" "same_config w w1"
      "rng w1 = rng w" "same_ids (states w) (states w1)"
      "states w1 = post_msg notify_one (connections w) subject reply_to payload e (states w)" by blast
  from Cons.IH [OF w1(2)] w1 show ?case
    by (auto simp: same_config_def elim: same_ids_trans)
qed

text \<open>The members that the generator picks, one per group.\<close>

fun group_picks :: "u64 \<Rightarrow> group_bucket list \<Rightarrow> snapshot list" where
  "group_picks s [] = []"
| "group_picks s ((qg, members) # groups) =
     members ! (unat (xorshift s) mod length members) # group_picks (xorshift s) groups"

lemma deliver_groups_effect:
  assumes "worker_invar w" "length payload \<le> isize_max" "\<forall>(qg, members)\<in>set groups. members \<noteq> []"
  shows "\<exists>w'. deliver_groups notify_one subject reply_to payload groups w = Some w' \<and> worker_invar w' \<and>
    same_config w w' \<and> same_ids (states w) (states w') \<and>
    states w' = fold (post_msg notify_one (connections w) subject reply_to payload)
      (group_picks (rng w) groups) (states w)"
  using assms(1,3)
proof (induction groups arbitrary: w)
  case Nil
  then show ?case by (simp add: same_config_def worker_states_ok)
next
  case (Cons g groups)
  obtain qg members where g: "g = (qg, members)" by force
  let ?w = "w\<lparr>rng := xorshift (rng w)\<rparr>" and ?i = "unat (xorshift (rng w)) mod length members"
  from Cons.prems g have m: "members \<noteq> []" by simp
  have inv: "worker_invar ?w" using Cons.prems(1) by (simp add: worker_invar_def xorshift_nonzero)
  from deliver_effect [OF this assms(2), of notify_one subject reply_to "members ! ?i"] obtain w1 where
    w1: "deliver notify_one subject reply_to payload (members ! ?i) ?w = Some w1" "worker_invar w1"
      "same_config ?w w1" "rng w1 = xorshift (rng w)" "same_ids (states w) (states w1)"
      "states w1 = post_msg notify_one (connections w) subject reply_to payload (members ! ?i) (states w)"
    by auto
  from Cons.IH [OF w1(2)] Cons.prems(2) w1 m g show ?case
    by (auto simp: same_config_def pick_index_def Let_def index_get_def elim: same_ids_trans)
qed

section \<open>Collecting the subscribers\<close>

abbreviation snapshot_of :: "sub \<Rightarrow> snapshot" where
  "snapshot_of s \<equiv> (conn_id s, sid s)"

definition groups_ok :: "sub list \<Rightarrow> group_bucket list \<Rightarrow> bool" where
  "groups_ok l groups \<longleftrightarrow> distinct (map fst groups) \<and>
     (\<forall>qg. qg \<in> fst ` set groups \<longleftrightarrow> (\<exists>s\<in>set l. queue_group s = Some qg)) \<and>
     (\<forall>(qg, members)\<in>set groups. members = map snapshot_of (filter (\<lambda>s. queue_group s = Some qg) l))"

lemma push_group_split:
  "push_group qg e groups =
     (if qg \<in> fst ` set groups
      then map (\<lambda>(k, m). if k = qg then (k, m @ [e]) else (k, m)) groups else groups @ [(qg, [e])])"
  if "distinct (map fst groups)"
  using that
proof (induction qg e groups rule: push_group.induct)
  case (2 qg e k members groups)
  have "map (\<lambda>(k, m). if k = qg then (k, m @ [e]) else (k, m)) groups = groups" if "qg \<notin> fst ` set groups"
    using that by (induction groups) auto
  with 2 show ?case by auto
qed simp

lemma groups_okD:
  assumes "groups_ok l groups"
  shows "distinct (map fst groups)"
    and "qg \<in> fst ` set groups \<longleftrightarrow> (\<exists>s\<in>set l. queue_group s = Some qg)"
    and "(qg, members) \<in> set groups \<Longrightarrow> members = map snapshot_of (filter (\<lambda>s. queue_group s = Some qg) l)"
  using assms by (auto simp: groups_ok_def)

lemma groups_ok_snoc_group:
  assumes "groups_ok l groups" "queue_group s = Some qg"
  shows "groups_ok (l @ [s]) (push_group qg (snapshot_of s) groups)"
proof (cases "qg \<in> fst ` set groups")
  case True
  let ?f = "\<lambda>(k, m). if k = qg then (k, m @ [snapshot_of s]) else (k, m)"
  have p: "push_group qg (snapshot_of s) groups = map ?f groups"
    using push_group_split [OF groups_okD(1) [OF assms(1)], of qg "snapshot_of s"] True by simp
  have keys: "map fst (map ?f groups) = map fst groups" by auto
  then have img: "fst ` set (map ?f groups) = fst ` set groups" by (metis list.set_map)
  have "members = map snapshot_of (filter (\<lambda>s. queue_group s = Some k) (l @ [s]))"
    if "(k, members) \<in> set (map ?f groups)" for k members
  proof -
    from that obtain m where m: "(k, m) \<in> set groups" "members = (if k = qg then m @ [snapshot_of s] else m)"
      by (auto split: if_splits)
    with groups_okD(3) [OF assms(1) m(1)] assms(2) show ?thesis by auto
  qed
  moreover have "k \<in> fst ` set groups \<longleftrightarrow> (\<exists>x\<in>set (l @ [s]). queue_group x = Some k)" for k
    using groups_okD(2) [OF assms(1)] True assms(2) by auto
  ultimately show ?thesis
    unfolding groups_ok_def p img keys using groups_okD(1) [OF assms(1)] by blast
next
  case False
  have p: "push_group qg (snapshot_of s) groups = groups @ [(qg, [snapshot_of s])]"
    using push_group_split [OF groups_okD(1) [OF assms(1)], of qg "snapshot_of s"] False by simp
  have none: "filter (\<lambda>s. queue_group s = Some qg) l = []"
    using False groups_okD(2) [OF assms(1)] by (auto simp: filter_empty_conv)
  have "members = map snapshot_of (filter (\<lambda>s. queue_group s = Some k) (l @ [s]))"
    if "(k, members) \<in> set (groups @ [(qg, [snapshot_of s])])" for k members
  proof (cases "k = qg")
    case True
    with that False have "members = [snapshot_of s]" by force
    with True none assms(2) show ?thesis by simp
  next
    case k: False
    with that groups_okD(3) [OF assms(1)] assms(2) show ?thesis by auto
  qed
  moreover have "k \<in> fst ` set (groups @ [(qg, [snapshot_of s])]) \<longleftrightarrow>
      (\<exists>x\<in>set (l @ [s]). queue_group x = Some k)" for k
    using groups_okD(2) [OF assms(1), of k] assms(2) by auto
  ultimately show ?thesis
    unfolding groups_ok_def p using groups_okD(1) [OF assms(1)] False by auto
qed

lemma groups_ok_snoc_plain:
  "groups_ok l groups \<Longrightarrow> queue_group s = None \<Longrightarrow> groups_ok (l @ [s]) groups"
  by (auto simp: groups_ok_def)

lemma collect_effect:
  "\<exists>groups. fold collect_sub l ([], []) =
     (map snapshot_of (filter (\<lambda>s. queue_group s = None) l), groups) \<and> groups_ok l groups"
proof (induction l rule: rev_induct)
  case Nil
  then show ?case by (simp add: groups_ok_def)
next
  case (snoc s l)
  then show ?case
    by (cases "queue_group s")
      (auto simp: collect_sub_def Let_def groups_ok_snoc_plain groups_ok_snoc_group)
qed

lemma picks_chosen:
  assumes "\<forall>(qg, members)\<in>set groups. members \<noteq> [] \<and>
      members = map snapshot_of (filter (\<lambda>s. queue_group s = Some qg) l)"
  shows "\<exists>chosen. group_picks r groups = map snapshot_of chosen \<and> set chosen \<subseteq> set l \<and>
    map queue_group chosen = map (Some \<circ> fst) groups"
  using assms
proof (induction r groups rule: group_picks.induct)
  case (2 r qg members groups)
  define c where "c = filter (\<lambda>s. queue_group s = Some qg) l"
  define i where "i = unat (xorshift r) mod length members"
  from "2.prems" have m: "members = map snapshot_of c" "members \<noteq> []" by (auto simp: c_def)
  then have i: "i < length c" by (simp add: i_def)
  then have "c ! i \<in> set c" by (rule nth_mem)
  then have c: "c ! i \<in> set l" "queue_group (c ! i) = Some qg" by (auto simp: c_def)
  have "members ! i = snapshot_of (c ! i)" using i by (simp add: m(1))
  moreover have "\<forall>(qg, members)\<in>set groups. members \<noteq> [] \<and>
      members = map snapshot_of (filter (\<lambda>s. queue_group s = Some qg) l)" using "2.prems" by simp
  from "2.IH" [OF this] obtain chosen where "group_picks (xorshift r) groups = map snapshot_of chosen"
    "set chosen \<subseteq> set l" "map queue_group chosen = map (Some \<circ> fst) groups" by blast
  ultimately show ?case using c by (intro exI [of _ "c ! i # chosen"]) (simp flip: i_def)
qed simp

text \<open>One subscriber of each queue group among those that matched.\<close>

definition one_per_group :: "sub list \<Rightarrow> sub list \<Rightarrow> bool" where
  "one_per_group l chosen \<longleftrightarrow> set chosen \<subseteq> set l \<and> distinct (map queue_group chosen) \<and>
     queue_group ` set chosen = queue_group ` set l - {None}"

lemma picks_one_per_group:
  assumes "groups_ok l groups"
  shows "(\<forall>(qg, members)\<in>set groups. members \<noteq> []) \<and>
    (\<exists>chosen. group_picks r groups = map snapshot_of chosen \<and> one_per_group l chosen)"
proof -
  have ne: "members \<noteq> []" if "(qg, members) \<in> set groups" for qg members
  proof -
    have "qg \<in> fst ` set groups" using that by force
    then obtain s where "s \<in> set l" "queue_group s = Some qg" using groups_okD(2) [OF assms] by blast
    with groups_okD(3) [OF assms that] show ?thesis by (auto simp: filter_empty_conv)
  qed
  with groups_okD(3) [OF assms] have "\<forall>(qg, members)\<in>set groups. members \<noteq> [] \<and>
      members = map snapshot_of (filter (\<lambda>s. queue_group s = Some qg) l)" by blast
  from picks_chosen [OF this, of r] obtain chosen where c: "group_picks r groups = map snapshot_of chosen"
    "set chosen \<subseteq> set l" "map queue_group chosen = map (Some \<circ> fst) groups" by blast
  have "distinct (map queue_group chosen)"
    unfolding c(3) using groups_okD(1) [OF assms] by (simp add: distinct_map inj_on_def)
  moreover have "queue_group ` set chosen = Some ` fst ` set groups"
    using c(3) by (metis (no_types, lifting) image_comp list.set_map)
  moreover have "Some ` fst ` set groups = queue_group ` set l - {None}"
  proof (rule set_eqI)
    fix g
    have "Some qg \<in> Some ` fst ` set groups \<longleftrightarrow> Some qg \<in> queue_group ` set l" for qg
    proof -
      have "Some qg \<in> Some ` fst ` set groups \<longleftrightarrow> qg \<in> fst ` set groups" by blast
      also have "\<dots> \<longleftrightarrow> Some qg \<in> queue_group ` set l"
        using groups_okD(2) [OF assms, of qg] by (simp add: image_iff eq_commute)
      finally show ?thesis .
    qed
    then show "g \<in> Some ` fst ` set groups \<longleftrightarrow> g \<in> queue_group ` set l - {None}"
      by (cases g) auto
  qed
  ultimately have "one_per_group l chosen" using c(2) by (simp add: one_per_group_def)
  moreover have "\<forall>(qg, members)\<in>set groups. members \<noteq> []" using ne by auto
  ultimately show ?thesis using c(1) by blast
qed

section \<open>Dispatch\<close>

lemma dispatch_effect:
  assumes "worker_invar w" "length payload \<le> isize_max" "matched (table w) subject = Inr l"
  shows "\<exists>chosen w'. dispatch_local notify_one subject reply_to payload w = Some (Inr (), w') \<and>
    worker_invar w' \<and> same_config w w' \<and> same_ids (states w) (states w') \<and> one_per_group l chosen \<and>
    states w' = fold (post_msg notify_one (connections w) subject reply_to payload)
      (map snapshot_of (filter (\<lambda>s. queue_group s = None) l @ chosen)) (states w)"
proof -
  have inv: "trie_invar (table w)" using assms(1) by (simp add: worker_invar_def)
  let ?plain = "map snapshot_of (filter (\<lambda>s. queue_group s = None) l)"
  obtain groups where g: "fold collect_sub l ([], []) = (?plain, groups)" "groups_ok l groups"
    using collect_effect [of l] by blast
  then have f: "for_each_match (table w) subject collect_sub ([], []) = Inr (?plain, groups)"
    by (simp add: for_each_match_eq [OF inv] assms(3))
  from deliver_plain_effect [OF assms(1,2), of notify_one subject reply_to ?plain] obtain w1 where
    w1: "deliver_plain notify_one subject reply_to payload ?plain w = Some w1" "worker_invar w1"
      "same_config w w1" "rng w1 = rng w" "same_ids (states w) (states w1)"
      "states w1 = fold (post_msg notify_one (connections w) subject reply_to payload) ?plain (states w)"
    by blast
  from picks_one_per_group [OF g(2), of "rng w"] obtain chosen where
    c: "group_picks (rng w) groups = map snapshot_of chosen" "one_per_group l chosen"
      "\<forall>(qg, members)\<in>set groups. members \<noteq> []" by blast
  from deliver_groups_effect [OF w1(2) assms(2) c(3), of notify_one subject reply_to] obtain w2 where
    w2: "deliver_groups notify_one subject reply_to payload groups w1 = Some w2" "worker_invar w2"
      "same_config w1 w2" "same_ids (states w1) (states w2)"
      "states w2 = fold (post_msg notify_one (connections w1) subject reply_to payload)
         (group_picks (rng w1) groups) (states w1)" by blast
  have "dispatch_local notify_one subject reply_to payload w = Some (Inr (), w2)"
    by (simp add: dispatch_local_def f w1(1) w2(1))
  moreover have "same_config w w2" "same_ids (states w) (states w2)"
    using w1 w2 by (auto simp: same_config_def elim: same_ids_trans)
  ultimately show ?thesis using w1 w2 c by (auto simp: same_config_def)
qed

lemma dispatch_rejected:
  "worker_invar w \<Longrightarrow> matched (table w) subject = Inl e \<Longrightarrow>
   dispatch_local notify_one subject reply_to payload w = Some (Inl e, w)"
  by (simp add: dispatch_local_def for_each_match_eq worker_invar_def)

end
