(* ===== verification/Worker_Publish.thy ===== *)
theory Worker_Publish
  imports Worker_Facts
begin

text \<open>
  Publishing across shards and the safety of the frame handler: what a publish does to the inboxes
  and wakers of the other shards, and that no frame makes the worker panic or break its invariant.
\<close>

section \<open>The other shards\<close>

text \<open>What the publisher's shard has checked before it forwards a frame.\<close>

definition frame_ok :: "published_frame \<Rightarrow> bool" where
  "frame_ok fr \<longleftrightarrow> length (pf_payload fr) \<le> MAX_PAYLOAD_BYTES \<and> \<not> isl (parse_publisher_subject (pf_subject fr))"

definition inbox_ok :: "published_frame shard_inbox \<Rightarrow> bool" where
  "inbox_ok ib \<longleftrightarrow> ring_invar ib \<and> (\<forall>fr\<in>set (ring_content ib). frame_ok fr)"

definition fabric_invar :: "'w fabric \<Rightarrow> bool" where
  "fabric_invar fab \<longleftrightarrow> (\<forall>ib\<in>set (peer_inboxes fab). inbox_ok ib)"

definition fabric_kept :: "'w fabric \<Rightarrow> 'w fabric \<Rightarrow> bool" where
  "fabric_kept fab fab' \<longleftrightarrow> fabric_invar fab' \<and> length (peer_inboxes fab') = length (peer_inboxes fab) \<and>
     length (peer_wakers fab') = length (peer_wakers fab)"

lemma fabric_kept_refl: "fabric_invar fab \<Longrightarrow> fabric_kept fab fab"
  by (simp add: fabric_kept_def)

lemma fabric_kept_trans: "fabric_kept fab fab1 \<Longrightarrow> fabric_kept fab1 fab2 \<Longrightarrow> fabric_kept fab fab2"
  by (simp add: fabric_kept_def)

definition full :: "'a shard_inbox \<Rightarrow> bool" where
  "full ib \<longleftrightarrow> length (ring_content ib) = inbox_capacity ib"

lemma empty_not_full: "ring_invar ib \<Longrightarrow> ring_content ib = [] \<Longrightarrow> \<not> full ib"
  by (auto simp: ring_invar_iff full_def dest!: ring_atD)

text \<open>What a push of one frame to the peers in \<open>is\<close> makes of the fabric.\<close>

definition forwarded ::
  "('w \<Rightarrow> 'w) \<Rightarrow> nat \<Rightarrow> published_frame \<Rightarrow> nat set \<Rightarrow> 'w fabric \<Rightarrow> 'w fabric \<Rightarrow> bool" where
  "forwarded wake our_idx fr is fab fab' \<longleftrightarrow>
     length (peer_inboxes fab') = length (peer_inboxes fab) \<and>
     length (peer_wakers fab') = length (peer_wakers fab) \<and>
     (\<forall>j < length (peer_inboxes fab). ring_content (peer_inboxes fab' ! j) =
        ring_content (peer_inboxes fab ! j) @
        (if j \<in> is \<and> j \<noteq> our_idx \<and> \<not> full (peer_inboxes fab ! j) then [fr] else [])) \<and>
     (\<forall>j < length (peer_wakers fab). peer_wakers fab' ! j =
        (if j \<in> is \<and> j \<noteq> our_idx \<and> ring_content (peer_inboxes fab ! j) = []
         then wake (peer_wakers fab ! j) else peer_wakers fab ! j))"

text \<open>Our own shard and a full peer do not count.\<close>

lemma forwarded_insert:
  assumes "i = our_idx \<or> full (peer_inboxes fab ! i) \<and> ring_content (peer_inboxes fab ! i) \<noteq> []"
  shows "forwarded wake our_idx fr (insert i is) fab fab' = forwarded wake our_idx fr is fab fab'"
proof -
  have "(j \<in> insert i is \<and> j \<noteq> our_idx \<and> \<not> full (peer_inboxes fab ! j)) =
      (j \<in> is \<and> j \<noteq> our_idx \<and> \<not> full (peer_inboxes fab ! j))"
    "(j \<in> insert i is \<and> j \<noteq> our_idx \<and> ring_content (peer_inboxes fab ! j) = []) =
      (j \<in> is \<and> j \<noteq> our_idx \<and> ring_content (peer_inboxes fab ! j) = [])" for j
    using assms by auto
  then show ?thesis unfolding forwarded_def by (simp only:)
qed

lemma fabric_invar_update:
  "fabric_invar fab \<Longrightarrow> inbox_ok ib \<Longrightarrow> fabric_invar (fab\<lparr>peer_inboxes := (peer_inboxes fab)[i := ib]\<rparr>)"
  using set_update_subset_insert [of "peer_inboxes fab" i ib] by (auto simp: fabric_invar_def)

lemma push_peers_effect:
  assumes "fabric_invar fab" "distinct is" "\<forall>i\<in>set is. i < length (peer_inboxes fab)" "frame_ok fr"
  shows "\<exists>fab'. push_peers wake spurious our_idx fr is seen fab =
      Some (seen \<or> (\<exists>i\<in>set is. i \<noteq> our_idx \<and> full (peer_inboxes fab ! i)), fab') \<and>
    fabric_invar fab' \<and> forwarded wake our_idx fr (set is) fab fab'"
  using assms
proof (induction "is" arbitrary: fab seen)
  case Nil
  then show ?case by (simp add: forwarded_def)
next
  case (Cons i "is")
  show ?case
  proof (cases "i = our_idx")
    case True
    with Cons.IH [OF Cons.prems(1), of seen] Cons.prems show ?thesis
      by (auto simp: forwarded_insert)
  next
    case False
    let ?ib = "peer_inboxes fab ! i"
    have i: "i < length (peer_inboxes fab)" "i \<notin> set is" using Cons.prems by simp_all
    have ib: "inbox_ok ?ib" using Cons.prems(1) i(1) by (simp add: fabric_invar_def)
    then have inv: "ring_invar ?ib" by (simp add: inbox_ok_def)
    show ?thesis
    proof (cases "full ?ib")
      case True
      with inbox.put_full [OF inv] have p: "push (spurious i) ?ib fr = Some (Inl fr, ?ib)"
        by (simp add: full_def)
      have "fab\<lparr>peer_inboxes := (peer_inboxes fab)[i := ?ib]\<rparr> = fab" by simp
      moreover have "ring_content ?ib \<noteq> []" using True empty_not_full [OF inv] by blast
      ultimately show ?thesis using p i False Cons.IH [OF Cons.prems(1), of True] Cons.prems True
        by (auto simp: index_get_def forwarded_insert)
    next
      case not_full: False
      with inbox.bounded [OF inv] have "length (ring_content ?ib) < inbox_capacity ?ib"
        by (simp add: full_def)
      from inbox.put_room [OF inv this, of "spurious i" fr] obtain ib' where
        p: "push (spurious i) ?ib fr = Some (Inr (ring_content ?ib = []), ib')" "ring_invar ib'"
          "ring_content ib' = ring_content ?ib @ [fr]" by blast
      define fab1 where "fab1 = fab\<lparr>peer_inboxes := (peer_inboxes fab)[i := ib']\<rparr>"
      define fab2 where "fab2 = (if ring_content ?ib = [] \<and> i < length (peer_wakers fab1)
        then fab1\<lparr>peer_wakers := (peer_wakers fab1)[i := wake (peer_wakers fab1 ! i)]\<rparr> else fab1)"
      have "inbox_ok ib'" using p(2,3) ib Cons.prems(4) by (simp add: inbox_ok_def)
      then have inv2: "fabric_invar fab2"
        using fabric_invar_update [OF Cons.prems(1), of ib' i] by (simp add: fab2_def fab1_def fabric_invar_def)
      have ibs: "peer_inboxes fab2 = (peer_inboxes fab)[i := ib']" by (simp add: fab2_def fab1_def)
      have ws: "length (peer_wakers fab2) = length (peer_wakers fab)"
        "j < length (peer_wakers fab) \<Longrightarrow> peer_wakers fab2 ! j =
          (if j = i \<and> ring_content ?ib = [] then wake (peer_wakers fab ! j) else peer_wakers fab ! j)" for j
        by (auto simp: fab2_def fab1_def)
      from Cons.IH [OF inv2, of seen] Cons.prems obtain fab' where
        f: "push_peers wake spurious our_idx fr is seen fab2 =
            Some (seen \<or> (\<exists>i\<in>set is. i \<noteq> our_idx \<and> full (peer_inboxes fab2 ! i)), fab')"
          "fabric_invar fab'" "forwarded wake our_idx fr (set is) fab2 fab'"
        by (auto simp: ibs)
      have same: "peer_inboxes fab2 ! j = peer_inboxes fab ! j" if "j \<in> set is" for j
      proof -
        have "i \<noteq> j" using that i(2) by blast
        then show ?thesis by (simp add: ibs)
      qed
      then have "(\<exists>i\<in>set is. i \<noteq> our_idx \<and> full (peer_inboxes fab2 ! i)) \<longleftrightarrow>
          (\<exists>i\<in>set is. i \<noteq> our_idx \<and> full (peer_inboxes fab ! i))" by auto
      moreover have "push_peers wake spurious our_idx fr (i # is) seen fab =
          push_peers wake spurious our_idx fr is seen fab2"
        using False i p(1) by (simp add: index_get_def fab2_def fab1_def Let_def)
      moreover have "forwarded wake our_idx fr (set (i # is)) fab fab'"
        using f(3) i False not_full p(3) ws unfolding forwarded_def
        by (auto simp: ibs nth_list_update)
      ultimately show ?thesis using f not_full by auto
    qed
  qed
qed

text \<open>A new fabric: every shard has an empty inbox of the requested capacity and its waker.\<close>

lemma new_inbox: "\<exists>ib :: 'a shard_inbox. with_capacity SHARD_INBOX_CAPACITY = Some ib \<and> ring_invar ib \<and> ring_content ib = [] \<and>
  inbox_capacity ib = SHARD_INBOX_CAPACITY"
proof -
  obtain k and ib :: "'a shard_inbox" where k: "with_capacity SHARD_INBOX_CAPACITY = Some ib" "ring_at k ib []"
    "SHARD_INBOX_CAPACITY \<le> 2 ^ k" "2 ^ k < 2 * SHARD_INBOX_CAPACITY"
    using with_capacity_ring [of SHARD_INBOX_CAPACITY] by (auto simp: SHARD_INBOX_CAPACITY_def)
  then have "(2 :: nat) ^ 12 \<le> 2 ^ k" "(2 :: nat) ^ k < 2 ^ 13" by (simp_all add: SHARD_INBOX_CAPACITY_def)
  then have "k = 12" by (simp only: power_increasing_iff power_strict_increasing_iff)
  with k ring_atD [OF k(2)] show ?thesis by (simp add: SHARD_INBOX_CAPACITY_def)
qed

lemma build_fabric_ok:
  assumes "fabric_invar fab" "\<forall>ib\<in>set (peer_inboxes fab). ring_content ib = [] \<and> inbox_capacity ib = SHARD_INBOX_CAPACITY"
  shows "\<exists>fab'. build_fabric (map Inr pairs) readers fab = Some (Inr (readers @ map (Some \<circ> fst) pairs, fab')) \<and>
    fabric_invar fab' \<and>
    (\<forall>ib\<in>set (peer_inboxes fab'). ring_content ib = [] \<and> inbox_capacity ib = SHARD_INBOX_CAPACITY) \<and>
    length (peer_inboxes fab') = length (peer_inboxes fab) + length pairs \<and>
    peer_wakers fab' = peer_wakers fab @ map snd pairs"
  using assms
proof (induction pairs arbitrary: readers fab)
  case (Cons p pairs)
  obtain r v where p: "p = (r, v)" by force
  obtain ib :: "published_frame shard_inbox" where ib: "with_capacity SHARD_INBOX_CAPACITY = Some ib" "ring_invar ib"
    "ring_content ib = []" "inbox_capacity ib = SHARD_INBOX_CAPACITY" using new_inbox by blast
  let ?fab = "fab\<lparr>peer_inboxes := peer_inboxes fab @ [ib], peer_wakers := peer_wakers fab @ [v]\<rparr>"
  have "fabric_invar ?fab" using Cons.prems(1) ib by (simp add: fabric_invar_def inbox_ok_def)
  moreover have "\<forall>ib\<in>set (peer_inboxes ?fab). ring_content ib = [] \<and> inbox_capacity ib = SHARD_INBOX_CAPACITY"
    using Cons.prems(2) ib by simp
  ultimately show ?case using Cons.IH [of ?fab "readers @ [Some r]"] p ib(1) by simp
qed simp

lemma build_fabric_start:
  "\<exists>fab. build_fabric (map Inr pairs) [] no_fabric = Some (Inr (map (Some \<circ> fst) pairs, fab)) \<and>
    fabric_invar fab \<and>
    (\<forall>ib\<in>set (peer_inboxes fab). ring_content ib = [] \<and> inbox_capacity ib = SHARD_INBOX_CAPACITY) \<and>
    length (peer_inboxes fab) = length pairs \<and> peer_wakers fab = map snd pairs"
  using build_fabric_ok [of no_fabric pairs "[]"] by (simp add: no_fabric_def fabric_invar_def)

section \<open>Handlers keep the invariant\<close>

text \<open>What every handler preserves.\<close>

definition kept :: "'n worker \<Rightarrow> 'n worker \<Rightarrow> bool" where
  "kept w w' \<longleftrightarrow> worker_invar w' \<and> connections w' = connections w \<and> worker_shard w' = worker_shard w \<and>
     next_conn_id w' = next_conn_id w \<and> same_ids (states w) (states w')"

lemma kept_refl: "worker_invar w \<Longrightarrow> kept w w"
  by (simp add: kept_def worker_states_ok)

lemma kept_trans: "kept w w1 \<Longrightarrow> kept w1 w2 \<Longrightarrow> kept w w2"
  by (auto simp: kept_def elim: same_ids_trans)

lemma kept_length: "kept w w' \<Longrightarrow> length (states w') = length (states w)"
  by (simp add: kept_def same_ids_length)

lemma kept_table: "kept w w1 \<Longrightarrow> trie_invar t \<Longrightarrow> kept w (w1\<lparr>table := t\<rparr>)"
  by (auto simp: kept_def worker_invar_def)

lemma enqueue_at_kept:
  assumes "worker_invar w" "a < length (states w)"
  shows "enqueue_at notify_one a bs w = Some (w\<lparr>states := post_at notify_one a bs (states w)\<rparr>)"
    "kept w (w\<lparr>states := post_at notify_one a bs (states w)\<rparr>)"
proof -
  show "enqueue_at notify_one a bs w = Some (w\<lparr>states := post_at notify_one a bs (states w)\<rparr>)"
    using assms by (rule enqueue_at_eq)
  have "same_ids (states w) (post_at notify_one a bs (states w))"
    using same_ids_post [OF worker_states_ok [OF assms(1)] assms(2)] .
  with worker_invar_states [OF assms(1) this] show "kept w (w\<lparr>states := post_at notify_one a bs (states w)\<rparr>)"
    by (simp add: kept_def)
qed

lemma emit_err_to_kept:
  assumes "worker_invar w" "a < length (states w)" "length msg \<le> 4000"
  shows "\<exists>w'. emit_err_to notify_one a msg w = Some w' \<and> kept w w' \<and> table w' = table w \<and>
    states w' = post_at notify_one a (encode (ErrFrame msg)) (states w)"
  using emit_err_to_eq [OF assms, of notify_one] enqueue_at_kept(2) [OF assms(1,2), of notify_one "encode (ErrFrame msg)"]
  by simp

lemma error_texts_short:
  "length (subject_error_text e) \<le> 4000" "length ''shard back-pressure'' \<le> 4000"
  "length ''maximum payload exceeded'' \<le> 4000" "length ''unexpected verb'' \<le> 4000"
  "length ''UNSUB max_msgs not supported in v1'' \<le> 4000"
  by (cases e) simp_all

lemma dispatch_kept:
  assumes "worker_invar w" "length payload \<le> isize_max"
  shows "\<exists>r w'. dispatch_local notify_one subject reply_to payload w = Some (r, w') \<and> kept w w' \<and>
    table w' = table w \<and> (case matched (table w) subject of Inl e \<Rightarrow> r = Inl e \<and> w' = w | Inr l \<Rightarrow> r = Inr ())"
proof (cases "matched (table w) subject")
  case (Inl e)
  with dispatch_rejected [OF assms(1) Inl] assms(1) show ?thesis by (simp add: kept_refl)
next
  case (Inr l)
  with dispatch_effect [OF assms Inr, of notify_one reply_to] show ?thesis
    by (auto simp: kept_def same_config_def)
qed

lemma max_payload_isize: "length payload \<le> MAX_PAYLOAD_BYTES \<Longrightarrow> length payload \<le> isize_max"
  by (simp add: MAX_PAYLOAD_BYTES_def isize_max_numeral)

lemma matched_valid:
  assumes "trie_invar t" "matched t subject = Inr l"
  shows "\<not> isl (parse_publisher_subject subject)"
  using assms by (auto simp: matched_eq parse_publisher_subject_eq split: sum.splits)

text \<open>Only a validated frame is forwarded.\<close>

lemma forwarded_frame_ok:
  assumes "worker_invar w" "dispatch_local notify_one subject reply_to payload w = Some (Inr u, w1)"
    and "length payload \<le> MAX_PAYLOAD_BYTES"
  shows "frame_ok \<lparr>pf_subject = subject, pf_reply_to = reply_to, pf_payload = payload\<rparr>"
proof (cases "matched (table w) subject")
  case (Inl e)
  with dispatch_rejected [OF assms(1) Inl] assms(2) show ?thesis by simp
next
  case (Inr l)
  with matched_valid [OF _ Inr] assms(1,3) show ?thesis by (simp add: frame_ok_def worker_invar_def)
qed

lemma handle_pub_kept:
  assumes "worker_invar w" "fabric_invar fab" "a < length (states w)" "length payload \<le> MAX_PAYLOAD_BYTES"
  shows "\<exists>w' fab'. handle_pub notify_one wake spurious subject reply_to payload a w fab = Some (w', fab') \<and>
    kept w w' \<and> table w' = table w \<and> fabric_kept fab fab'"
proof -
  from dispatch_kept [OF assms(1) max_payload_isize [OF assms(4)], of notify_one subject reply_to] obtain r w1 where
    d: "dispatch_local notify_one subject reply_to payload w = Some (r, w1)" "kept w w1" "table w1 = table w"
    by blast
  then have w1: "worker_invar w1" "a < length (states w1)"
    using assms(3) kept_length [OF d(2)] by (simp_all add: kept_def)
  show ?thesis
  proof (cases r)
    case (Inl e)
    with emit_err_to_kept [OF w1, of "subject_error_text e" notify_one] error_texts_short d assms(2)
    show ?thesis by (auto simp: handle_pub_def fabric_kept_refl elim: kept_trans)
  next
    case (Inr u)
    let ?fr = "\<lparr>pf_subject = subject, pf_reply_to = reply_to, pf_payload = payload\<rparr>"
    obtain seen fab1 where p: "push_peers wake spurious (unat (worker_shard w1)) ?fr
        [0..<length (peer_inboxes fab)] False fab = Some (seen, fab1)" "fabric_kept fab fab1"
      using push_peers_effect [OF assms(2), of "[0..<length (peer_inboxes fab)]" ?fr wake spurious
          "unat (worker_shard w1)" False] forwarded_frame_ok [OF assms(1) d(1) [unfolded Inr] assms(4)]
      by (auto simp: fabric_kept_def forwarded_def)
    from emit_err_to_kept [OF w1, of "''shard back-pressure''" notify_one] error_texts_short obtain w2 where
      "emit_err_to notify_one a ''shard back-pressure'' w1 = Some w2" "kept w1 w2" "table w2 = table w1" by auto
    with d p Inr fabric_kept_refl [OF assms(2)] kept_trans [of w w1 w2] show ?thesis
      by (cases "1 < worker_shard_count fab"; cases seen) (simp_all add: handle_pub_def Let_def)
  qed
qed

text \<open>
  What a frame of a connection does to the abstract subscription table, and to the reader task's
  map from sid to subject.
\<close>

fun frame_op :: "connection_id \<Rightarrow> subscriptions \<Rightarrow> frame \<Rightarrow> table_op option" where
  "frame_op cid subs (Sub subject grp i) =
     Some (Subscribe_Op subject \<lparr>conn_id = cid, sid = i, queue_group = grp\<rparr>)"
| "frame_op cid subs (Unsub i None) = map_option (\<lambda>subject. Unsubscribe_Op subject cid i) (map_of subs i)"
| "frame_op cid subs f = None"

fun frame_subs :: "frame \<Rightarrow> subscriptions \<Rightarrow> subscriptions" where
  "frame_subs (Sub subject grp i) subs =
     (case subject_pattern subject of Inl e \<Rightarrow> subs | Inr p \<Rightarrow> AList.update i subject subs)"
| "frame_subs (Unsub i None) subs = AList.delete i subs"
| "frame_subs f subs = subs"

definition step_table :: "table_op option \<Rightarrow> subscription multiset \<Rightarrow> subscription multiset" where
  "step_table oper m = (case oper of None \<Rightarrow> m | Some op' \<Rightarrow> table_step op' m)"

definition frame_effect :: "addr \<Rightarrow> frame \<Rightarrow> 'n worker \<Rightarrow> subscriptions \<Rightarrow> 'n worker \<Rightarrow> subscriptions \<Rightarrow> bool" where
  "frame_effect a f w subs w' subs' \<longleftrightarrow> kept w w' \<and> subs' = frame_subs f subs \<and>
     trie_table (table w') = step_table (frame_op (state_id (states w ! a)) subs f) (trie_table (table w)) \<and>
     total_subscriptions (table w') \<le> Suc (total_subscriptions (table w))"

lemma frame_effect_same:
  "kept w w' \<Longrightarrow> table w' = table w \<Longrightarrow> frame_op (state_id (states w ! a)) subs f = None \<Longrightarrow>
   frame_subs f subs = subs \<Longrightarrow> frame_effect a f w subs w' subs"
  by (simp add: frame_effect_def step_table_def)

lemma handle_sub_effect:
  assumes "worker_invar w" "a < length (states w)" "total_subscriptions (table w) < usize_max"
  shows "\<exists>w' subs'. handle_frame notify_one wake spurious (Sub subject grp i) a w fab subs = Some (w', fab, subs') \<and>
    frame_effect a (Sub subject grp i) w subs w' subs'"
proof -
  have cid: "id_at w a = Some (state_id (states w ! a))" using assms(2) by (simp add: id_at_def index_get_def)
  have t: "trie_invar (table w)" using assms(1) by (simp add: worker_invar_def)
  let ?s = "\<lparr>conn_id = state_id (states w ! a), sid = i, queue_group = grp\<rparr>"
  show ?thesis
  proof (cases "subject_pattern subject")
    case (Inl e)
    from rejected_subject(1) [OF Inl, of "table w" ?s]
      emit_err_to_kept [OF assms(1,2) error_texts_short(1), of notify_one e]
    show ?thesis using cid Inl by (auto simp: Let_def frame_effect_def step_table_def)
  next
    case (Inr p)
    from trie_subscribe [OF t assms(3) Inr, of ?s] obtain t' where
      "subscribe (table w) subject ?s = Some (Inr (), t')" "trie_invar t'"
      "total_subscriptions t' = Suc (total_subscriptions (table w))"
      "trie_table t' = add_mset (p, ?s) (trie_table (table w))" by blast
    with kept_table [OF kept_refl [OF assms(1)]] cid Inr show ?thesis
      by (simp add: Let_def frame_effect_def step_table_def)
  qed
qed

lemma handle_unsub_effect:
  assumes "worker_invar w" "a < length (states w)"
  shows "\<exists>w' subs'. handle_frame notify_one wake spurious (Unsub i lim) a w fab subs = Some (w', fab, subs') \<and>
    frame_effect a (Unsub i lim) w subs w' subs'"
proof (cases "lim = None \<and> map_of subs i \<noteq> None")
  case False
  then consider (lim) k where "lim = Some k" | (none) "lim = None" "map_of subs i = None" by (cases lim) auto
  then show ?thesis
  proof cases
    case lim
    with emit_err_to_kept [OF assms error_texts_short(5), of notify_one] show ?thesis
      by (auto intro!: frame_effect_same)
  next
    case none
    then have "AList.delete i subs = subs" by (simp add: delete_absent map_of_eq_None_iff)
    with none kept_refl [OF assms(1)] show ?thesis by (auto intro!: frame_effect_same)
  qed
next
  case True
  then obtain subject where m: "map_of subs i = Some subject" "lim = None" by auto
  have cid: "id_at w a = Some (state_id (states w ! a))" using assms(2) by (simp add: id_at_def index_get_def)
  have t: "trie_invar (table w)" using assms(1) by (simp add: worker_invar_def)
  obtain b t' where "unsubscribe (table w) subject (state_id (states w ! a)) i = Some (b, t')" "trie_invar t'"
    "total_subscriptions t' \<le> total_subscriptions (table w)"
    "trie_table t' = table_step (Unsubscribe_Op subject (state_id (states w ! a)) i) (trie_table (table w))"
  proof (cases "subject_pattern subject")
    case (Inl e)
    with rejected_subject(2) [OF Inl, of "table w"] t that [of False "table w"] show ?thesis by simp
  next
    case (Inr p)
    with trie_unsubscribe [OF t Inr, of "state_id (states w ! a)" i] that show ?thesis by auto
  qed
  with kept_table [OF kept_refl [OF assms(1)]] m cid show ?thesis
    by (simp add: frame_effect_def step_table_def)
qed

lemma handle_frame_effect:
  assumes "worker_invar w" "fabric_invar fab" "a < length (states w)"
    and "total_subscriptions (table w) < usize_max"
  shows "\<exists>w' fab' subs'. handle_frame notify_one wake spurious f a w fab subs = Some (w', fab', subs') \<and>
    frame_effect a f w subs w' subs' \<and> fabric_kept fab fab'"
proof -
  note fk = fabric_kept_refl [OF assms(2)]
  note err = emit_err_to_kept [OF assms(1,3), where notify_one = notify_one]
  have unexpected: "\<exists>w'. emit_err_to notify_one a ''unexpected verb'' w = Some w' \<and> kept w w' \<and> table w' = table w"
    using err [OF error_texts_short(4)] by blast
  show ?thesis
  proof (cases f)
    case Ping
    let ?buf = "replicate 8 zero_byte"
    have "emit_pong ?buf = Some (Inr 6, encode Pong @ drop 6 ?buf)"
      using emits_fits [OF emits_emit_frame, of Pong ?buf] by (simp add: encode_def CRLF_def isize_max_numeral)
    moreover have "slice_to (encode Pong @ drop 6 ?buf) 6 = Some (encode Pong)"
      by (simp add: slice_to_def slice_range_def encode_def CRLF_def)
    ultimately show ?thesis
      using Ping enqueue_at_kept [OF assms(1,3), of notify_one "encode Pong"] fk
      by (simp add: frame_effect_same)
  next
    case (Sub subject grp i)
    with handle_sub_effect [OF assms(1,3,4)] fk show ?thesis by fast
  next
    case (Unsub i lim)
    with handle_unsub_effect [OF assms(1,3)] fk show ?thesis by fast
  next
    case (Pub subject reply_to payload)
    show ?thesis
    proof (cases "length payload > MAX_PAYLOAD_BYTES")
      case True
      with Pub err [OF error_texts_short(3)] fk show ?thesis by (auto intro!: frame_effect_same)
    next
      case False
      then have "length payload \<le> MAX_PAYLOAD_BYTES" by simp
      from handle_pub_kept [OF assms(1-3) this, of notify_one wake spurious subject reply_to] False Pub
      show ?thesis by (auto intro!: frame_effect_same)
    qed
  qed (use unexpected fk assms kept_refl [OF assms(1)] in \<open>auto intro!: frame_effect_same\<close>)
qed

section \<open>What a connection receives\<close>

text \<open>
  The messages of a dispatch that go to the connection at an address, as bytes.  A message that
  does not fit the scratch buffer is dropped.
\<close>

definition messages_for ::
  "(connection_id \<rightharpoonup> addr) \<Rightarrow> addr \<Rightarrow> bytes \<Rightarrow> bytes option \<Rightarrow> bytes \<Rightarrow> snapshot list \<Rightarrow> bytes" where
  "messages_for conns a subject reply_to payload es =
     concat (map (\<lambda>(cid, sub_id). encode (Msg subject sub_id reply_to payload))
       (filter (\<lambda>(cid, sub_id). conns cid = Some a \<and>
          length (encode (Msg subject sub_id reply_to payload)) \<le> EMIT_SCRATCH_CAPACITY) es))"

lemma messages_for_Cons:
  "messages_for conns a subject reply_to payload ((cid, sub_id) # es) =
     (if conns cid = Some a \<and> length (encode (Msg subject sub_id reply_to payload)) \<le> EMIT_SCRATCH_CAPACITY
      then encode (Msg subject sub_id reply_to payload) else []) @
     messages_for conns a subject reply_to payload es"
  by (simp add: messages_for_def)

lemma posted_fits:
  assumes "conn_invar c" "close_with c = None" "length bs \<le> free_bytes c"
  shows "conn_invar (posted notify_one bs c) \<and> pending (posted notify_one bs c) = pending c @ bs \<and>
    free_bytes (posted notify_one bs c) = free_bytes c - length bs \<and> close_with (posted notify_one bs c) = None"
  using enqueue_fits [OF assms, of notify_one] by (auto simp: posted_def)

lemma posted_closing: "close_with c \<noteq> None \<Longrightarrow> posted notify_one bs c = c"
  by (auto simp: posted_def enqueue_closing)

lemma post_msg_nth:
  assumes "a < length sts"
  shows "post_msg notify_one conns subject reply_to payload (cid, sub_id) sts ! a =
    (if conns cid = Some a \<and> length (encode (Msg subject sub_id reply_to payload)) \<le> EMIT_SCRATCH_CAPACITY
     then posted notify_one (encode (Msg subject sub_id reply_to payload)) (sts ! a) else sts ! a)"
  using assms by (auto simp: post_msg_def post_at_def Let_def nth_list_update split: option.split)

lemma length_post_msg [simp]: "length (post_msg notify_one conns subject reply_to payload e sts) = length sts"
  by (auto simp: post_msg_def post_at_def Let_def split: prod.split option.split)

lemma fold_post_msg_pending:
  assumes "a < length sts" "conn_invar (sts ! a)" "close_with (sts ! a) = None"
    and "length (messages_for conns a subject reply_to payload es) \<le> free_bytes (sts ! a)"
  shows "pending (fold (post_msg notify_one conns subject reply_to payload) es sts ! a) =
      pending (sts ! a) @ messages_for conns a subject reply_to payload es \<and>
    close_with (fold (post_msg notify_one conns subject reply_to payload) es sts ! a) = None"
  using assms
proof (induction es arbitrary: sts)
  case Nil
  then show ?case by (simp add: messages_for_def)
next
  case (Cons e es)
  obtain cid i where e: "e = (cid, i)" by force
  let ?m = "encode (Msg subject i reply_to payload)"
  let ?sts = "post_msg notify_one conns subject reply_to payload e sts"
  show ?case
  proof (cases "conns cid = Some a \<and> length ?m \<le> EMIT_SCRATCH_CAPACITY")
    case True
    with Cons.prems(4) e have "length ?m \<le> free_bytes (sts ! a)" by (simp add: messages_for_Cons)
    from posted_fits [OF Cons.prems(2,3) this, of notify_one] True e Cons.prems Cons.IH [of ?sts]
    show ?thesis by (simp add: post_msg_nth messages_for_Cons)
  next
    case False
    with e Cons.prems Cons.IH [of ?sts] show ?thesis by (auto simp: post_msg_nth messages_for_Cons)
  qed
qed

lemma fold_post_msg_closing:
  assumes "a < length sts" "close_with (sts ! a) \<noteq> None"
  shows "fold (post_msg notify_one conns subject reply_to payload) es sts ! a = sts ! a"
  using assms
proof (induction es arbitrary: sts)
  case (Cons e es)
  obtain cid i where e: "e = (cid, i)" by force
  with Cons show ?case by (simp add: post_msg_nth posted_closing)
qed simp

definition receives :: "bytes \<Rightarrow> 'n connection_state \<Rightarrow> 'n connection_state \<Rightarrow> bool" where
  "receives bs c c' \<longleftrightarrow>
     (close_with c \<noteq> None \<longrightarrow> c' = c) \<and>
     (close_with c = None \<and> length bs \<le> free_bytes c \<longrightarrow>
        pending c' = pending c @ bs \<and> close_with c' = None)"

lemma fold_post_msg_receives:
  assumes "a < length sts" "conn_invar (sts ! a)"
  shows "receives (messages_for conns a subject reply_to payload es) (sts ! a)
    (fold (post_msg notify_one conns subject reply_to payload) es sts ! a)"
  using assms fold_post_msg_closing [OF assms(1)] fold_post_msg_pending [OF assms] by (simp add: receives_def)

lemma dispatch_delivers:
  assumes "worker_invar w" "length payload \<le> isize_max"
    and "for_each_match (table w) subject (\<lambda>s l. l @ [s]) [] = Inr l"
  shows "\<exists>chosen w'. dispatch_local notify_one subject reply_to payload w = Some (Inr (), w') \<and>
    set chosen \<subseteq> set l \<and> distinct (map queue_group chosen) \<and>
    queue_group ` set chosen = queue_group ` set l - {None} \<and>
    worker_invar w' \<and> table w' = table w \<and> connections w' = connections w \<and>
    (\<forall>a < length (states w). receives (messages_for (connections w) a subject reply_to payload
       (map (\<lambda>s. (conn_id s, sid s)) (filter (\<lambda>s. queue_group s = None) l @ chosen)))
       (states w ! a) (states w' ! a))"
proof -
  have m: "matched (table w) subject = Inr l" using assms(3) by (simp add: matched_def)
  from dispatch_effect [OF assms(1,2) m, of notify_one reply_to] obtain chosen w' where
    d: "dispatch_local notify_one subject reply_to payload w = Some (Inr (), w')" "worker_invar w'"
      "same_config w w'" "one_per_group l chosen"
      "states w' = fold (post_msg notify_one (connections w) subject reply_to payload)
         (map snapshot_of (filter (\<lambda>s. queue_group s = None) l @ chosen)) (states w)" by blast
  have served: "receives (messages_for (connections w) a subject reply_to payload
      (map snapshot_of (filter (\<lambda>s. queue_group s = None) l @ chosen))) (states w ! a) (states w' ! a)"
    if "a < length (states w)" for a
    unfolding d(5) using that assms(1) by (intro fold_post_msg_receives) (simp_all add: worker_invar_def)
  then have "\<forall>a < length (states w). receives (messages_for (connections w) a subject reply_to payload
      (map (\<lambda>s. (conn_id s, sid s)) (filter (\<lambda>s. queue_group s = None) l @ chosen)))
      (states w ! a) (states w' ! a)" by blast
  with d show ?thesis unfolding one_per_group_def same_config_def by blast
qed

lemma handle_pub_forwards:
  assumes "worker_invar w" "fabric_invar fab" "a < length (states w)" "length payload \<le> MAX_PAYLOAD_BYTES"
    and "dispatch_local notify_one subject reply_to payload w = Some (Inr (), w1)"
    and "1 < length (peer_inboxes fab)"
  shows "\<exists>w' fab'. handle_pub notify_one wake spurious subject reply_to payload a w fab = Some (w', fab') \<and>
    fabric_invar fab' \<and>
    forwarded wake (unat (worker_shard w)) \<lparr>pf_subject = subject, pf_reply_to = reply_to, pf_payload = payload\<rparr>
      {0..<length (peer_inboxes fab)} fab fab' \<and>
    states w' =
      (if \<exists>j < length (peer_inboxes fab). j \<noteq> unat (worker_shard w) \<and> full (peer_inboxes fab ! j)
       then post_at notify_one a (encode (ErrFrame ''shard back-pressure'')) (states w1) else states w1)"
proof -
  let ?fr = "\<lparr>pf_subject = subject, pf_reply_to = reply_to, pf_payload = payload\<rparr>"
  let ?is = "[0..<length (peer_inboxes fab)]" and ?our = "unat (worker_shard w)"
  from dispatch_kept [OF assms(1) max_payload_isize [OF assms(4)], of notify_one subject reply_to] assms(5) have
    k: "kept w w1" by auto
  then have w1: "worker_invar w1" "a < length (states w1)" "worker_shard w1 = worker_shard w"
    using assms(3) kept_length [OF k] by (simp_all add: kept_def)
  from emit_err_to_kept [OF w1(1,2) error_texts_short(2), of notify_one] obtain w2 where w2:
    "emit_err_to notify_one a ''shard back-pressure'' w1 = Some w2"
    "states w2 = post_at notify_one a (encode (ErrFrame ''shard back-pressure'')) (states w1)" by blast
  define seen where "seen \<longleftrightarrow> (\<exists>j\<in>set ?is. j \<noteq> ?our \<and> full (peer_inboxes fab ! j))"
  obtain fab' where p: "push_peers wake spurious ?our ?fr ?is False fab = Some (seen, fab')"
    "fabric_invar fab'" "forwarded wake ?our ?fr (set ?is) fab fab'"
    using push_peers_effect [OF assms(2), of ?is ?fr wake spurious ?our False]
      forwarded_frame_ok [OF assms(1,5,4)] unfolding seen_def by auto
  have "handle_pub notify_one wake spurious subject reply_to payload a w fab =
      Some (if seen then w2 else w1, fab')"
    using assms(5,6) p(1) w2(1) w1(3) by (simp add: handle_pub_def worker_shard_count_def Let_def)
  moreover have "states (if seen then w2 else w1) =
      (if \<exists>j < length (peer_inboxes fab). j \<noteq> ?our \<and> full (peer_inboxes fab ! j)
       then post_at notify_one a (encode (ErrFrame ''shard back-pressure'')) (states w1) else states w1)"
    using w2(2) by (auto simp: seen_def)
  ultimately show ?thesis using p(2,3) by (intro exI conjI) simp_all
qed

text \<open>
  A worker of shard 0 with two connections: the first subscribes to \<open>a\<close>, the second is in a queue
  group on \<open>a\<close>.
\<close>

definition example_subs :: "sub list" where
  "example_subs = [\<lparr>conn_id = ConnectionId 0, sid = ''1'', queue_group = None\<rparr>,
     \<lparr>conn_id = ConnectionId 1, sid = ''7'', queue_group = Some ''q''\<rparr>]"

definition example_worker :: "nat worker" where
  "example_worker = (new_worker 0)\<lparr>
     table := \<lparr>root = Node [] [] [(''a'', Node example_subs [] [] None)] None,
       total_subscriptions = 2\<rparr>,
     connections := [ConnectionId 0 \<mapsto> 0, ConnectionId 1 \<mapsto> 1],
     next_conn_id := 2,
     states := [new_state 0 (ConnectionId 0) 64, new_state 0 (ConnectionId 1) 64]\<rparr>"

lemma example_worker_ok:
  "worker_invar example_worker" "length (states example_worker) = 2"
  "total_subscriptions (table example_worker) = 2"
  "free_bytes (states example_worker ! 0) = 64" "free_bytes (states example_worker ! 1) = 64"
  "pending (states example_worker ! 0) = []" "pending (states example_worker ! 1) = []"
  "close_with (states example_worker ! 0) = None" "close_with (states example_worker ! 1) = None"
  "matched (table example_worker) ''a'' = Inr example_subs"
  by (auto simp: example_worker_def example_subs_def worker_invar_def new_worker_def seed_nonzero trie_invar_def trie_table_def
      wf_Node entries_Node node_is_empty_def new_state_def conn_invar_def isize_max_numeral free_bytes_def
      pending_def matched_def for_each_match_def parse_publisher_subject_def is_dot_def less_Suc_eq)

text \<open>What both connections then have pending after a publish on \<open>a\<close>.\<close>

definition example_served :: "sub list \<Rightarrow> nat connection_state list \<Rightarrow> nat connection_state list \<Rightarrow> bool" where
  "example_served chosen sts sts' \<longleftrightarrow>
     set chosen \<subseteq> set example_subs \<and> distinct (map queue_group chosen) \<and>
     queue_group ` set chosen = queue_group ` set example_subs - {None} \<and>
     (\<forall>a < length (states example_worker). receives (messages_for (connections example_worker) a ''a'' None ''hi''
        (map (\<lambda>s. (conn_id s, sid s)) (filter (\<lambda>s. queue_group s = None) example_subs @ chosen)))
        (sts ! a) (sts' ! a))"

lemma example_messages:
  "messages_for (connections example_worker) 0 ''a'' None ''hi'' [(ConnectionId 0, ''1''), (ConnectionId 1, ''7'')] =
    ''MSG a 1 2'' @ CRLF @ ''hi'' @ CRLF"
  "messages_for (connections example_worker) 1 ''a'' None ''hi'' [(ConnectionId 0, ''1''), (ConnectionId 1, ''7'')] =
    ''MSG a 7 2'' @ CRLF @ ''hi'' @ CRLF"
proof -
  have "decimal (Suc (Suc 0)) = ''2''" by code_simp
  then have m: "encode (Msg ''a'' ''1'' None ''hi'') = ''MSG a 1 2'' @ CRLF @ ''hi'' @ CRLF"
    "encode (Msg ''a'' ''7'' None ''hi'') = ''MSG a 7 2'' @ CRLF @ ''hi'' @ CRLF"
    by (simp_all add: encode_def SP_def)
  have conns: "connections example_worker = [ConnectionId 0 \<mapsto> 0, ConnectionId 1 \<mapsto> 1]"
    by (simp add: example_worker_def)
  show "messages_for (connections example_worker) 0 ''a'' None ''hi'' [(ConnectionId 0, ''1''), (ConnectionId 1, ''7'')] =
      ''MSG a 1 2'' @ CRLF @ ''hi'' @ CRLF"
    "messages_for (connections example_worker) 1 ''a'' None ''hi'' [(ConnectionId 0, ''1''), (ConnectionId 1, ''7'')] =
      ''MSG a 7 2'' @ CRLF @ ''hi'' @ CRLF"
    unfolding messages_for_Cons m conns
    by (simp_all add: messages_for_def CRLF_def EMIT_SCRATCH_CAPACITY_def MAX_PAYLOAD_BYTES_def)
qed

lemma example_served_pending:
  assumes "example_served chosen (states example_worker) sts"
  shows "pending (sts ! 0) = ''MSG a 1 2'' @ CRLF @ ''hi'' @ CRLF \<and> pending (sts ! 1) = ''MSG a 7 2'' @ CRLF @ ''hi'' @ CRLF"
proof -
  let ?s = "\<lparr>conn_id = ConnectionId 0, sid = ''1'', queue_group = None\<rparr>"
  let ?g = "\<lparr>conn_id = ConnectionId 1, sid = ''7'', queue_group = Some ''q''\<rparr>"
  have d: "set chosen \<subseteq> {?s, ?g}" "distinct (map queue_group chosen)" "queue_group ` set chosen = {Some ''q''}"
    using assms by (auto simp: example_served_def example_subs_def insert_Diff_if)
  have "set chosen \<subseteq> {?g}" using d(1,3) by force
  moreover have "length chosen = 1" using d(2,3) by (metis One_nat_def card.empty card.insert distinct_card empty_iff
      finite.emptyI length_map list.set_map)
  ultimately have c: "chosen = [?g]" by (cases chosen) auto
  have "receives (messages_for (connections example_worker) a ''a'' None ''hi'' [(ConnectionId 0, ''1''), (ConnectionId 1, ''7'')])
      (states example_worker ! a) (sts ! a)" if "a < 2" for a
    using assms that by (simp add: example_served_def example_subs_def example_worker_ok(2) c)
  from this [of 0] this [of 1] show ?thesis
    unfolding example_messages by (simp add: receives_def example_worker_ok [unfolded One_nat_def] CRLF_def)
qed

section \<open>Properties\<close>

text \<open>C3. Local fan-out of a publish: the matched subscribers without a queue group and exactly one
  member of each matched queue group are served, in that order; a connection that is open and has
  room for its messages gets exactly those, appended to what is pending, and a closing
  connection is not touched.  Table and connection map stay as they are and nothing panics.\<close>

theorem dispatch_fan_out:
  assumes "worker_invar w" "length payload \<le> isize_max"
    and "for_each_match (table w) subject (\<lambda>s l. l @ [s]) [] = Inr l"
  shows "\<exists>chosen w'. dispatch_local notify_one subject reply_to payload w = Some (Inr (), w') \<and>
    set chosen \<subseteq> set l \<and> distinct (map queue_group chosen) \<and>
    queue_group ` set chosen = queue_group ` set l - {None} \<and>
    worker_invar w' \<and> table w' = table w \<and> connections w' = connections w \<and>
    (\<forall>a < length (states w). receives (messages_for (connections w) a subject reply_to payload
       (map (\<lambda>s. (conn_id s, sid s)) (filter (\<lambda>s. queue_group s = None) l @ chosen)))
       (states w ! a) (states w' ! a))"
  using assms by (rule dispatch_delivers)

theorem dispatch_fan_out_witness:
  "\<exists>w'. dispatch_local Suc ''a'' None ''hi'' example_worker = Some (Inr (), w') \<and>
    pending (states w' ! 0) = ''MSG a 1 2'' @ CRLF @ ''hi'' @ CRLF \<and>
    pending (states w' ! 1) = ''MSG a 7 2'' @ CRLF @ ''hi'' @ CRLF"
proof -
  have "length ''hi'' \<le> isize_max" by (simp add: isize_max_numeral)
  from dispatch_fan_out [OF example_worker_ok(1) this example_worker_ok(10) [unfolded matched_def], of Suc None]
  obtain chosen w' where "dispatch_local Suc ''a'' None ''hi'' example_worker = Some (Inr (), w')"
    "example_served chosen (states example_worker) (states w')" unfolding example_served_def by blast
  with example_served_pending show ?thesis by blast
qed

text \<open>C21. A publish on a broker of several shards is forwarded: once the subject is valid, the frame
  goes to the back of the inbox of every other shard that is not full, exactly the wakers of the
  shards whose inbox was empty are kicked, the own inbox is left alone, and the publisher is told
  of back-pressure exactly when some other shard's inbox was full.\<close>

theorem publish_forwards:
  assumes "worker_invar w" "fabric_invar fab" "a < length (states w)" "length payload \<le> MAX_PAYLOAD_BYTES"
    and "dispatch_local notify_one subject reply_to payload w = Some (Inr (), w1)"
    and "1 < length (peer_inboxes fab)"
  shows "\<exists>w' fab'. handle_pub notify_one wake spurious subject reply_to payload a w fab = Some (w', fab') \<and>
    fabric_invar fab' \<and>
    (\<forall>j < length (peer_inboxes fab). ring_content (peer_inboxes fab' ! j) = ring_content (peer_inboxes fab ! j) @
       (if j \<noteq> unat (worker_shard w) \<and> \<not> full (peer_inboxes fab ! j)
        then [\<lparr>pf_subject = subject, pf_reply_to = reply_to, pf_payload = payload\<rparr>] else [])) \<and>
    (\<forall>j < length (peer_wakers fab). peer_wakers fab' ! j =
       (if j < length (peer_inboxes fab) \<and> j \<noteq> unat (worker_shard w) \<and> ring_content (peer_inboxes fab ! j) = []
        then wake (peer_wakers fab ! j) else peer_wakers fab ! j)) \<and>
    states w' =
      (if \<exists>j < length (peer_inboxes fab). j \<noteq> unat (worker_shard w) \<and> full (peer_inboxes fab ! j)
       then post_at notify_one a (encode (ErrFrame ''shard back-pressure'')) (states w1) else states w1)"
proof -
  obtain w' fab' where h: "handle_pub notify_one wake spurious subject reply_to payload a w fab = Some (w', fab')" "fabric_invar fab'"
    "forwarded wake (unat (worker_shard w)) \<lparr>pf_subject = subject, pf_reply_to = reply_to, pf_payload = payload\<rparr>
      {0..<length (peer_inboxes fab)} fab fab'"
    "states w' =
      (if \<exists>j < length (peer_inboxes fab). j \<noteq> unat (worker_shard w) \<and> full (peer_inboxes fab ! j)
       then post_at notify_one a (encode (ErrFrame ''shard back-pressure'')) (states w1) else states w1)"
    using handle_pub_forwards [OF assms, of wake spurious] by blast
  show ?thesis using h(3) by (intro exI [of _ w'] exI [of _ fab'] conjI h) (simp_all add: forwarded_def)
qed

theorem publish_forwards_witness:
  "\<exists>readers fab w' fab'. build_fabric (map Inr [(''r0'', 0), (''r1'', 0)]) [] no_fabric =
      Some (Inr (readers, fab) :: unit + bytes option list \<times> nat fabric) \<and>
    handle_pub Suc Suc (\<lambda>i. [True]) ''b'' None ''hi'' 0 example_worker fab = Some (w', fab') \<and>
    ring_content (peer_inboxes fab' ! 0) = [] \<and>
    ring_content (peer_inboxes fab' ! 1) = [\<lparr>pf_subject = ''b'', pf_reply_to = None, pf_payload = ''hi''\<rparr>] \<and>
    peer_wakers fab' ! 0 = 0 \<and> peer_wakers fab' ! 1 = 1"
proof -
  let ?pairs = "[(''r0'', 0 :: nat), (''r1'', 0)]"
  obtain fab where fab: "build_fabric (map Inr ?pairs) [] no_fabric = Some (Inr (map (Some \<circ> fst) ?pairs, fab) :: unit + _)"
    "fabric_invar fab" "\<forall>ib\<in>set (peer_inboxes fab). ring_content ib = [] \<and> inbox_capacity ib = SHARD_INBOX_CAPACITY"
    "length (peer_inboxes fab) = length ?pairs" "peer_wakers fab = map snd ?pairs"
    using build_fabric_start [of ?pairs] by blast
  then have e: "ring_content (peer_inboxes fab ! 0) = []" "ring_content (peer_inboxes fab ! 1) = []"
    "\<not> full (peer_inboxes fab ! 0)" "\<not> full (peer_inboxes fab ! 1)"
    by (simp_all add: full_def SHARD_INBOX_CAPACITY_def)
  have len: "length ''hi'' \<le> MAX_PAYLOAD_BYTES" by (simp add: MAX_PAYLOAD_BYTES_def)
  obtain w1 where w1: "dispatch_local Suc ''b'' None ''hi'' example_worker = Some (Inr (), w1)"
    using dispatch_kept [OF example_worker_ok(1) max_payload_isize [OF len], of Suc "''b''" None]
    by (auto simp: example_worker_def matched_def for_each_match_def parse_publisher_subject_def is_dot_def)
  have "(0 :: nat) < length (states example_worker)" "unat (worker_shard example_worker) = 0"
    by (simp_all add: example_worker_ok) (simp add: example_worker_def new_worker_def)
  moreover from this publish_forwards [OF example_worker_ok(1) fab(2) _ len w1, of 0 Suc "\<lambda>i. [True]"] fab(4)
  obtain w' fab' where "handle_pub Suc Suc (\<lambda>i. [True]) ''b'' None ''hi'' 0 example_worker fab = Some (w', fab')"
    "\<forall>j<2. ring_content (peer_inboxes fab' ! j) = ring_content (peer_inboxes fab ! j) @
       (if j \<noteq> 0 \<and> \<not> full (peer_inboxes fab ! j)
        then [\<lparr>pf_subject = ''b'', pf_reply_to = None, pf_payload = ''hi''\<rparr>] else [])"
    "\<forall>j < length (peer_wakers fab). peer_wakers fab' ! j =
       (if j < 2 \<and> j \<noteq> 0 \<and> ring_content (peer_inboxes fab ! j) = []
        then Suc (peer_wakers fab ! j) else peer_wakers fab ! j)"
    by (auto simp: numeral_2_eq_2)
  ultimately show ?thesis using fab e by (intro exI conjI) (auto simp: numeral_2_eq_2)
qed

text \<open>C14. Every frame is handled without a panic and refines the abstract session: SUB with a valid
  subject adds the subscription and records it under its sid, UNSUB without a limit removes the
  connection's subscription on the subject recorded for the sid, every other frame leaves both
  alone; the invariants of worker and inboxes, the connection map and the identity of every
  connection are kept, and the counter grows by at most one.\<close>

theorem handle_frame_refines:
  assumes "worker_invar w" "fabric_invar fab" "a < length (states w)"
    and "total_subscriptions (table w) < usize_max"
  shows "\<exists>w' fab' subs'. handle_frame notify_one wake spurious f a w fab subs = Some (w', fab', subs') \<and>
    worker_invar w' \<and> fabric_invar fab' \<and> connections w' = connections w \<and>
    map state_id (states w') = map state_id (states w) \<and>
    trie_table (table w') = step_table (frame_op (state_id (states w ! a)) subs f) (trie_table (table w)) \<and>
    subs' = frame_subs f subs \<and>
    total_subscriptions (table w') \<le> Suc (total_subscriptions (table w))"
proof -
  have "map state_id (states w') = map state_id (states w)" if "kept w w'" for w'
    using that by (auto simp: kept_def same_ids_def list_eq_iff_nth_eq)
  with handle_frame_effect [OF assms, of notify_one wake spurious f subs] show ?thesis
    unfolding frame_effect_def kept_def fabric_kept_def by blast
qed

theorem handle_frame_refines_witness:
  "\<exists>w' fab' subs'. handle_frame Suc Suc (\<lambda>i. []) (Unsub ''1'' None) 0 example_worker no_fabric [(''1'', ''a'')] =
      Some (w', fab', subs') \<and> subs' = [] \<and>
    trie_table (table w') = {#([Literal ''a''], \<lparr>conn_id = ConnectionId 1, sid = ''7'', queue_group = Some ''q''\<rparr>)#}"
proof -
  have "fabric_invar no_fabric" by (simp add: fabric_invar_def no_fabric_def)
  moreover have "trie_table (table example_worker) =
      {#([Literal ''a''], \<lparr>conn_id = ConnectionId 0, sid = ''1'', queue_group = None\<rparr>),
        ([Literal ''a''], \<lparr>conn_id = ConnectionId 1, sid = ''7'', queue_group = Some ''q''\<rparr>)#}"
    "state_id (states example_worker ! 0) = ConnectionId 0"
    by (simp_all add: example_worker_def example_subs_def trie_table_def entries_Node new_state_def)
  ultimately show ?thesis
    using handle_frame_refines [OF example_worker_ok(1), of no_fabric 0 Suc Suc "\<lambda>i. []" "Unsub ''1'' None" "[(''1'', ''a'')]"]
    by (auto simp: example_worker_ok usize_max_numeral step_table_def subject_pattern_def is_dot_def classify_def
        survives_def owned_by_def)
qed

text \<open>C22. The queue-group pick is an index of a group of any positive size; the generator state is
  never zero, so it never gets stuck, no two states lead to the same next state, and
  workers of different shards start from different states.\<close>

theorem pick_index_sound:
  assumes "rng w \<noteq> 0" "0 < n"
  shows "\<exists>i w'. pick_index n w = Some (i, w') \<and> i < n \<and> rng w' \<noteq> 0 \<and> w' = w\<lparr>rng := rng w'\<rparr> \<and>
    (\<forall>v j v'. rng v \<noteq> rng w \<and> pick_index n v = Some (j, v') \<longrightarrow> rng v' \<noteq> rng w') \<and>
    rng (new_worker shard) \<noteq> 0 \<and> (shard \<noteq> shard' \<longrightarrow> rng (new_worker shard) \<noteq> rng (new_worker shard'))"
  using assms seed_nonzero [of shard] seed_inj [of shard shard'] xorshift_nonzero [OF assms(1)]
  by (auto simp: pick_index_def Let_def new_worker_def xorshift_inj)

theorem pick_index_sound_witness:
  "\<exists>i w'. pick_index 3 (new_worker 0 :: nat worker) = Some (i, w') \<and> i < 3 \<and> rng w' \<noteq> 0 \<and>
    rng (new_worker 0 :: nat worker) \<noteq> rng (new_worker 1 :: nat worker)"
  using pick_index_sound [of "new_worker 0 :: nat worker" 3 0 1] seed_nonzero [of 0]
  by (auto simp: new_worker_def)

end
