(* ===== verification/Reader_Facts.thy ===== *)
theory Reader_Facts
  imports Reader Worker_Publish Codec "HOL-Library.Sublist"
begin

text \<open>
  Correctness of the reader task, of accepting and of the drain task.  The parse loop ends and
  hands exactly the frames of the byte stream to the handlers, in order, up to the frame that closes
  the connection; the clean-up removes what the connection subscribed.
\<close>

section \<open>Closing a connection\<close>

lemma closing_at_eq [simp]: "a < length (states w) \<Longrightarrow> closing_at a w = Some (close_with (states w ! a) \<noteq> None)"
  by (simp add: closing_at_def index_get_def)

lemma mark_close_at_eq:
  "a < length (states w) \<Longrightarrow> mark_close_at notify_one a reason w =
     Some (w\<lparr>states := (states w)[a := mark_close notify_one (states w ! a) reason]\<rparr>)"
  by (simp add: mark_close_at_def index_get_def)

lemma same_ids_update:
  assumes "same_ids sts sts'" "a < length sts" "conn_invar c" "state_id c = state_id (sts' ! a)"
  shows "same_ids sts (sts'[a := c])"
proof -
  from assms have a: "a < length sts'" by (simp add: same_ids_length)
  have "map state_id (sts'[a := c]) = map state_id sts'"
    using a assms(4) by (simp add: map_update) (metis list_update_id nth_map)
  with assms(1,3) set_update_subset_insert [of sts' a c] show ?thesis by (auto simp: same_ids_def)
qed

lemma kept_update:
  assumes "worker_invar w" "a < length (states w)" "conn_invar c" "state_id c = state_id (states w ! a)"
  shows "kept w (w\<lparr>states := (states w)[a := c]\<rparr>)"
proof -
  have "same_ids (states w) ((states w)[a := c])"
    using same_ids_update [OF worker_states_ok [OF assms(1)] assms(2-4)] .
  with worker_invar_states [OF assms(1) this] show ?thesis by (simp add: kept_def)
qed

lemma mark_close_id [simp]: "state_id (mark_close notify_one c reason) = state_id c"
  by (simp add: mark_close_def Let_def)

lemma mark_close_kept:
  assumes "worker_invar w" "a < length (states w)"
  shows "kept w (w\<lparr>states := (states w)[a := mark_close notify_one (states w ! a) reason]\<rparr>)"
  using assms by (intro kept_update) (auto simp: worker_invar_def mark_close_facts)

lemma kept_address:
  assumes "kept w w'" "a < length (states w)"
  shows "a < length (states w') \<and> worker_invar w' \<and> state_id (states w' ! a) = state_id (states w ! a)"
proof -
  have l: "length (states w') = length (states w)" using assms(1) by (rule kept_length)
  have "map state_id (states w') ! a = map state_id (states w) ! a"
    using assms(1) by (simp add: kept_def same_ids_def)
  with l assms show ?thesis by (simp add: kept_def)
qed

section \<open>Handling frames one after the other\<close>

text \<open>Each frame comes with the spurious failures of its pushes.\<close>

fun handle_frames ::
  "('n \<Rightarrow> 'n) \<Rightarrow> ('w \<Rightarrow> 'w) \<Rightarrow> addr \<Rightarrow> ((nat \<Rightarrow> bool list) \<times> frame) list \<Rightarrow> 'n worker \<Rightarrow> 'w fabric \<Rightarrow>
   subscriptions \<Rightarrow> ('n worker \<times> 'w fabric \<times> subscriptions) option" where
  "handle_frames notify_one wake a [] w fab subs = Some (w, fab, subs)"
| "handle_frames notify_one wake a ((spurious, f) # sfs) w fab subs = do {
     (w1, fab1, subs1) \<leftarrow> handle_frame notify_one wake spurious f a w fab subs;
     handle_frames notify_one wake a sfs w1 fab1 subs1
   }"

text \<open>The abstract session: what a sequence of frames makes of the table and of the sid map.\<close>

fun session :: "connection_id \<Rightarrow> frame list \<Rightarrow> subscription multiset \<times> subscriptions \<Rightarrow>
    subscription multiset \<times> subscriptions" where
  "session cid [] (m, subs) = (m, subs)"
| "session cid (f # fs) (m, subs) = session cid fs (step_table (frame_op cid subs f) m, frame_subs f subs)"

lemma handle_frames_session:
  assumes "worker_invar w" "fabric_invar fab" "a < length (states w)"
    and "total_subscriptions (table w) + length sfs \<le> usize_max"
  shows "\<exists>w' fab' subs'. handle_frames notify_one wake a sfs w fab subs = Some (w', fab', subs') \<and>
    kept w w' \<and> fabric_kept fab fab' \<and>
    (trie_table (table w'), subs') = session (state_id (states w ! a)) (map snd sfs) (trie_table (table w), subs) \<and>
    total_subscriptions (table w') \<le> total_subscriptions (table w) + length sfs"
  using assms
proof (induction sfs arbitrary: w fab subs)
  case Nil
  then show ?case by (simp add: kept_refl fabric_kept_refl)
next
  case (Cons sf sfs)
  obtain sp f where sf: "sf = (sp, f)" by force
  have "total_subscriptions (table w) < usize_max" using Cons.prems(4) by simp
  from handle_frame_effect [OF Cons.prems(1-3) this, of notify_one wake sp f subs] obtain w1 fab1 subs1 where
    h: "handle_frame notify_one wake sp f a w fab subs = Some (w1, fab1, subs1)" "frame_effect a f w subs w1 subs1"
      "fabric_kept fab fab1" by blast
  then have k: "kept w w1" "fabric_invar fab1" by (simp_all add: frame_effect_def fabric_kept_def)
  note w1 = kept_address [OF k(1) Cons.prems(3)]
  have "total_subscriptions (table w1) + length sfs \<le> usize_max"
    using h(2) Cons.prems(4) by (simp add: frame_effect_def)
  with Cons.IH [of w1 fab1 subs1] w1 k(2) obtain w' fab' subs' where
    "handle_frames notify_one wake a sfs w1 fab1 subs1 = Some (w', fab', subs')" "kept w1 w'" "fabric_kept fab1 fab'"
    "(trie_table (table w'), subs') = session (state_id (states w1 ! a)) (map snd sfs) (trie_table (table w1), subs1)"
    "total_subscriptions (table w') \<le> total_subscriptions (table w1) + length sfs" by blast
  moreover note kept_trans [OF k(1) this(2)] fabric_kept_trans [OF h(3) this(3)]
  ultimately show ?case using sf h w1 by (auto simp: frame_effect_def)
qed

section \<open>The parse loop\<close>

lemma decode_length: "decode parse_frame buf = (fs, left, e) \<Longrightarrow> length fs \<le> length buf"
proof (induction "length buf" arbitrary: buf fs left e rule: less_induct)
  case less
  obtain r where r: "parse_frame buf = Some r" using wire.total by blast
  show ?case
  proof (cases r)
    case (Frame f n)
    with r wire.progress have n: "0 < n" "n \<le> length buf" by auto
    then have l: "length (drop n buf) < length buf" by simp
    obtain fs' left' e' where d: "decode parse_frame (drop n buf) = (fs', left', e')"
      by (cases "decode parse_frame (drop n buf)") auto
    from less.hyps [OF l d] n have "Suc (length fs') \<le> length buf" by simp
    with less.prems r Frame d show ?thesis by (auto simp: wire.decode_Frame)
  qed (use less.prems r wire.decode_stop in auto)
qed

text \<open>
  The loop ends; either it has handled every frame of the buffer and stopped at what is left, marking
  the connection when that is malformed, or it stopped at a frame that closed the connection.
\<close>

definition loop_ends :: "('n \<Rightarrow> 'n) \<Rightarrow> addr \<Rightarrow> bytes \<Rightarrow> frame list \<times> bytes \<times> parse_error option \<Rightarrow> frame list \<Rightarrow>
    nat \<Rightarrow> 'n worker \<Rightarrow> 'n worker \<Rightarrow> bool" where
  "loop_ends notify_one a buf d handled k w1 w' \<longleftrightarrow> k \<le> length buf \<and>
     (case d of (fs, left, e) \<Rightarrow>
       handled = fs \<and> drop k buf = left \<and>
         w' = (if e = None then w1
               else w1\<lparr>states := (states w1)[a := mark_close notify_one (states w1 ! a) ProtocolError]\<rparr>) \<or>
       prefix handled fs \<and> handled \<noteq> [] \<and> close_with (states w1 ! a) \<noteq> None \<and> w' = w1)"

lemma frames_loop_ends:
  assumes "worker_invar w" "fabric_invar fab" "a < length (states w)" "k \<le> length buf"
    and "total_subscriptions (table w) + (length buf - k) \<le> usize_max"
  shows "\<exists>sfs w1 k' w' fab' subs'. frames_loop notify_one wake spurious a buf k w fab subs = Some (k', w', fab', subs') \<and>
    handle_frames notify_one wake a sfs w fab subs = Some (w1, fab', subs') \<and>
    loop_ends notify_one a buf (decode parse_frame (drop k buf)) (map snd sfs) k' w1 w'"
  using assms
proof (induction "length buf - k" arbitrary: k w fab subs rule: less_induct)
  case less
  note inv = less.prems
  obtain r where r: "parse_frame (drop k buf) = Some r" using wire.total by blast
  have sl: "slice_from buf k = Some (drop k buf)" using inv(4) by (simp add: slice_simps)
  show ?case
  proof (cases r)
    case (Frame f n)
    with r wire.progress [of "drop k buf"] have n: "0 < n" "n \<le> length buf - k" by auto
    then have "total_subscriptions (table w) < usize_max" using inv(5) by simp
    from handle_frame_effect [OF inv(1-3) this, of notify_one wake "spurious k" f subs] obtain w1 fab1 subs1 where
      h: "handle_frame notify_one wake (spurious k) f a w fab subs = Some (w1, fab1, subs1)"
        "frame_effect a f w subs w1 subs1" "fabric_kept fab fab1" by blast
    then have w1: "a < length (states w1)" "worker_invar w1" "fabric_invar fab1"
      using kept_address [of w w1 a] inv(3) by (auto simp: frame_effect_def fabric_kept_def)
    obtain fs left e where d: "decode parse_frame (drop (k + n) buf) = (fs, left, e)"
      by (cases "decode parse_frame (drop (k + n) buf)") auto
    have d': "decode parse_frame (drop k buf) = (f # fs, left, e)"
      using wire.decode_Frame [of "drop k buf" f n] r Frame d by (simp add: add.commute)
    show ?thesis
    proof (cases "close_with (states w1 ! a) = None")
      case True
      have l: "length buf - (k + n) < length buf - k" "k + n \<le> length buf" using n by simp_all
      have "total_subscriptions (table w1) + (length buf - (k + n)) \<le> usize_max"
        using h(2) inv(5) n unfolding frame_effect_def by linarith
      from less.hyps [OF l(1) w1(2,3,1) l(2) this, of subs1] obtain sfs w2 k' w' fab' subs' where
        "frames_loop notify_one wake spurious a buf (k + n) w1 fab1 subs1 = Some (k', w', fab', subs')"
        "handle_frames notify_one wake a sfs w1 fab1 subs1 = Some (w2, fab', subs')"
        "loop_ends notify_one a buf (fs, left, e) (map snd sfs) k' w2 w'" unfolding d by blast
      then show ?thesis using r Frame sl h(1) w1(1) True d'
        by (intro exI [of _ "(spurious k, f) # sfs"] exI [of _ w2] exI [of _ k'] exI [of _ w'] exI [of _ fab'] exI [of _ subs'])
          (auto simp: frames_loop.simps [of _ _ _ _ _ k] loop_ends_def)
    next
      case False
      then show ?thesis using r Frame sl h(1) w1(1) d' n inv(4)
        by (intro exI [of _ "[(spurious k, f)]"] exI [of _ w1])
          (auto simp: frames_loop.simps [of _ _ _ _ _ k] loop_ends_def)
    qed
  next
    case NeedMore
    then show ?thesis using r sl inv(4) wire.decode_stop(1) [of "drop k buf"]
      by (intro exI [of _ "[]"] exI [of _ w]) (auto simp: frames_loop.simps [of _ _ _ _ _ k] loop_ends_def)
  next
    case (Err e)
    then show ?thesis using r sl inv(3,4) wire.decode_stop(2) [of "drop k buf" e]
      by (intro exI [of _ "[]"] exI [of _ w])
        (auto simp: frames_loop.simps [of _ _ _ _ _ k] loop_ends_def mark_close_at_eq)
  qed
qed

section \<open>One turn of the read loop\<close>

text \<open>
  The turn handles the frames that the new bytes complete.  When the connection stays open they are
  all frames of the buffer, and the rest of it is carried into the next turn.
\<close>

lemma reader_chunk_spec:
  assumes "worker_invar w" "fabric_invar fab" "a < length (states w)"
    and "total_subscriptions (table w) + MAX_FRAME_SIZE \<le> usize_max"
  shows "\<exists>leave t' w' fab' sfs w1. reader_chunk notify_one wake spurious a chunk t w fab = Some (leave, t', w', fab') \<and>
    handle_frames notify_one wake a sfs w fab (subs_map t) = Some (w1, fab', subs_map t') \<and>
    length sfs \<le> MAX_FRAME_SIZE \<and> prefix (map snd sfs) (fst (decode parse_frame (accum t @ chunk))) \<and>
    (w' = w1 \<or> w' = w1\<lparr>states := (states w1)[a := mark_close notify_one (states w1 ! a) ProtocolError]\<rparr>) \<and>
    rpc t' = rpc t \<and> leave = (close_with (states w' ! a) \<noteq> None) \<and>
    (\<not> leave \<longrightarrow> w' = w1 \<and> decode parse_frame (accum t @ chunk) = (map snd sfs, accum t', None) \<and>
       length (accum t') \<le> MAX_FRAME_SIZE)"
proof (cases "length (accum t @ chunk) > MAX_FRAME_SIZE")
  case True
  with assms show ?thesis
    by (intro exI [of _ True] exI [of _ "t\<lparr>accum := accum t @ chunk\<rparr>"] exI [of _ "[]"] exI [of _ w] exI [of _ fab]
        exI [of _ "w\<lparr>states := (states w)[a := mark_close notify_one (states w ! a) ProtocolError]\<rparr>"])
      (auto simp: reader_chunk_def Let_def mark_close_at_eq mark_close_facts split: option.split)
next
  case False
  let ?buf = "accum t @ chunk"
  obtain fs left e where d: "decode parse_frame ?buf = (fs, left, e)" by (cases "decode parse_frame ?buf") auto
  from False assms(4) have "total_subscriptions (table w) + (length ?buf - 0) \<le> usize_max" by simp
  from frames_loop_ends [OF assms(1-3) _ this, of notify_one wake spurious "subs_map t"] obtain sfs w1 k w' fab' subs' where
    f: "frames_loop notify_one wake spurious a ?buf 0 w fab (subs_map t) = Some (k, w', fab', subs')"
      "handle_frames notify_one wake a sfs w fab (subs_map t) = Some (w1, fab', subs')"
      "loop_ends notify_one a ?buf (fs, left, e) (map snd sfs) k w1 w'" using d by auto
  then have k: "k \<le> length ?buf" and pre: "prefix (map snd sfs) fs" by (auto simp: loop_ends_def)
  have sfs: "length sfs \<le> MAX_FRAME_SIZE"
    using prefix_length_le [OF pre] decode_length [OF d] False by simp
  then have "total_subscriptions (table w) + length sfs \<le> usize_max" using assms(4) by simp
  from handle_frames_session [OF assms(1-3) this, of notify_one wake "subs_map t"] f(2) have "kept w w1" by auto
  note w1 = kept_address [OF this assms(3)]
  then have w': "a < length (states w')" using f(3) by (auto simp: loop_ends_def split: if_splits)
  have "reader_chunk notify_one wake spurious a chunk t w fab =
      Some (close_with (states w' ! a) \<noteq> None, t\<lparr>accum := drop k ?buf, subs_map := subs'\<rparr>, w', fab')"
    using False f(1) w' k by (simp add: reader_chunk_def Let_def slice_simps)
  then show ?thesis using f(2,3) sfs pre d w1 False
    by (intro exI [of _ "close_with (states w' ! a) \<noteq> None"] exI [of _ "t\<lparr>accum := drop k ?buf, subs_map := subs'\<rparr>"]
        exI [of _ w'] exI [of _ fab'] exI [of _ sfs] exI [of _ w1])
      (auto simp: loop_ends_def mark_close_facts split: if_splits option.splits)
qed

section \<open>Clean-up\<close>

text \<open>The abstract clean-up of a connection with the given sid map.\<close>

fun forget :: "connection_id \<Rightarrow> subscriptions \<Rightarrow> subscription multiset \<Rightarrow> subscription multiset" where
  "forget cid [] m = m"
| "forget cid ((i, subject) # subs) m = forget cid subs (table_step (Unsubscribe_Op subject cid i) m)"

lemma unsubscribe_all_effect:
  assumes "trie_invar t"
  shows "\<exists>t'. unsubscribe_all cid subs t = Some t' \<and> trie_invar t' \<and> total_subscriptions t' \<le> total_subscriptions t \<and>
    trie_table t' = forget cid subs (trie_table t)"
  using assms
proof (induction subs arbitrary: t)
  case (Cons e subs)
  obtain i subject where e: "e = (i, subject)" by force
  obtain b t1 where "unsubscribe t subject cid i = Some (b, t1)" "trie_invar t1"
    "total_subscriptions t1 \<le> total_subscriptions t" "trie_table t1 = table_step (Unsubscribe_Op subject cid i) (trie_table t)"
  proof (cases "subject_pattern subject")
    case (Inl x)
    with rejected_subject(2) [OF Inl, of t] Cons.prems that [of False t] show ?thesis by simp
  next
    case (Inr p)
    with trie_unsubscribe [OF Cons.prems Inr, of cid i] that show ?thesis by auto
  qed
  with Cons.IH [of t1] e show ?case by auto
qed simp

lemma reader_cleanup_effect:
  assumes "worker_invar w" "a < length (states w)"
  defines "cid \<equiv> state_id (states w ! a)"
  shows "\<exists>w'. reader_cleanup notify_one a subs w = Some w' \<and> worker_invar w' \<and>
    states w' = (states w)[a := mark_close notify_one (states w ! a) PeerClosed] \<and>
    connections w' = (connections w)(cid := None) \<and> worker_shard w' = worker_shard w \<and>
    next_conn_id w' = next_conn_id w \<and> total_subscriptions (table w') \<le> total_subscriptions (table w) \<and>
    trie_table (table w') = forget cid subs (trie_table (table w))"
proof -
  obtain t where t: "unsubscribe_all cid subs (table w) = Some t" "trie_invar t"
    "total_subscriptions t \<le> total_subscriptions (table w)"
    "trie_table t = forget cid subs (trie_table (table w))"
    using unsubscribe_all_effect [of "table w" cid subs] assms(1) by (auto simp: worker_invar_def)
  let ?w = "w\<lparr>table := t, connections := (connections w)(cid := None)\<rparr>"
  have "worker_invar ?w" using assms(1) t(2) by (auto simp: worker_invar_def)
  with mark_close_kept [OF this, of a notify_one PeerClosed] assms(2) t show ?thesis
    by (simp add: reader_cleanup_def id_at_def index_get_def cid_def [symmetric] mark_close_at_eq kept_def)
qed

end
