(* ===== verification/Session.thy ===== *)
theory Session
  imports Reader_Facts
begin

text \<open>
  The life of one connection on the subscription table.  Frames and clean-up of a connection touch
  only its own subscriptions, so what a connection holds is a function of the frames it sent; the
  clean-up gives all of it back when the client keeps to one subject per sid.
\<close>

section \<open>The subscriptions of a connection\<close>

definition own :: "connection_id \<Rightarrow> subscription multiset \<Rightarrow> subscription multiset" where
  "own cid m = filter_mset (\<lambda>(q, s). conn_id s = cid) m"

lemma own_simps [simp]:
  "own cid {#} = {#}" "own cid (add_mset (q, s) m) = (if conn_id s = cid then add_mset (q, s) (own cid m) else own cid m)"
  "own cid (own cid m) = own cid m"
  by (simp_all add: own_def filter_filter_mset case_prod_unfold)

lemma own_survivors:
  "own cid (filter_mset (survives p c i) m) = filter_mset (survives p c i) (own cid m)"
  by (simp add: own_def filter_filter_mset conj_commute)

lemma own_survivors_other:
  assumes "c \<noteq> cid"
  shows "own cid (filter_mset (survives p c i) m) = own cid m"
proof -
  have "filter_mset (survives p c i) (own cid m) = own cid m"
    using assms by (auto simp: filter_mset_eq_conv own_def survives_def owned_by_def)
  then show ?thesis by (simp only: own_survivors)
qed

fun op_conn :: "table_op \<Rightarrow> connection_id" where
  "op_conn (Subscribe_Op subject s) = conn_id s"
| "op_conn (Unsubscribe_Op subject c i) = c"

lemma own_table_step:
  "own (op_conn oper) (table_step oper m) = table_step oper (own (op_conn oper) m)"
proof (cases oper)
  case (Subscribe_Op subject s)
  then show ?thesis by (cases "subject_pattern subject") simp_all
next
  case (Unsubscribe_Op subject c i)
  then show ?thesis by (cases "subject_pattern subject") (simp_all add: own_survivors)
qed

lemma own_table_step_other:
  assumes "op_conn oper \<noteq> cid"
  shows "own cid (table_step oper m) = own cid m"
proof (cases oper)
  case (Subscribe_Op subject s)
  with assms show ?thesis by (cases "subject_pattern subject") simp_all
next
  case (Unsubscribe_Op subject c i)
  with assms show ?thesis by (cases "subject_pattern subject") (simp_all add: own_survivors_other)
qed

lemma frame_op_conn: "frame_op cid subs f = Some oper \<Longrightarrow> op_conn oper = cid"
  by (cases "(cid, subs, f)" rule: frame_op.cases) auto

lemma own_frame:
  "own cid (step_table (frame_op cid subs f) m) = step_table (frame_op cid subs f) (own cid m)"
  "cid' \<noteq> cid \<Longrightarrow> own cid' (step_table (frame_op cid subs f) m) = own cid' m"
proof -
  show "own cid (step_table (frame_op cid subs f) m) = step_table (frame_op cid subs f) (own cid m)"
    using own_table_step [of "the (frame_op cid subs f)" m] frame_op_conn [of cid subs f]
    by (cases "frame_op cid subs f") (simp_all add: step_table_def)
  show "own cid' (step_table (frame_op cid subs f) m) = own cid' m" if "cid' \<noteq> cid"
    using own_table_step_other [of "the (frame_op cid subs f)" cid' m] frame_op_conn [of cid subs f] that
    by (cases "frame_op cid subs f") (simp_all add: step_table_def)
qed

lemma session_own:
  "session cid fs (m, subs) = (m', subs') \<Longrightarrow> session cid fs (own cid m, subs) = (own cid m', subs')"
proof (induction fs arbitrary: m subs)
  case (Cons f fs)
  from Cons.prems Cons.IH [of "step_table (frame_op cid subs f) m" "frame_subs f subs"] show ?case
    by (simp add: own_frame)
qed simp

lemma session_other: "session cid fs (m, subs) = (m', subs') \<Longrightarrow> cid' \<noteq> cid \<Longrightarrow> own cid' m' = own cid' m"
proof (induction fs arbitrary: m subs)
  case (Cons f fs)
  from Cons.prems Cons.IH [of "step_table (frame_op cid subs f) m" "frame_subs f subs"] show ?case
    by (simp add: own_frame)
qed simp

lemma session_append: "session cid (fs @ gs) x = session cid gs (session cid fs x)"
  by (induction fs arbitrary: x) (auto split: prod.splits)

section \<open>One subject per sid\<close>

text \<open>
  A sid that is in use is not subscribed again on a different subject.
\<close>

fun sid_fresh :: "subscriptions \<Rightarrow> frame \<Rightarrow> bool" where
  "sid_fresh subs (Sub subject grp i) =
     (case map_of subs i of
        None \<Rightarrow> True
      | Some old \<Rightarrow> isl (subject_pattern subject) \<or> subject_pattern old = subject_pattern subject)"
| "sid_fresh subs f = True"

fun sids_fresh :: "subscriptions \<Rightarrow> frame list \<Rightarrow> bool" where
  "sids_fresh subs [] = True"
| "sids_fresh subs (f # fs) = (sid_fresh subs f \<and> sids_fresh (frame_subs f subs) fs)"

lemma sids_fresh_prefix: "prefix fs gs \<Longrightarrow> sids_fresh subs gs \<Longrightarrow> sids_fresh subs fs"
proof (induction fs arbitrary: gs subs)
  case (Cons f fs)
  then show ?case by (cases gs) auto
qed simp

text \<open>Every subscription of the connection is the one that is recorded under its sid.\<close>

definition tracked :: "connection_id \<Rightarrow> subscription multiset \<Rightarrow> subscriptions \<Rightarrow> bool" where
  "tracked cid m subs \<longleftrightarrow> (\<forall>q s. (q, s) \<in># m \<and> conn_id s = cid \<longrightarrow>
     (\<exists>subject. map_of subs (sid s) = Some subject \<and> subject_pattern subject = Inr q))"

lemma trackedD:
  "tracked cid m subs \<Longrightarrow> (q, s) \<in># m \<Longrightarrow> conn_id s = cid \<Longrightarrow>
   \<exists>subject. map_of subs (sid s) = Some subject \<and> subject_pattern subject = Inr q"
  by (simp add: tracked_def)

lemma tracked_sub:
  assumes "tracked cid m subs" "sid_fresh subs (Sub subject grp i)" "subject_pattern subject = Inr p"
  shows "tracked cid (add_mset (p, \<lparr>conn_id = cid, sid = i, queue_group = grp\<rparr>) m) (AList.update i subject subs)"
  unfolding tracked_def
proof (intro allI impI, elim conjE)
  fix q s assume e: "(q, s) \<in># add_mset (p, \<lparr>conn_id = cid, sid = i, queue_group = grp\<rparr>) m" "conn_id s = cid"
  show "\<exists>subject'. map_of (AList.update i subject subs) (sid s) = Some subject' \<and> subject_pattern subject' = Inr q"
  proof (cases "(q, s) \<in># m")
    case True
    from trackedD [OF assms(1) True e(2)] obtain old where
      "map_of subs (sid s) = Some old" "subject_pattern old = Inr q" by blast
    with assms(2,3) show ?thesis by (cases "sid s = i") (auto simp: update_conv)
  next
    case False
    with e(1) assms(3) show ?thesis by (auto simp: update_conv)
  qed
qed

lemma tracked_unsub:
  assumes "tracked cid m subs"
  shows "tracked cid (step_table (frame_op cid subs (Unsub i None)) m) (AList.delete i subs)"
  unfolding tracked_def
proof (intro allI impI, elim conjE)
  fix q s assume e: "(q, s) \<in># step_table (frame_op cid subs (Unsub i None)) m" "conn_id s = cid"
  then have m: "(q, s) \<in># m" by (auto simp: step_table_def split: option.splits sum.splits)
  from trackedD [OF assms m e(2)] obtain subject where
    s: "map_of subs (sid s) = Some subject" "subject_pattern subject = Inr q" by blast
  have "sid s \<noteq> i" using e s by (auto simp: step_table_def survives_def owned_by_def)
  with s show "\<exists>subject. map_of (AList.delete i subs) (sid s) = Some subject \<and> subject_pattern subject = Inr q"
    by (simp add: delete_conv')
qed

lemma tracked_frame:
  assumes "tracked cid m subs" "sid_fresh subs f"
  shows "tracked cid (step_table (frame_op cid subs f) m) (frame_subs f subs)"
proof (cases f)
  case (Sub subject grp i)
  with assms tracked_sub [of cid m subs subject grp i] show ?thesis
    by (cases "subject_pattern subject") (simp_all add: step_table_def)
next
  case (Unsub i lim)
  with assms tracked_unsub [of cid m subs i] show ?thesis by (cases lim) (simp_all add: step_table_def)
qed (use assms in \<open>simp_all add: step_table_def\<close>)

lemma session_tracked:
  "session cid fs (m, subs) = (m', subs') \<Longrightarrow> tracked cid m subs \<Longrightarrow> sids_fresh subs fs \<Longrightarrow> tracked cid m' subs'"
  by (induction fs arbitrary: m subs) (auto intro: tracked_frame)

section \<open>Clean-up\<close>

lemma forget_own: "own cid (forget cid subs m) = forget cid subs (own cid m)"
proof (induction subs arbitrary: m)
  case (Cons e subs)
  then show ?case using own_table_step [of "Unsubscribe_Op (snd e) cid (fst e)"] by (cases e) simp
qed simp

lemma forget_other: "cid' \<noteq> cid \<Longrightarrow> own cid' (forget cid subs m) = own cid' m"
proof (induction subs arbitrary: m)
  case (Cons e subs)
  then show ?case using own_table_step_other [of "Unsubscribe_Op (snd e) cid (fst e)" cid'] by (cases e) simp
qed simp

lemma forget_removes:
  "(q, s) \<in># forget cid subs m \<Longrightarrow> (q, s) \<in># m \<and>
   (\<forall>(i, subject)\<in>set subs. subject_pattern subject = Inr q \<longrightarrow> \<not> owned_by cid i s)"
proof (induction subs arbitrary: m)
  case (Cons e subs)
  obtain i subject where e: "e = (i, subject)" by force
  from Cons.prems e have "(q, s) \<in># forget cid subs (table_step (Unsubscribe_Op subject cid i) m)" by simp
  from Cons.IH [OF this] e show ?case
    by (auto simp: survives_def split: sum.splits)
qed simp

text \<open>When every subscription is tracked, none is left.\<close>

lemma forget_tracked:
  assumes "tracked cid m subs"
  shows "own cid (forget cid subs m) = {#}"
proof (rule ccontr)
  assume "own cid (forget cid subs m) \<noteq> {#}"
  then obtain q s where e: "(q, s) \<in># forget cid subs m" "conn_id s = cid" by (auto simp: own_def filter_mset_eq_conv)
  from forget_removes [OF e(1)] have m: "(q, s) \<in># m"
    and n: "\<forall>(i, subject)\<in>set subs. subject_pattern subject = Inr q \<longrightarrow> \<not> owned_by cid i s" by auto
  from trackedD [OF assms m e(2)] obtain subject where
    "map_of subs (sid s) = Some subject" "subject_pattern subject = Inr q" by blast
  with n e(2) show False by (auto simp: owned_by_def dest!: map_of_SomeD)
qed

end
