(* ===== verification/Shard.thy ===== *)
theory Shard
  imports Session Writer
begin

text \<open>
  One shard of the running broker: the accept loop, the reader and writer tasks of all its
  connections and the drain task, interleaved at their awaits, beside the other shards, which run
  on their own threads and share only the inboxes and wakers.

  The invariant says that what a connection holds in the subscription table is at every moment what
  the abstract session gives for the bytes read from its peer, cut into frames.
\<close>

section \<open>The system\<close>

text \<open>
  \<open>readers\<close> has the reader task of each address of the store.  \<open>input\<close> records the bytes read from
  each peer, \<open>accepts\<close> the accepted connections and \<open>turns\<close> the completed reads.
\<close>

record ('n, 'w) shard_sys =
  wk :: "'n worker"
  net :: "'w fabric"
  readers :: "reader_task list"
  drain :: drain_pc
  input :: "bytes list"
  accepts :: nat
  turns :: nat

definition boot_shard :: "u32 \<Rightarrow> 'w fabric \<Rightarrow> ('n, 'w) shard_sys" where
  "boot_shard shard fab = \<lparr>wk = new_worker shard, net = fab, readers = [], drain = EventfdRead, input = [],
     accepts = 0, turns = 0\<rparr>"

definition read_bytes :: "unit + bytes \<Rightarrow> bytes" where
  "read_bytes res = (case res of Inl e \<Rightarrow> [] | Inr chunk \<Rightarrow> chunk)"

text \<open>
  While the drain loop runs, no other task of the shard does.  A push by another shard is of a frame
  which that shard has validated.
\<close>

inductive shard_step ::
  "('n \<Rightarrow> 'n) \<Rightarrow> ('n \<Rightarrow> 'n option) \<Rightarrow> ('w \<Rightarrow> 'w) \<Rightarrow> ('p \<Rightarrow> nat \<Rightarrow> ('b \<times> 'p) option) \<Rightarrow> ('b \<Rightarrow> 'p \<Rightarrow> 'p) \<Rightarrow>
   ('n, 'w) shard_sys \<Rightarrow> ('n, 'w) shard_sys \<Rightarrow> bool"
  for notify_one notified wake try_next give_back where
  accept: "\<lbrakk>drain s \<noteq> Draining;
      accept_conn try_next give_back fresh (wk s) pool = (Some (a, read_buf, write_buf), w', pool')\<rbrakk> \<Longrightarrow>
    shard_step notify_one notified wake try_next give_back s
      (s\<lparr>wk := w', readers := readers s @ [reader_start], input := input s @ [[]], accepts := Suc (accepts s)\<rparr>)"
| turn_away: "\<lbrakk>drain s \<noteq> Draining; accept_conn try_next give_back fresh (wk s) pool = (None, w', pool')\<rbrakk> \<Longrightarrow>
    shard_step notify_one notified wake try_next give_back s (s\<lparr>wk := w', accepts := Suc (accepts s)\<rparr>)"
| greet: "\<lbrakk>drain s \<noteq> Draining; a < length (readers s); rpc (readers s ! a) = Starting;
      reader_greet notify_one a (readers s ! a) (wk s) = Some (t, w')\<rbrakk> \<Longrightarrow>
    shard_step notify_one notified wake try_next give_back s (s\<lparr>wk := w', readers := (readers s)[a := t]\<rparr>)"
| read: "\<lbrakk>drain s \<noteq> Draining; a < length (readers s); rpc (readers s ! a) = Reading;
      reader_read notify_one wake spurious a res (readers s ! a) (wk s) (net s) = Some (t, w', fab')\<rbrakk> \<Longrightarrow>
    shard_step notify_one notified wake try_next give_back s
      (s\<lparr>wk := w', net := fab', readers := (readers s)[a := t],
         input := (input s)[a := input s ! a @ read_bytes res], turns := Suc (turns s)\<rparr>)"
| written: "\<lbrakk>drain s \<noteq> Draining; a < length (states (wk s)); shared ws = states (wk s) ! a;
      writer_step notify_one notified ws ws'\<rbrakk> \<Longrightarrow>
    shard_step notify_one notified wake try_next give_back s
      (s\<lparr>wk := (wk s)\<lparr>states := (states (wk s))[a := shared ws']\<rparr>\<rparr>)"
| eventfd: "\<lbrakk>drain s = EventfdRead\<rbrakk> \<Longrightarrow>
    shard_step notify_one notified wake try_next give_back s (s\<lparr>drain := drain_wake res\<rparr>)"
| dispatch: "\<lbrakk>drain s = Draining; drain_turn notify_one (wk s) (net s) = Some (pc, w', fab')\<rbrakk> \<Longrightarrow>
    shard_step notify_one notified wake try_next give_back s (s\<lparr>wk := w', net := fab', drain := pc\<rparr>)"
| peer_push: "\<lbrakk>i < length (peer_inboxes (net s)); frame_ok fr; push sp (peer_inboxes (net s) ! i) fr = Some (r, ib)\<rbrakk> \<Longrightarrow>
    shard_step notify_one notified wake try_next give_back s
      (s\<lparr>net := (net s)\<lparr>peer_inboxes := (peer_inboxes (net s))[i := ib]\<rparr>\<rparr>)"
| peer_pop: "\<lbrakk>i < length (peer_inboxes (net s)); i \<noteq> unat (worker_shard (wk s));
      pop (peer_inboxes (net s) ! i) = Some (r, ib)\<rbrakk> \<Longrightarrow>
    shard_step notify_one notified wake try_next give_back s
      (s\<lparr>net := (net s)\<lparr>peer_inboxes := (peer_inboxes (net s))[i := ib]\<rparr>\<rparr>)"
| peer_wake: "\<lbrakk>length ws = length (peer_wakers (net s))\<rbrakk> \<Longrightarrow>
    shard_step notify_one notified wake try_next give_back s (s\<lparr>net := (net s)\<lparr>peer_wakers := ws\<rparr>\<rparr>)"

inductive_cases shard_stepE: "shard_step notify_one notified wake try_next give_back s s'"

section \<open>The invariant\<close>

text \<open>What concerns one connection, and what must hold of it.\<close>

type_synonym conn_view = "connection_id \<times> reader_task \<times> bytes \<times> subscription multiset \<times> addr option"

definition conn_view :: "('n, 'w) shard_sys \<Rightarrow> addr \<Rightarrow> conn_view" where
  "conn_view s a = (let cid = state_id (states (wk s) ! a) in
     (cid, readers s ! a, input s ! a, own cid (trie_table (table (wk s))), connections (wk s) cid))"

definition conn_good :: "addr \<Rightarrow> conn_view \<Rightarrow> bool" where
  "conn_good a = (\<lambda>(cid, t, inp, held, at).
     case rpc t of
       Starting \<Rightarrow> inp = [] \<and> held = {#} \<and> at = Some a
     | Reading \<Rightarrow> at = Some a \<and> length (accum t) \<le> MAX_FRAME_SIZE \<and>
         (\<exists>fs. decode parse_frame inp = (fs, accum t, None) \<and> session cid fs ({#}, []) = (held, subs_map t))
     | Finished \<Rightarrow> at = None \<and> (sids_fresh [] (fst (decode parse_frame inp)) \<longrightarrow> held = {#}))"

text \<open>Connection identifiers are given in the order of acceptance and wrap after \<open>2 ^ 32\<close>.\<close>

definition ids_ok :: "('n, 'w) shard_sys \<Rightarrow> bool" where
  "ids_ok s \<longleftrightarrow> next_conn_id (wk s) = of_nat (accepts s) \<and>
     (\<exists>ks. distinct ks \<and> (\<forall>k\<in>set ks. k < accepts s) \<and>
        map state_id (states (wk s)) = map (\<lambda>k. ConnectionId (of_nat k)) ks)"

definition shard_good :: "('n, 'w) shard_sys \<Rightarrow> bool" where
  "shard_good s \<longleftrightarrow> worker_invar (wk s) \<and> fabric_invar (net s) \<and>
     unat (worker_shard (wk s)) < length (peer_inboxes (net s)) \<and>
     length (readers s) = length (states (wk s)) \<and> length (input s) = length (states (wk s)) \<and>
     total_subscriptions (table (wk s)) \<le> turns s * MAX_FRAME_SIZE \<and> ids_ok s \<and>
     (\<forall>c. c \<notin> set (map state_id (states (wk s))) \<longrightarrow> own c (trie_table (table (wk s))) = {#}) \<and>
     (\<forall>a < length (states (wk s)). conn_good a (conn_view s a))"

text \<open>Neither the connection identifiers nor the subscription counter have run out.\<close>

definition within_limits :: "('n, 'w) shard_sys \<Rightarrow> bool" where
  "within_limits s \<longleftrightarrow> accepts s \<le> 2 ^ 32 \<and> turns s * MAX_FRAME_SIZE \<le> usize_max"

section \<open>Preservation\<close>

lemma ids_distinct:
  assumes "ids_ok s" "accepts s \<le> 2 ^ 32"
  shows "distinct (map state_id (states (wk s)))"
proof -
  obtain ks where ks: "distinct ks" "\<forall>k\<in>set ks. k < accepts s"
    "map state_id (states (wk s)) = map (\<lambda>k. ConnectionId (of_nat k)) ks" using assms(1) by (auto simp: ids_ok_def)
  have "inj_on (\<lambda>k. ConnectionId (of_nat k)) (set ks)"
  proof (rule inj_onI)
    fix k l assume "k \<in> set ks" "l \<in> set ks" "ConnectionId (of_nat k) = ConnectionId (of_nat l)"
    moreover from this ks(2) assms(2) have "k < 2 ^ 32" "l < 2 ^ 32" by fastforce+
    ultimately show "k = l" by (simp add: word_of_nat_eq_iff take_bit_nat_eq_self)
  qed
  with ks show ?thesis by (simp add: distinct_map)
qed

lemma kept_ids: "kept w w' \<Longrightarrow> map state_id (states w') = map state_id (states w)"
  by (simp add: kept_def same_ids_def)

text \<open>A step that leaves the table, the readers and their input alone.\<close>

lemma shard_good_same:
  assumes "shard_good s" "kept (wk s) w'" "table w' = table (wk s)" "fabric_kept (net s) fab'"
  shows "shard_good (s\<lparr>wk := w', net := fab', drain := pc\<rparr>)"
proof -
  have l: "length (states w') = length (states (wk s))" using assms(2) by (rule kept_length)
  have "conn_view (s\<lparr>wk := w', net := fab', drain := pc\<rparr>) a = conn_view s a" if "a < length (states (wk s))" for a
    using kept_address [OF assms(2) that] assms(2,3) by (simp add: conn_view_def Let_def kept_def)
  with assms l kept_ids [OF assms(2)] show ?thesis
    by (simp add: shard_good_def ids_ok_def fabric_kept_def kept_def)
qed

text \<open>A step of one reader that touches only what its connection holds.\<close>

lemma shard_good_reader:
  assumes "shard_good s" "accepts s \<le> 2 ^ 32" "a < length (states (wk s))"
    and "worker_invar w'" "map state_id (states w') = map state_id (states (wk s))"
    and "worker_shard w' = worker_shard (wk s)" "next_conn_id w' = next_conn_id (wk s)"
    and "fabric_kept (net s) fab'" "total_subscriptions (table w') \<le> n * MAX_FRAME_SIZE"
    and "\<forall>c. c \<noteq> state_id (states (wk s) ! a) \<longrightarrow> own c (trie_table (table w')) = own c (trie_table (table (wk s))) \<and>
      connections w' c = connections (wk s) c"
    and "let cid = state_id (states (wk s) ! a)
      in conn_good a (cid, t, inp, own cid (trie_table (table w')), connections w' cid)"
  shows "shard_good (s\<lparr>wk := w', net := fab', readers := (readers s)[a := t], input := (input s)[a := inp], turns := n\<rparr>)"
proof -
  let ?s = "s\<lparr>wk := w', net := fab', readers := (readers s)[a := t], input := (input s)[a := inp], turns := n\<rparr>"
  have l: "length (states w') = length (states (wk s))" using assms(5) by (metis length_map)
  have id: "state_id (states w' ! b) = state_id (states (wk s) ! b)" if "b < length (states (wk s))" for b
    using assms(5) l that by (metis nth_map)
  have len: "length (readers s) = length (states (wk s))" "length (input s) = length (states (wk s))"
    using assms(1) by (simp_all add: shard_good_def)
  have d: "distinct (map state_id (states (wk s)))"
    using assms(1,2) by (intro ids_distinct) (simp_all add: shard_good_def)
  have good: "conn_good b (conn_view ?s b)" if b: "b < length (states (wk s))" for b
  proof (cases "b = a")
    case True
    with assms(3,11) id [OF assms(3)] len show ?thesis by (simp add: conn_view_def Let_def)
  next
    case False
    with d b assms(3) have "state_id (states (wk s) ! b) \<noteq> state_id (states (wk s) ! a)"
      by (auto simp: distinct_conv_nth)
    with False b id [OF b] assms(10) have "conn_view ?s b = conn_view s b"
      by (simp add: conn_view_def Let_def)
    with assms(1) b show ?thesis by (simp add: shard_good_def)
  qed
  have "state_id (states (wk s) ! a) \<in> set (map state_id (states (wk s)))" using assms(3) by simp
  with assms(1,5,10) have "\<forall>c. c \<notin> set (map state_id (states w')) \<longrightarrow> own c (trie_table (table w')) = {#}"
    unfolding shard_good_def by metis
  with assms good l len show ?thesis
    by (simp add: shard_good_def ids_ok_def fabric_kept_def)
qed

lemma reader_greet_eq:
  assumes "worker_invar w" "a < length (states w)"
  shows "reader_greet notify_one a t w = Some (t\<lparr>rpc := Reading, accum := [], subs_map := []\<rparr>,
    w\<lparr>states := post_at notify_one a (encode (Info SERVER_INFO_JSON)) (states w)\<rparr>)"
proof -
  let ?e = "encode (Info SERVER_INFO_JSON)" and ?buf = "replicate SHORT_FRAME_BUF zero_byte"
  have l: "length ?e \<le> length ?buf" "length ?buf \<le> isize_max"
    by (simp_all add: encode_def CRLF_def SHORT_FRAME_BUF_def isize_max_numeral SERVER_INFO_JSON_def)
  with emits_fits [OF emits_emit_frame, of "Info SERVER_INFO_JSON" ?buf] have
    "emit_info SERVER_INFO_JSON ?buf = Some (Inr (length ?e), ?e @ drop (length ?e) ?buf)" by simp
  moreover have "slice_to (?e @ drop (length ?e) ?buf) (length ?e) = Some ?e" by (simp add: slice_simps)
  ultimately show ?thesis using enqueue_at_eq [OF assms, of notify_one ?e] unfolding reader_greet_def by simp
qed

text \<open>The frames of a stream that is read further.\<close>

lemma decode_more:
  assumes "decode parse_frame inp = (fs, left, None)"
  shows "decode parse_frame (inp @ ext) =
    (case decode parse_frame (left @ ext) of (gs, left', e) \<Rightarrow> (fs @ gs, left', e))"
  using wire.decode_append [of inp ext] assms by simp

text \<open>What a reader's turn does when its connection has handled \<open>fs\<close> so far.\<close>

lemma reader_leaves:
  assumes "worker_invar w" "a < length (states w)" "state_id (states w ! a) = cid"
    and "session cid fs ({#}, []) = (own cid (trie_table (table w)), subs)"
    and "prefix fs (fst (decode parse_frame inp))"
  shows "\<exists>w'. reader_cleanup notify_one a subs w = Some w' \<and> worker_invar w' \<and>
    map state_id (states w') = map state_id (states w) \<and> worker_shard w' = worker_shard w \<and>
    next_conn_id w' = next_conn_id w \<and> total_subscriptions (table w') \<le> total_subscriptions (table w) \<and>
    (\<forall>c. c \<noteq> cid \<longrightarrow> own c (trie_table (table w')) = own c (trie_table (table w)) \<and> connections w' c = connections w c) \<and>
    conn_good a (cid, t\<lparr>rpc := Finished\<rparr>, inp, own cid (trie_table (table w')), connections w' cid)"
proof -
  let ?m = "trie_table (table w)"
  have "own cid (forget cid subs ?m) = {#}" if "sids_fresh [] (fst (decode parse_frame inp))"
  proof -
    from sids_fresh_prefix [OF assms(5) that] have "tracked cid (own cid ?m) subs"
      using session_tracked [OF assms(4)] by (simp add: tracked_def)
    from forget_tracked [OF this] show ?thesis by (simp only: forget_own own_simps)
  qed
  moreover have "map state_id ((states w)[a := mark_close notify_one (states w ! a) PeerClosed]) = map state_id (states w)"
    using mark_close_kept [OF assms(1,2), of notify_one PeerClosed] kept_ids by fastforce
  ultimately show ?thesis
    using reader_cleanup_effect [OF assms(1,2), of notify_one subs] assms(3) forget_other [of _ cid subs ?m]
    by (auto simp: conn_good_def)
qed

lemma session_extend:
  assumes "session cid fs ({#}, []) = (own cid m, subs)" "(m', subs') = session cid gs (m, subs)"
  shows "session cid (fs @ gs) ({#}, []) = (own cid m', subs')"
  using session_own [of cid gs m subs m' subs'] assms by (simp add: session_append)

definition reader_turn :: "('n, 'w) shard_sys \<Rightarrow> addr \<Rightarrow> bytes \<Rightarrow> reader_task \<Rightarrow> 'n worker \<Rightarrow> 'w fabric \<Rightarrow> bool" where
  "reader_turn s a inp t w' fab' \<longleftrightarrow> worker_invar w' \<and>
     map state_id (states w') = map state_id (states (wk s)) \<and> worker_shard w' = worker_shard (wk s) \<and>
     next_conn_id w' = next_conn_id (wk s) \<and> fabric_kept (net s) fab' \<and>
     total_subscriptions (table w') \<le> total_subscriptions (table (wk s)) + MAX_FRAME_SIZE \<and>
     (\<forall>c. c \<noteq> state_id (states (wk s) ! a) \<longrightarrow> own c (trie_table (table w')) = own c (trie_table (table (wk s))) \<and>
       connections w' c = connections (wk s) c) \<and>
     (let cid = state_id (states (wk s) ! a)
      in conn_good a (cid, t, inp, own cid (trie_table (table w')), connections w' cid))"

lemma reading_conn:
  assumes "shard_good s" "a < length (states (wk s))" "rpc (readers s ! a) = Reading"
  defines "cid \<equiv> state_id (states (wk s) ! a)"
  obtains fs where "decode parse_frame (input s ! a) = (fs, accum (readers s ! a), None)"
    "session cid fs ({#}, []) = (own cid (trie_table (table (wk s))), subs_map (readers s ! a))"
    "connections (wk s) cid = Some a"
proof -
  have "conn_good a (conn_view s a)" using assms(1,2) by (simp add: shard_good_def)
  with assms(3) that show ?thesis by (auto simp: conn_good_def conn_view_def Let_def cid_def)
qed

text \<open>The end of a reader whose connection was left as it is by the last read.\<close>

lemma reader_end:
  assumes "shard_good s" "a < length (states (wk s))" "rpc (readers s ! a) = Reading"
  shows "\<exists>w'. reader_cleanup notify_one a (subs_map (readers s ! a)) (wk s) = Some w' \<and>
    reader_turn s a (input s ! a) ((readers s ! a)\<lparr>rpc := Finished\<rparr>) w' (net s)"
proof -
  obtain fs where fs: "decode parse_frame (input s ! a) = (fs, accum (readers s ! a), None)"
    "session (state_id (states (wk s) ! a)) fs ({#}, []) =
      (own (state_id (states (wk s) ! a)) (trie_table (table (wk s))), subs_map (readers s ! a))"
    using reading_conn [OF assms] by blast
  have "worker_invar (wk s)" "fabric_invar (net s)" using assms(1) by (simp_all add: shard_good_def)
  with reader_leaves [OF this(1) assms(2) refl fs(2), of "input s ! a" notify_one "readers s ! a"] fs(1)
  show ?thesis by (auto simp: reader_turn_def fabric_kept_refl)
qed

lemma reader_chunk_turn:
  assumes "shard_good s" "a < length (states (wk s))" "rpc (readers s ! a) = Reading"
    and "total_subscriptions (table (wk s)) + MAX_FRAME_SIZE \<le> usize_max" "0 < length chunk"
  shows "\<exists>t w' fab'. reader_read notify_one wake spurious a (Inr chunk) (readers s ! a) (wk s) (net s) = Some (t, w', fab') \<and>
    reader_turn s a (input s ! a @ chunk) t w' fab'"
proof -
  define cid where "cid = state_id (states (wk s) ! a)"
  let ?t = "readers s ! a" and ?m = "trie_table (table (wk s))"
  obtain fs where fs: "decode parse_frame (input s ! a) = (fs, accum ?t, None)"
    "session cid fs ({#}, []) = (own cid ?m, subs_map ?t)" "connections (wk s) cid = Some a"
    using reading_conn [OF assms(1-3)] unfolding cid_def by blast
  have inv: "worker_invar (wk s)" "fabric_invar (net s)" using assms(1) by (simp_all add: shard_good_def)
  from reader_chunk_spec [OF inv assms(2,4), of notify_one wake spurious chunk ?t] obtain leave t' w' fab' sfs w1 where
    c: "reader_chunk notify_one wake spurious a chunk ?t (wk s) (net s) = Some (leave, t', w', fab')"
      "handle_frames notify_one wake a sfs (wk s) (net s) (subs_map ?t) = Some (w1, fab', subs_map t')"
      "length sfs \<le> MAX_FRAME_SIZE" "prefix (map snd sfs) (fst (decode parse_frame (accum ?t @ chunk)))"
      "w' = w1 \<or> w' = w1\<lparr>states := (states w1)[a := mark_close notify_one (states w1 ! a) ProtocolError]\<rparr>"
      "rpc t' = rpc ?t"
      "\<not> leave \<longrightarrow> w' = w1 \<and> decode parse_frame (accum ?t @ chunk) = (map snd sfs, accum t', None) \<and>
         length (accum t') \<le> MAX_FRAME_SIZE" by blast
  have "total_subscriptions (table (wk s)) + length sfs \<le> usize_max" using assms(4) c(3) by simp
  from handle_frames_session [OF inv assms(2) this, of notify_one wake "subs_map ?t"] c(2) have
    h: "kept (wk s) w1" "fabric_kept (net s) fab'"
      "(trie_table (table w1), subs_map t') = session cid (map snd sfs) (?m, subs_map ?t)"
      "total_subscriptions (table w1) \<le> total_subscriptions (table (wk s)) + length sfs" by (auto simp: cid_def)
  note w1 = kept_address [OF h(1) assms(2)]
  have "kept w1 w'" using c(5) mark_close_kept [of w1 a notify_one ProtocolError] kept_refl [of w1] w1 by auto
  from kept_trans [OF h(1) this] have k: "kept (wk s) w'" .
  note w' = kept_address [OF k assms(2)]
  have tbl: "table w' = table w1" using c(5) by auto
  have ses: "session cid (fs @ map snd sfs) ({#}, []) = (own cid (trie_table (table w')), subs_map t')"
    using session_extend [OF fs(2) h(3)] tbl by simp
  have oth: "own c (trie_table (table w')) = own c ?m" if "c \<noteq> cid" for c
    using session_other [OF h(3) [symmetric] that] tbl by simp
  have pre: "prefix (fs @ map snd sfs) (fst (decode parse_frame (input s ! a @ chunk)))"
    using c(4) by (cases "decode parse_frame (accum ?t @ chunk)") (simp add: decode_more [OF fs(1)])
  show ?thesis
  proof (cases leave)
    case True
    from reader_leaves [OF conjunct1 [OF conjunct2 [OF w']] conjunct1 [OF w'] _ ses pre, of notify_one t'] w' cid_def
    obtain w2 where "reader_cleanup notify_one a (subs_map t') w' = Some w2" "worker_invar w2"
      "map state_id (states w2) = map state_id (states w')" "worker_shard w2 = worker_shard w'"
      "next_conn_id w2 = next_conn_id w'" "total_subscriptions (table w2) \<le> total_subscriptions (table w')"
      "\<forall>c. c \<noteq> cid \<longrightarrow> own c (trie_table (table w2)) = own c (trie_table (table w')) \<and> connections w2 c = connections w' c"
      "conn_good a (cid, t'\<lparr>rpc := Finished\<rparr>, input s ! a @ chunk, own cid (trie_table (table w2)), connections w2 cid)"
      by auto
    then show ?thesis using True c(1,3) k h(2,4) tbl oth kept_ids [OF k] assms(5)
      by (auto simp: reader_read_def reader_turn_def cid_def [symmetric] kept_def)
  next
    case False
    with c(7) have d: "decode parse_frame (input s ! a @ chunk) = (fs @ map snd sfs, accum t', None)"
      "length (accum t') \<le> MAX_FRAME_SIZE" by (simp_all add: decode_more [OF fs(1)])
    with c(6) assms(3) ses k fs(3) have "conn_good a (cid, t', input s ! a @ chunk, own cid (trie_table (table w')), connections w' cid)"
      by (simp add: conn_good_def kept_def)
    then show ?thesis using False c(1,3) k h(2,4) tbl oth kept_ids [OF k] assms(5)
      by (auto simp: reader_read_def reader_turn_def cid_def [symmetric] kept_def)
  qed
qed

lemma reader_read_turn:
  assumes "shard_good s" "a < length (states (wk s))" "rpc (readers s ! a) = Reading"
    and "total_subscriptions (table (wk s)) + MAX_FRAME_SIZE \<le> usize_max"
  shows "\<exists>t w' fab'. reader_read notify_one wake spurious a res (readers s ! a) (wk s) (net s) = Some (t, w', fab') \<and>
    reader_turn s a (input s ! a @ read_bytes res) t w' fab'"
proof (cases "0 < length (read_bytes res)")
  case True
  then obtain chunk where "res = Inr chunk" "0 < length chunk" by (cases res) (auto simp: read_bytes_def)
  with reader_chunk_turn [OF assms, of chunk] show ?thesis by (simp add: read_bytes_def)
next
  case False
  with reader_end [OF assms(1-3), of notify_one] show ?thesis
    by (cases res) (auto simp: read_bytes_def reader_read_def)
qed

text \<open>The writer keeps the connection's invariant and identity.\<close>

lemma writer_drain_keeps:
  assumes "conn_invar c" "writer_drain c buf = Some (pc, buf', c')"
  shows "conn_invar c' \<and> state_id c' = state_id c"
  using drain_into_eq [OF assms(1) refl, of buf] assms(2)
  by (auto simp: writer_drain_def bind_eq_Some_conv split: if_splits)

lemma writer_step_keeps:
  assumes "writer_step notify_one notified ws ws'" "conn_invar (shared ws)"
  shows "conn_invar (shared ws') \<and> state_id (shared ws') = state_id (shared ws)"
  using assms(1)
proof (cases rule: writer_step.cases)
  case (wake c pc buf c')
  then have "conn_invar c" "state_id c = state_id (shared ws)"
    using assms(2) by (auto simp: wait_for_event_def conn_invar_def)
  with wake writer_drain_keeps show ?thesis by fastforce
next
  case (write_done bs pc buf c')
  with assms(2) writer_drain_keeps show ?thesis by fastforce
qed (use assms(2) in auto)

lemma inbox_pop:
  assumes "inbox_ok ib"
  shows "\<exists>ib'. pop ib = Some (case ring_content ib of [] \<Rightarrow> None | fr # frs \<Rightarrow> Some fr, ib') \<and> inbox_ok ib' \<and>
    ring_content ib' = tl (ring_content ib)"
proof (cases "ring_content ib")
  case Nil
  with assms inbox.get_empty [of ib] show ?thesis by (auto simp: inbox_ok_def)
next
  case (Cons fr frs)
  with assms inbox.get_first [of ib fr frs] show ?thesis by (auto simp: inbox_ok_def)
qed

lemma inbox_push:
  assumes "inbox_ok ib" "frame_ok fr" "push sp ib fr = Some (r, ib')"
  shows "inbox_ok ib'"
proof (cases "full ib")
  case True
  with assms inbox.put_full [of ib sp fr] show ?thesis by (auto simp: inbox_ok_def full_def)
next
  case False
  have "ring_invar ib" using assms(1) by (simp add: inbox_ok_def)
  from inbox.put_room [OF this, of sp fr] inbox.bounded [OF this] False obtain ib'' where
    "push sp ib fr = Some (Inr (ring_content ib = []), ib'')" "ring_invar ib''"
    "ring_content ib'' = ring_content ib @ [fr]" by (auto simp: full_def le_less)
  with assms show ?thesis by (auto simp: inbox_ok_def)
qed

lemma fabric_kept_update:
  "fabric_invar fab \<Longrightarrow> inbox_ok ib \<Longrightarrow> fabric_kept fab (fab\<lparr>peer_inboxes := (peer_inboxes fab)[i := ib]\<rparr>)"
  using fabric_invar_update [of fab ib i] by (simp add: fabric_kept_def)

text \<open>
  A turn of the drain loop takes the oldest frame of the shard's inbox and dispatches it; a
  forwarded frame is never rejected.
\<close>

lemma drain_turn_effect:
  assumes "worker_invar w" "fabric_invar fab" "unat (worker_shard w) < length (peer_inboxes fab)"
  defines "q \<equiv> ring_content (peer_inboxes fab ! unat (worker_shard w))"
  shows "\<exists>w' ib. drain_turn notify_one w fab =
      Some (if q = [] then EventfdRead else Draining, w', fab\<lparr>peer_inboxes := (peer_inboxes fab)[unat (worker_shard w) := ib]\<rparr>) \<and>
    kept w w' \<and> table w' = table w \<and> inbox_ok ib \<and> ring_content ib = tl q \<and>
    (if q = [] then w' = w
     else dispatch_local notify_one (pf_subject (hd q)) (pf_reply_to (hd q)) (pf_payload (hd q)) w = Some (Inr (), w'))"
proof -
  let ?ib = "peer_inboxes fab ! unat (worker_shard w)"
  have ok: "inbox_ok ?ib" using assms(2,3) by (simp add: fabric_invar_def)
  from inbox_pop [OF ok] obtain ib where ib: "pop ?ib = Some (case q of [] \<Rightarrow> None | fr # frs \<Rightarrow> Some fr, ib)"
    "inbox_ok ib" "ring_content ib = tl q" unfolding q_def by blast
  show ?thesis
  proof (cases q)
    case Nil
    with ib assms(1,3) kept_refl [OF assms(1)] show ?thesis
      by (intro exI [of _ w] exI [of _ ib]) (simp add: drain_turn_def index_get_def Let_def)
  next
    case (Cons fr frs)
    then have fr: "frame_ok fr" using ok by (simp add: inbox_ok_def q_def)
    then have len: "length (pf_payload fr) \<le> isize_max" by (intro max_payload_isize) (simp add: frame_ok_def)
    have "trie_invar (table w)" using assms(1) by (simp add: worker_invar_def)
    with fr obtain l where "matched (table w) (pf_subject fr) = Inr l"
      by (cases "subject_name (pf_subject fr)") (auto simp: frame_ok_def matched_eq parse_publisher_subject_eq)
    with dispatch_kept [OF assms(1) len, of notify_one "pf_subject fr" "pf_reply_to fr"] obtain w' where
      "dispatch_local notify_one (pf_subject fr) (pf_reply_to fr) (pf_payload fr) w = Some (Inr (), w')" "kept w w'"
      "table w' = table w" by auto
    with ib assms(3) Cons show ?thesis
      by (intro exI [of _ w'] exI [of _ ib]) (simp add: drain_turn_def index_get_def Let_def)
  qed
qed

lemma accept_conn_cases:
  assumes "accept_conn try_next give_back fresh w pool = (r, w', pool')"
  defines "cid \<equiv> ConnectionId (next_conn_id w)"
  shows "(r = None \<and> w' = w\<lparr>next_conn_id := next_conn_id w + 1\<rparr>) \<or>
    (\<exists>rb wb. r = Some (length (states w), rb, wb) \<and>
      w' = w\<lparr>next_conn_id := next_conn_id w + 1,
        states := states w @ [new_state fresh cid DEFAULT_OUTBOUND_CAPACITY],
        connections := (connections w)(cid \<mapsto> length (states w))\<rparr>)"
  using assms(1) by (auto simp: accept_conn_def next_id_def Let_def cid_def split: option.splits)

lemma new_conn_invar: "conn_invar (new_state fresh cid DEFAULT_OUTBOUND_CAPACITY)" "state_id (new_state fresh cid n) = cid"
  by (simp_all add: conn_invar_def new_state_def DEFAULT_OUTBOUND_CAPACITY_def isize_max_numeral)

lemma shard_good_accept:
  assumes "shard_good s" "Suc (accepts s) \<le> 2 ^ 32"
  defines "cid \<equiv> ConnectionId (next_conn_id (wk s))"
  shows "shard_good (s\<lparr>wk := (wk s)\<lparr>next_conn_id := next_conn_id (wk s) + 1,
        states := states (wk s) @ [new_state fresh cid DEFAULT_OUTBOUND_CAPACITY],
        connections := (connections (wk s))(cid \<mapsto> length (states (wk s)))\<rparr>,
      readers := readers s @ [reader_start], input := input s @ [[]], accepts := Suc (accepts s)\<rparr>)"
    (is "shard_good ?s")
proof -
  let ?n = "length (states (wk s))"
  obtain ks where ks: "distinct ks" "\<forall>k\<in>set ks. k < accepts s"
    "map state_id (states (wk s)) = map (\<lambda>k. ConnectionId (of_nat k)) ks" "next_conn_id (wk s) = of_nat (accepts s)"
    using assms(1) by (auto simp: shard_good_def ids_ok_def)
  have len: "length (readers s) = ?n" "length (input s) = ?n" using assms(1) by (simp_all add: shard_good_def)
  have ids: "ids_ok ?s"
    using ks by (auto simp: ids_ok_def cid_def new_conn_invar less_Suc_eq intro!: exI [of _ "ks @ [accepts s]"])
  from ids_distinct [OF this] assms(2) have new: "cid \<notin> set (map state_id (states (wk s)))"
    by (auto simp: new_conn_invar)
  then have none: "own cid (trie_table (table (wk s))) = {#}" using assms(1) by (simp add: shard_good_def)
  have inv: "worker_invar (wk ?s)"
    using assms(1) new_conn_invar by (fastforce simp: shard_good_def worker_invar_def nth_append)
  have good: "conn_good a (conn_view ?s a)" if "a < Suc ?n" for a
  proof (cases "a = ?n")
    case True
    with len none show ?thesis
      by (simp add: conn_view_def conn_good_def Let_def nth_append new_conn_invar reader_start_def)
  next
    case False
    with that have a: "a < ?n" by simp
    then have "state_id (states (wk s) ! a) \<noteq> cid" using new by force
    with a len have "conn_view ?s a = conn_view s a" by (simp add: conn_view_def Let_def nth_append)
    with assms(1) a show ?thesis by (simp add: shard_good_def)
  qed
  from inv ids good assms(1) show ?thesis by (simp add: shard_good_def new_conn_invar)
qed

lemma shard_good_turned_away:
  assumes "shard_good s"
  shows "shard_good (s\<lparr>wk := (wk s)\<lparr>next_conn_id := next_conn_id (wk s) + 1\<rparr>, accepts := Suc (accepts s)\<rparr>)"
proof -
  have "ids_ok (s\<lparr>wk := (wk s)\<lparr>next_conn_id := next_conn_id (wk s) + 1\<rparr>, accepts := Suc (accepts s)\<rparr>)"
    using assms by (auto simp: shard_good_def ids_ok_def less_Suc_eq)
  with assms show ?thesis by (simp add: shard_good_def worker_invar_def conn_view_def)
qed

lemma decode_nothing: "decode parse_frame [] = ([], [], None)"
  by (rule wire.decode_stop(1)) (simp add: parse_frame_def find_crlf_def find_crlf_from.simps)

lemma shard_good_greeted:
  assumes "shard_good s" "accepts s \<le> 2 ^ 32" "a < length (states (wk s))" "rpc (readers s ! a) = Starting"
    and "reader_greet notify_one a (readers s ! a) (wk s) = Some (t, w')"
  shows "shard_good (s\<lparr>wk := w', readers := (readers s)[a := t]\<rparr>)"
proof -
  have inv: "worker_invar (wk s)" "fabric_invar (net s)" using assms(1) by (simp_all add: shard_good_def)
  have g: "t = (readers s ! a)\<lparr>rpc := Reading, accum := [], subs_map := []\<rparr>"
    "w' = (wk s)\<lparr>states := post_at notify_one a (encode (Info SERVER_INFO_JSON)) (states (wk s))\<rparr>"
    using reader_greet_eq [OF inv(1) assms(3), of notify_one "readers s ! a"] assms(5) by simp_all
  have k: "kept (wk s) w'" unfolding g(2) by (rule enqueue_at_kept(2) [OF inv(1) assms(3)])
  have "conn_good a (conn_view s a)" using assms(1,3) by (simp add: shard_good_def)
  with assms(4) have "let cid = state_id (states (wk s) ! a)
      in conn_good a (cid, t, input s ! a, own cid (trie_table (table w')), connections w' cid)"
    using decode_nothing by (auto simp: conn_good_def conn_view_def Let_def g intro: exI [of _ "[]"])
  from shard_good_reader [OF assms(1-3) _ kept_ids [OF k] _ _ fabric_kept_refl [OF inv(2)] _ _ this, of "turns s"]
  show ?thesis using assms(1) k g(2) by (simp add: kept_def shard_good_def)
qed

lemma shard_good_read:
  assumes "shard_good s" "accepts s \<le> 2 ^ 32" "Suc (turns s) * MAX_FRAME_SIZE \<le> usize_max"
    and "a < length (states (wk s))" "rpc (readers s ! a) = Reading"
    and "reader_read notify_one wake spurious a res (readers s ! a) (wk s) (net s) = Some (t, w', fab')"
  shows "shard_good (s\<lparr>wk := w', net := fab', readers := (readers s)[a := t],
    input := (input s)[a := input s ! a @ read_bytes res], turns := Suc (turns s)\<rparr>)"
proof -
  have tot: "total_subscriptions (table (wk s)) \<le> turns s * MAX_FRAME_SIZE" using assms(1) by (simp add: shard_good_def)
  with assms(3) have "total_subscriptions (table (wk s)) + MAX_FRAME_SIZE \<le> usize_max" by simp
  from reader_read_turn [OF assms(1,4,5) this, of notify_one wake spurious res] assms(6) have
    "reader_turn s a (input s ! a @ read_bytes res) t w' fab'" by auto
  with tot shard_good_reader [OF assms(1,2,4), of w' fab' "Suc (turns s)" t "input s ! a @ read_bytes res"]
  show ?thesis unfolding reader_turn_def by simp
qed

lemma shard_step_good:
  assumes "shard_step notify_one notified wake try_next give_back s s'" "shard_good s" "within_limits s'"
  shows "shard_good s'"
proof -
  have inv: "worker_invar (wk s)" "fabric_invar (net s)" and len: "length (readers s) = length (states (wk s))"
    using assms(2) by (simp_all add: shard_good_def)
  note same = shard_good_same [OF assms(2), where pc = "drain s"]
  have net: "shard_good (s\<lparr>net := fab'\<rparr>)" if "fabric_kept (net s) fab'" for fab'
    using same [OF kept_refl [OF inv(1)] refl that] by simp
  have ib: "inbox_ok (peer_inboxes (net s) ! i)" if "i < length (peer_inboxes (net s))" for i
    using inv(2) that by (simp add: fabric_invar_def)
  from assms(1) show ?thesis
  proof (cases rule: shard_step.cases)
    case (accept fresh pool a read_buf write_buf w' pool')
    with shard_good_accept [OF assms(2), of fresh] accept_conn_cases [OF accept(3)] assms(3) show ?thesis
      by (auto simp: within_limits_def)
  next
    case (turn_away fresh pool w' pool')
    with shard_good_turned_away [OF assms(2)] accept_conn_cases [OF turn_away(3)] show ?thesis by auto
  next
    case (greet a t w')
    with shard_good_greeted [OF assms(2)] assms(3) len show ?thesis by (simp add: within_limits_def)
  next
    case (read a spurious res t w' fab')
    with shard_good_read [OF assms(2)] assms(3) len show ?thesis by (simp add: within_limits_def)
  next
    case (written a ws ws')
    then have "conn_invar (shared ws)" using inv(1) by (simp add: worker_invar_def)
    with writer_step_keeps [OF written(5)] written have "kept (wk s) ((wk s)\<lparr>states := (states (wk s))[a := shared ws']\<rparr>)"
      by (intro kept_update [OF inv(1)]) auto
    from same [OF this _ fabric_kept_refl [OF inv(2)]] written show ?thesis by simp
  next
    case (eventfd res)
    with shard_good_same [OF assms(2) kept_refl [OF inv(1)] refl fabric_kept_refl [OF inv(2)]] show ?thesis by simp
  next
    case (dispatch pc w' fab')
    with drain_turn_effect [OF inv, of notify_one] assms(2) obtain ib where
      "kept (wk s) w'" "table w' = table (wk s)" "inbox_ok ib"
      "fab' = (net s)\<lparr>peer_inboxes := (peer_inboxes (net s))[unat (worker_shard (wk s)) := ib]\<rparr>"
      by (auto simp: shard_good_def)
    with shard_good_same [OF assms(2)] fabric_kept_update [OF inv(2)] dispatch show ?thesis by simp
  next
    case (peer_push i fr sp r ib')
    with inbox_push [OF ib] net fabric_kept_update [OF inv(2)] show ?thesis by blast
  next
    case (peer_pop i r ib')
    with inbox_pop [OF ib] net fabric_kept_update [OF inv(2)] show ?thesis by fastforce
  next
    case (peer_wake ws)
    with net [of "(net s)\<lparr>peer_wakers := ws\<rparr>"] inv(2) show ?thesis by (simp add: fabric_kept_def fabric_invar_def)
  qed
qed

lemma limits_back:
  "shard_step notify_one notified wake try_next give_back s s' \<Longrightarrow> within_limits s' \<Longrightarrow> within_limits s"
  by (erule shard_stepE) (auto simp: within_limits_def)

lemma boot_good:
  assumes "fabric_invar fab" "unat shard < length (peer_inboxes fab)"
  shows "shard_good (boot_shard shard fab)"
  using assms by (simp add: shard_good_def boot_shard_def worker_invar_def new_worker_def seed_nonzero
      ids_ok_def subs.initial)

lemma reachable_good:
  assumes "(shard_step notify_one notified wake try_next give_back)\<^sup>*\<^sup>* (boot_shard shard fab) s"
    and "fabric_invar fab" "unat shard < length (peer_inboxes fab)" "within_limits s"
  shows "shard_good s"
  using assms(1,4)
proof (induction rule: rtranclp_induct)
  case base
  show ?case using assms(2,3) by (rule boot_good)
next
  case (step s s')
  with limits_back shard_step_good show ?case by blast
qed

end
