(* ===== verification/Broker.thy ===== *)
theory Broker
  imports Shard
begin

text \<open>
  What the running shard promises: the properties of the reachable states of \<open>Shard\<close>.
\<close>

section \<open>A run\<close>

text \<open>
  The run of a shard with one client: it is accepted, greeted, and subscribes.  The pool never
  runs out, and a notification counts its permits.
\<close>

definition ample_pool :: "unit \<Rightarrow> nat \<Rightarrow> (unit \<times> unit) option" where
  "ample_pool p n = Some ((), ())"

abbreviation run_step :: "(nat, nat) shard_sys \<Rightarrow> (nat, nat) shard_sys \<Rightarrow> bool" where
  "run_step \<equiv> shard_step Suc (\<lambda>p. if p = 0 then None else Some 0) Suc ample_pool (\<lambda>b p. p)"

lemma parse_sub_line: "parse_frame (''SUB a 1'' @ CRLF) = Some (Frame (Sub ''a'' None ''1'') 9)"
  by code_simp

lemma decode_sub_line: "decode parse_frame (''SUB a 1'' @ CRLF) = ([Sub ''a'' None ''1''], [], None)"
  using wire.decode_Frame [OF parse_sub_line] decode_nothing by (simp add: CRLF_def)

lemma reader_sub_line:
  assumes "worker_invar w" "a < length (states w)" "total_subscriptions (table w) < usize_max"
    and "close_with (states w ! a) = None" "accum t = []" "rpc t = Reading"
  shows "\<exists>t' w'. reader_read notify_one wake spurious a (Inr (''SUB a 1'' @ CRLF)) t w fab = Some (t', w', fab) \<and>
    rpc t' = Reading \<and> subs_map t' = AList.update ''1'' ''a'' (subs_map t)"
proof -
  define buf where "buf = ''SUB a 1'' @ CRLF"
  let ?cid = "state_id (states w ! a)"
  have p: "subject_pattern ''a'' = Inr [Literal ''a'']" by (simp add: subject_pattern_def is_dot_def classify_def)
  obtain tr where tr: "subscribe (table w) ''a'' \<lparr>conn_id = ?cid, sid = ''1'', queue_group = None\<rparr> = Some (Inr (), tr)"
    using trie_subscribe [OF _ assms(3) p, of "\<lparr>conn_id = ?cid, sid = ''1'', queue_group = None\<rparr>"] assms(1)
    by (auto simp: worker_invar_def)
  then have h: "handle_frame notify_one wake sp (Sub ''a'' None ''1'') a w fab (subs_map t) =
      Some (w\<lparr>table := tr\<rparr>, fab, AList.update ''1'' ''a'' (subs_map t))" for sp
    using assms(2) by (simp add: id_at_def index_get_def Let_def)
  have len: "length buf = 9" by (simp add: buf_def CRLF_def)
  then have sl: "slice_from buf 0 = Some buf" "slice_from buf 9 = Some []" by (simp_all add: slice_simps)
  have parse: "parse_frame buf = Some (Frame (Sub ''a'' None ''1'') 9)" unfolding buf_def by (rule parse_sub_line)
  have need: "parse_frame [] = Some NeedMore" by code_simp
  have "frames_loop notify_one wake spurious a buf 9 w1 fab subs = Some (9, w1, fab, subs)" for w1 subs
    by (subst frames_loop.simps) (simp add: sl need)
  then have "frames_loop notify_one wake spurious a buf 0 w fab (subs_map t) =
      Some (9, w\<lparr>table := tr\<rparr>, fab, AList.update ''1'' ''a'' (subs_map t))"
    using assms(2,4) by (subst frames_loop.simps) (simp add: sl parse h del: handle_frame.simps)
  then show ?thesis using assms len unfolding buf_def [symmetric]
    by (simp add: reader_read_def reader_chunk_def Let_def sl MAX_FRAME_SIZE_def MAX_PAYLOAD_BYTES_def)
qed

lemma greeting_fits: "length (encode (Info SERVER_INFO_JSON)) \<le> 200"
  by (simp add: encode_def CRLF_def SERVER_INFO_JSON_def)

lemma greeting_legal: "legal_frame (Info SERVER_INFO_JSON)"
  by (simp add: SERVER_INFO_JSON_def) code_simp

lemma posted_greeting:
  "close_with (posted notify_one (encode (Info SERVER_INFO_JSON)) (new_state fresh cid DEFAULT_OUTBOUND_CAPACITY)) = None"
  "pending (posted notify_one (encode (Info SERVER_INFO_JSON)) (new_state fresh cid DEFAULT_OUTBOUND_CAPACITY)) =
    encode (Info SERVER_INFO_JSON)"
proof -
  let ?c = "new_state fresh cid DEFAULT_OUTBOUND_CAPACITY"
  have f: "close_with ?c = None" "length (encode (Info SERVER_INFO_JSON)) \<le> free_bytes ?c" "pending ?c = []"
    using greeting_fits by (simp_all add: new_state_def free_bytes_def pending_def DEFAULT_OUTBOUND_CAPACITY_def)
  from posted_fits [OF new_conn_invar(1) f(1,2), of notify_one] f(3) show
    "close_with (posted notify_one (encode (Info SERVER_INFO_JSON)) ?c) = None"
    "pending (posted notify_one (encode (Info SERVER_INFO_JSON)) ?c) = encode (Info SERVER_INFO_JSON)" by simp_all
qed

lemma example_greeted:
  assumes "fabric_invar fab" "0 < length (peer_inboxes fab)"
  obtains s where "run_step\<^sup>*\<^sup>* (boot_shard 0 fab) s" "shard_good s" "length (readers s) = 1" "input s = [[]]"
    "rpc (readers s ! 0) = Reading" "accum (readers s ! 0) = []" "subs_map (readers s ! 0) = []"
    "close_with (states (wk s) ! 0) = None" "turns s = 0" "accepts s = 1" "drain s = EventfdRead"
    "total_subscriptions (table (wk s)) = 0"
proof -
  let ?s = "boot_shard 0 fab :: (nat, nat) shard_sys"
  let ?pool = "\<lparr>pool_inner = (), pool_buffer_size = DEFAULT_BUFFER_SIZE, pool_capacity = DEFAULT_POOL_CAPACITY\<rparr>"
  define w1 where "w1 = (new_worker 0 :: nat worker)\<lparr>next_conn_id := 1,
    states := [new_state 0 (ConnectionId 0) DEFAULT_OUTBOUND_CAPACITY], connections := [ConnectionId 0 \<mapsto> 0]\<rparr>"
  define s1 where "s1 = ?s\<lparr>wk := w1, readers := [reader_start], input := [[]], accepts := 1\<rparr>"
  have "accept_conn ample_pool (\<lambda>b p. p) 0 (wk ?s) ?pool = (Some (0, (), ()), w1, ?pool)"
    by (simp add: accept_conn_def next_id_def acquire_def ample_pool_def Let_def w1_def boot_shard_def new_worker_def)
  then have st1: "run_step ?s s1"
    using shard_step.accept [of ?s ample_pool "\<lambda>b p. p" 0 ?pool 0 "()" "()" w1 ?pool]
    by (simp add: s1_def boot_shard_def)
  have lim: "within_limits s1" by (simp add: within_limits_def s1_def boot_shard_def)
  have good1: "shard_good s1"
    using shard_step_good [OF st1 boot_good [of fab 0] lim] assms by simp
  define w2 where "w2 = w1\<lparr>states := post_at Suc 0 (encode (Info SERVER_INFO_JSON)) (states w1)\<rparr>"
  define s2 where "s2 = s1\<lparr>wk := w2, readers := [reader_start\<lparr>rpc := Reading\<rparr>]\<rparr>"
  have "reader_greet Suc 0 (readers s1 ! 0) (wk s1) = Some (reader_start\<lparr>rpc := Reading\<rparr>, w2)"
    using reader_greet_eq [of "wk s1" 0 Suc "readers s1 ! 0"] good1
    by (simp add: shard_good_def s1_def w1_def w2_def reader_start_def)
  then have st2: "run_step s1 s2"
    using shard_step.greet [of s1 0 Suc "reader_start\<lparr>rpc := Reading\<rparr>" w2 "\<lambda>p. if p = 0 then None else Some 0" Suc ample_pool "\<lambda>b p. p"]
    by (simp add: s2_def s1_def boot_shard_def reader_start_def)
  have good2: "shard_good s2"
    using shard_step_good [OF st2 good1] by (simp add: within_limits_def s2_def s1_def boot_shard_def)
  have "close_with (states (wk s2) ! 0) = None"
    by (simp add: s2_def w2_def w1_def post_at_def posted_greeting)
  moreover have "run_step\<^sup>*\<^sup>* ?s s2" using st1 st2 by auto
  ultimately show ?thesis using good2
    by (intro that [of s2])
      (simp_all add: s2_def s1_def w2_def w1_def boot_shard_def reader_start_def new_worker_def subs.initial)
qed

lemma example_subscribed:
  assumes "fabric_invar fab" "0 < length (peer_inboxes fab)"
  obtains s where "run_step\<^sup>*\<^sup>* (boot_shard 0 fab) s" "shard_good s" "within_limits s" "length (readers s) = 1"
    "input s = [''SUB a 1'' @ CRLF]" "rpc (readers s ! 0) = Reading" "subs_map (readers s ! 0) = [(''1'', ''a'')]"
    "turns s = 1" "accepts s = 1" "drain s = EventfdRead"
proof -
  obtain s where s: "run_step\<^sup>*\<^sup>* (boot_shard 0 fab) s" "shard_good s" "length (readers s) = 1" "input s = [[]]"
    "rpc (readers s ! 0) = Reading" "accum (readers s ! 0) = []" "subs_map (readers s ! 0) = []"
    "close_with (states (wk s) ! 0) = None" "turns s = 0" "accepts s = 1" "drain s = EventfdRead"
    "total_subscriptions (table (wk s)) = 0" using example_greeted [OF assms] .
  have w: "worker_invar (wk s)" "0 < length (states (wk s))" using s(2,3) by (auto simp: shard_good_def)
  let ?c = "''SUB a 1'' @ CRLF"
  obtain t' w' where r: "reader_read Suc Suc (\<lambda>k i. []) 0 (Inr ?c) (readers s ! 0) (wk s) (net s) = Some (t', w', net s)"
    "rpc t' = Reading" "subs_map t' = [(''1'', ''a'')]"
    using reader_sub_line [OF w _ s(8,6,5)] s(12,7) by (force simp: usize_max_numeral)
  let ?s = "s\<lparr>wk := w', net := net s, readers := (readers s)[0 := t'],
      input := (input s)[0 := input s ! 0 @ read_bytes (Inr ?c)], turns := Suc (turns s)\<rparr>"
  have st: "run_step s ?s"
    using s(3,5,11) r(1) by (intro shard_step.read) simp_all
  have lim: "within_limits ?s"
    using s by (simp add: within_limits_def MAX_FRAME_SIZE_def MAX_PAYLOAD_BYTES_def usize_max_numeral)
  have "run_step\<^sup>*\<^sup>* (boot_shard 0 fab) ?s" using s(1) st by (rule rtranclp.rtrancl_into_rtrancl)
  with shard_step_good [OF st s(2) lim] lim s r show ?thesis
    by (intro that [of ?s]) (simp_all add: read_bytes_def)
qed

lemma example_fabric:
  obtains fab :: "nat fabric" where "fabric_invar fab" "0 < length (peer_inboxes fab)"
proof -
  obtain fab :: "nat fabric" where "fabric_invar fab" "length (peer_inboxes fab) = length [((), 0 :: nat)]"
    using build_fabric_start [of "[((), 0 :: nat)]"] by blast
  then show ?thesis by (intro that [of fab]) simp_all
qed

section \<open>The end of a reader\<close>

lemma cleanup_ends:
  assumes "worker_invar w" "a < length (states w)"
  shows "\<exists>w'. reader_cleanup notify_one a subs w = Some w' \<and> connections w' (state_id (states w ! a)) = None \<and>
    close_with (states w' ! a) = Some (case close_with (states w ! a) of None \<Rightarrow> PeerClosed | Some r \<Rightarrow> r)"
  using reader_cleanup_effect [OF assms, of notify_one subs] assms(2)
  by (auto simp: mark_close_facts split: option.split)

lemma oversized_ends:
  assumes "worker_invar w" "a < length (states w)" "MAX_FRAME_SIZE < length (accum t @ chunk)" "chunk \<noteq> []"
  shows "\<exists>t' w'. reader_read notify_one wake spurious a (Inr chunk) t w fab = Some (t', w', fab) \<and> rpc t' = Finished \<and>
    connections w' (state_id (states w ! a)) = None \<and>
    close_with (states w' ! a) = Some (case close_with (states w ! a) of None \<Rightarrow> ProtocolError | Some r \<Rightarrow> r)"
proof -
  let ?w = "w\<lparr>states := (states w)[a := mark_close notify_one (states w ! a) ProtocolError]\<rparr>"
  have k: "kept w ?w" using assms(1,2) by (rule mark_close_kept)
  note w = kept_address [OF k assms(2)]
  from cleanup_ends [of ?w a notify_one "subs_map t"] w obtain w' where
    "reader_cleanup notify_one a (subs_map t) ?w = Some w'" "connections w' (state_id (states w ! a)) = None"
    "close_with (states w' ! a) = Some (case close_with (states ?w ! a) of None \<Rightarrow> PeerClosed | Some r \<Rightarrow> r)" by auto
  then show ?thesis using assms
    by (simp add: reader_read_def reader_chunk_def mark_close_at_eq mark_close_facts split: option.split)
qed

lemma malformed_ends:
  assumes "worker_invar w" "fabric_invar fab" "a < length (states w)"
    and "total_subscriptions (table w) + MAX_FRAME_SIZE \<le> usize_max" "chunk \<noteq> []"
    and "decode parse_frame (accum t @ chunk) = (fs, left, Some e)"
  shows "\<exists>t' w' fab'. reader_read notify_one wake spurious a (Inr chunk) t w fab = Some (t', w', fab') \<and> rpc t' = Finished \<and>
    connections w' (state_id (states w ! a)) = None \<and> close_with (states w' ! a) \<noteq> None"
proof -
  from reader_chunk_spec [OF assms(1-4), of notify_one wake spurious chunk t] obtain leave t' w' fab' sfs w1 where
    c: "reader_chunk notify_one wake spurious a chunk t w fab = Some (leave, t', w', fab')"
      "handle_frames notify_one wake a sfs w fab (subs_map t) = Some (w1, fab', subs_map t')" "length sfs \<le> MAX_FRAME_SIZE"
      "w' = w1 \<or> w' = w1\<lparr>states := (states w1)[a := mark_close notify_one (states w1 ! a) ProtocolError]\<rparr>"
      "\<not> leave \<longrightarrow> decode parse_frame (accum t @ chunk) = (map snd sfs, accum t', None)" by blast
  then have leave using assms(6) by auto
  have "total_subscriptions (table w) + length sfs \<le> usize_max" using assms(4) c(3) by simp
  from handle_frames_session [OF assms(1-3) this, of notify_one wake "subs_map t"] c(2) have k: "kept w w1" by auto
  note w1 = kept_address [OF k assms(3)]
  have "kept w1 w'" using c(4) mark_close_kept [of w1 a notify_one ProtocolError] kept_refl [of w1] w1 by auto
  note w' = kept_address [OF kept_trans [OF k this] assms(3)]
  from cleanup_ends [of w' a notify_one "subs_map t'"] w' obtain w2 where
    "reader_cleanup notify_one a (subs_map t') w' = Some w2" "connections w2 (state_id (states w ! a)) = None"
    "close_with (states w2 ! a) \<noteq> None" by auto
  then show ?thesis using c(1) \<open>leave\<close> assms(5) by (auto simp: reader_read_def)
qed

section \<open>Properties\<close>

text \<open>C2. At every moment of a run, however the bytes of the clients arrive and the tasks interleave: a
  connection whose reader is running has had exactly the frames of its byte stream handled, the
  unfinished rest is what the reader has buffered and stays within the limit, and the
  subscriptions it holds in the shard's table, and the sid map of its reader, are those of the
  abstract session on these frames.\<close>

theorem sessions_refined:
  assumes "(shard_step notify_one notified wake try_next give_back)\<^sup>*\<^sup>* (boot_shard shard fab) s"
    and "fabric_invar fab" "unat shard < length (peer_inboxes fab)" "within_limits s"
    and "a < length (readers s)" "rpc (readers s ! a) = Reading"
    and "cid = state_id (states (wk s) ! a)"
  shows "\<exists>fs. decode parse_frame (input s ! a) = (fs, accum (readers s ! a), None) \<and>
    length (accum (readers s ! a)) \<le> MAX_FRAME_SIZE \<and>
    session cid fs ({#}, []) =
      (filter_mset (\<lambda>(p, sub). conn_id sub = cid) (trie_table (table (wk s))), subs_map (readers s ! a)) \<and>
    connections (wk s) cid = Some a"
proof -
  have g: "shard_good s" using assms(1-4) by (rule reachable_good)
  then have "conn_good a (conn_view s a)" using assms(5) by (simp add: shard_good_def)
  with assms(6,7) show ?thesis by (auto simp: conn_good_def conn_view_def own_def Let_def)
qed

theorem sessions_refined_witness:
  "\<exists>fab s. run_step\<^sup>*\<^sup>* (boot_shard 0 fab) s \<and> input s = [''SUB a 1'' @ CRLF] \<and>
    filter_mset (\<lambda>(p, sub). conn_id sub = state_id (states (wk s) ! 0)) (trie_table (table (wk s))) =
      {#([Literal ''a''], \<lparr>conn_id = state_id (states (wk s) ! 0), sid = ''1'', queue_group = None\<rparr>)#} \<and>
    subs_map (readers s ! 0) = [(''1'', ''a'')]"
proof -
  obtain fab :: "nat fabric" where fab: "fabric_invar fab" "0 < length (peer_inboxes fab)" by (rule example_fabric)
  obtain s where s: "run_step\<^sup>*\<^sup>* (boot_shard 0 fab) s" "within_limits s" "length (readers s) = 1"
    "input s = [''SUB a 1'' @ CRLF]" "rpc (readers s ! 0) = Reading" using example_subscribed [OF fab] by metis
  have p: "subject_pattern ''a'' = Inr [Literal ''a'']" by (simp add: subject_pattern_def is_dot_def classify_def)
  have "0 < length (readers s)" "unat (0 :: u32) < length (peer_inboxes fab)" using s(3) fab(2) by simp_all
  with sessions_refined [OF s(1) fab(1) _ s(2) _ s(5) refl] have
    "session (state_id (states (wk s) ! 0)) [Sub ''a'' None ''1''] ({#}, []) =
      (filter_mset (\<lambda>(p, sub). conn_id sub = state_id (states (wk s) ! 0)) (trie_table (table (wk s))), subs_map (readers s ! 0))"
    unfolding s(4) nth_Cons_0 decode_sub_line by auto
  then show ?thesis using s(1,4) p by (intro exI conjI) (auto simp: step_table_def)
qed

text \<open>C6. When the reader of a connection has ended, for whatever reason, the connection is gone from
  the connection map, and none of its subscriptions is left in the table, provided the client did
  not subscribe a sid in use again on a different subject.\<close>

theorem disconnect_cleans_up:
  assumes "(shard_step notify_one notified wake try_next give_back)\<^sup>*\<^sup>* (boot_shard shard fab) s"
    and "fabric_invar fab" "unat shard < length (peer_inboxes fab)" "within_limits s"
    and "a < length (readers s)" "rpc (readers s ! a) = Finished"
    and "cid = state_id (states (wk s) ! a)"
  shows "connections (wk s) cid = None \<and>
    (sids_fresh [] (fst (decode parse_frame (input s ! a))) \<longrightarrow>
       (\<forall>p sub. (p, sub) \<in># trie_table (table (wk s)) \<longrightarrow> conn_id sub \<noteq> cid))"
proof -
  have g: "shard_good s" using assms(1-4) by (rule reachable_good)
  then have "conn_good a (conn_view s a)" using assms(5) by (simp add: shard_good_def)
  with assms(6,7) show ?thesis by (auto simp: conn_good_def conn_view_def own_def Let_def filter_mset_eq_conv)
qed

theorem disconnect_cleans_up_witness:
  "\<exists>fab s s'. run_step\<^sup>*\<^sup>* (boot_shard 0 fab) s \<and> run_step s s' \<and> subs_map (readers s ! 0) = [(''1'', ''a'')] \<and>
    rpc (readers s' ! 0) = Finished \<and>
    (\<forall>p sub. (p, sub) \<in># trie_table (table (wk s')) \<longrightarrow> conn_id sub \<noteq> state_id (states (wk s') ! 0))"
proof -
  obtain fab :: "nat fabric" where fab: "fabric_invar fab" "0 < length (peer_inboxes fab)" by (rule example_fabric)
  obtain s where s: "run_step\<^sup>*\<^sup>* (boot_shard 0 fab) s" "shard_good s" "length (readers s) = 1"
    "input s = [''SUB a 1'' @ CRLF]" "rpc (readers s ! 0) = Reading" "subs_map (readers s ! 0) = [(''1'', ''a'')]"
    "turns s = 1" "accepts s = 1" "drain s = EventfdRead" using example_subscribed [OF fab] by metis
  have a: "0 < length (states (wk s))" using s(2,3) by (auto simp: shard_good_def)
  obtain w' where "reader_cleanup Suc 0 (subs_map (readers s ! 0)) (wk s) = Some w'"
    using reader_end [OF s(2) a s(5), of Suc] by blast
  then have r: "reader_read Suc Suc (\<lambda>k i. []) 0 (Inl ()) (readers s ! 0) (wk s) (net s) =
      Some ((readers s ! 0)\<lparr>rpc := Finished\<rparr>, w', net s)" by (simp add: reader_read_def)
  let ?s = "s\<lparr>wk := w', net := net s, readers := (readers s)[0 := (readers s ! 0)\<lparr>rpc := Finished\<rparr>],
      input := (input s)[0 := input s ! 0 @ read_bytes (Inl ())], turns := Suc (turns s)\<rparr>"
  have st: "run_step s ?s" using s(3,5,9) r by (intro shard_step.read) simp_all
  have reach: "run_step\<^sup>*\<^sup>* (boot_shard 0 fab) ?s" using s(1) st by (rule rtranclp.rtrancl_into_rtrancl)
  have lim: "within_limits ?s" "unat (0 :: u32) < length (peer_inboxes fab)"
    using s fab(2) by (simp_all add: within_limits_def MAX_FRAME_SIZE_def MAX_PAYLOAD_BYTES_def usize_max_numeral)
  have dec: "fst (decode parse_frame (input ?s ! 0)) = [Sub ''a'' None ''1'']"
    using s(3,4) decode_sub_line by (simp add: read_bytes_def)
  have fin: "0 < length (readers ?s)" "rpc (readers ?s ! 0) = Finished" using s(3) by simp_all
  from disconnect_cleans_up [OF reach fab(1) lim(2,1) fin refl] dec
  have "\<forall>p sub. (p, sub) \<in># trie_table (table (wk ?s)) \<longrightarrow> conn_id sub \<noteq> state_id (states (wk ?s) ! 0)" by simp
  with s(1,6) st fin(2) show ?thesis by blast
qed



text \<open>C34. A client that subscribes a sid in use again on another subject leaks its first subscription:
  after the two SUB frames and the clean-up of the disconnect, the connection is gone from the
  connection map and the first subscription is still in the table.\<close>

theorem resubscribed_sid_leaks:
  assumes "worker_invar w" "fabric_invar fab" "a < length (states w)" "total_subscriptions (table w) + 2 \<le> usize_max"
    and "cid = state_id (states w ! a)" "filter_mset (\<lambda>(q, s). conn_id s = cid) (trie_table (table w)) = {#}"
    and "parse_subscriber_subject subj1 = Some (Inr p)" "parse_subscriber_subject subj2 = Some (Inr q)" "p \<noteq> q"
  shows "\<exists>w1 fab1 subs1 w2 fab2 subs2 w3.
    handle_frame notify_one wake spurious (Sub subj1 grp1 i) a w fab [] = Some (w1, fab1, subs1) \<and>
    handle_frame notify_one wake spurious (Sub subj2 grp2 i) a w1 fab1 subs1 = Some (w2, fab2, subs2) \<and>
    reader_cleanup notify_one a subs2 w2 = Some w3 \<and> connections w3 cid = None \<and>
    filter_mset (\<lambda>(q, s). conn_id s = cid) (trie_table (table w3)) =
      {#(p, \<lparr>conn_id = cid, sid = i, queue_group = grp1\<rparr>)#}"
proof -
  let ?fs = "[(spurious, Sub subj1 grp1 i), (spurious, Sub subj2 grp2 i)]"
  have pq: "subject_pattern subj1 = Inr p" "subject_pattern subj2 = Inr q"
    using assms(7,8) by (simp_all add: parse_subscriber_subject_eq)
  have "total_subscriptions (table w) + length ?fs \<le> usize_max" using assms(4) by simp
  from handle_frames_session [OF assms(1-3) this, of notify_one wake "[]"] obtain w2 fab2 subs2 where
    h: "handle_frames notify_one wake a ?fs w fab [] = Some (w2, fab2, subs2)" "kept w w2"
      "(trie_table (table w2), subs2) = session cid (map snd ?fs) (trie_table (table w), [])"
    unfolding assms(5) by blast
  then have subs2: "subs2 = [(i, subj2)]"
    and m2: "own cid (trie_table (table w2)) =
      {#(q, \<lparr>conn_id = cid, sid = i, queue_group = grp2\<rparr>), (p, \<lparr>conn_id = cid, sid = i, queue_group = grp1\<rparr>)#}"
    using assms(6) pq by (simp_all add: step_table_def own_def)
  note w2 = kept_address [OF h(2) assms(3)]
  from reader_cleanup_effect [OF conjunct1 [OF conjunct2 [OF w2]] conjunct1 [OF w2], of notify_one subs2] obtain w3 where
    c: "reader_cleanup notify_one a subs2 w2 = Some w3" "connections w3 cid = None"
      "trie_table (table w3) = forget cid subs2 (trie_table (table w2))" using w2 assms(5) by auto
  have "own cid (trie_table (table w3)) = forget cid subs2 (own cid (trie_table (table w2)))"
    unfolding c(3) by (rule forget_own)
  also have "\<dots> = {#(p, \<lparr>conn_id = cid, sid = i, queue_group = grp1\<rparr>)#}"
    unfolding m2 subs2 using pq assms(9) by (simp add: survives_def owned_by_def)
  finally show ?thesis using h(1) c(1,2) by (auto simp: bind_eq_Some_conv own_def)
qed

theorem resubscribed_sid_leaks_witness:
  "\<exists>w1 fab1 subs1 w2 fab2 subs2 w3.
    handle_frame Suc Suc (\<lambda>i. []) (Sub ''x'' None ''1'') 0 (example_worker\<lparr>table := new_trie\<rparr>) no_fabric [] = Some (w1, fab1, subs1) \<and>
    handle_frame Suc Suc (\<lambda>i. []) (Sub ''y'' None ''1'') 0 w1 fab1 subs1 = Some (w2, fab2, subs2) \<and>
    reader_cleanup Suc 0 subs2 w2 = Some w3 \<and> trie_table (table w3) \<noteq> {#}"
proof -
  let ?w = "example_worker\<lparr>table := new_trie\<rparr>"
  have w: "worker_invar ?w" "0 < length (states ?w)"
    using example_worker_ok(1,2) subs.initial by (simp_all add: worker_invar_def)
  have t: "total_subscriptions (table ?w) + 2 \<le> usize_max" "fabric_invar no_fabric"
    "filter_mset (\<lambda>(q, s). conn_id s = state_id (states ?w ! 0)) (trie_table (table ?w)) = {#}"
    using subs.initial by (simp_all add: usize_max_numeral fabric_invar_def no_fabric_def)
  have p: "parse_subscriber_subject ''x'' = Some (Inr [Literal ''x''])"
    "parse_subscriber_subject ''y'' = Some (Inr [Literal ''y''])" "[Literal ''x''] \<noteq> [Literal ''y'']"
    by (simp_all add: parse_subscriber_subject_eq subject_pattern_def is_dot_def classify_def)
  show ?thesis
    using resubscribed_sid_leaks [OF w(1) t(2) w(2) t(1) refl t(3) p, of Suc Suc "\<lambda>i. []" None "''1''" None] by fastforce
qed



text \<open>C33. Accepting: when the pool has two buffers left, the new connection gets the next identifier and
  an address of its own, is entered in the connection map, and what its reader first queues for it is
  the INFO greeting, which a NATS client parses back; otherwise the peer is dropped, a buffer
  already taken is given back, and only the identifier is used up.\<close>

theorem accept_and_greet:
  assumes "worker_invar w" "cid = ConnectionId (next_conn_id w)"
    and "accept_conn try_next give_back fresh w pool = (r, w', pool')"
  shows "worker_invar w' \<and> next_conn_id w' = next_conn_id w + 1 \<and> table w' = table w \<and>
    (case r of
       None \<Rightarrow> connections w' = connections w \<and> states w' = states w \<and>
         (acquire try_next pool = None \<and> pool' = pool \<or>
          (\<exists>rb p. acquire try_next pool = Some (rb, p) \<and> acquire try_next p = None \<and> pool' = release give_back rb p))
     | Some (a, rb, wb) \<Rightarrow> a = length (states w) \<and> connections w' = (connections w)(cid \<mapsto> a) \<and>
         (\<exists>w''. reader_greet notify_one a reader_start w' = Some (reader_start\<lparr>rpc := Reading\<rparr>, w'') \<and>
            state_id (states w'' ! a) = cid \<and> close_with (states w'' ! a) = None \<and>
            pending (states w'' ! a) = encode (Info SERVER_INFO_JSON) \<and>
            parse_frame (pending (states w'' ! a)) =
              Some (Frame (Info SERVER_INFO_JSON) (length (encode (Info SERVER_INFO_JSON))))))"
proof -
  have pool: "acquire try_next pool = None \<and> pool' = pool \<or>
      (\<exists>rb p. acquire try_next pool = Some (rb, p) \<and> acquire try_next p = None \<and> pool' = release give_back rb p)"
    if "r = None" using assms(3) that by (auto simp: accept_conn_def next_id_def Let_def split: option.splits)
  have fits: "length (encode (Info SERVER_INFO_JSON)) \<le> usize_max"
    using greeting_fits by (simp add: usize_max_numeral)
  have info: "parse_frame (encode (Info SERVER_INFO_JSON)) =
      Some (Frame (Info SERVER_INFO_JSON) (length (encode (Info SERVER_INFO_JSON))))"
    using parse_encode [OF greeting_legal fits, of "[]"] by simp
  have inv: "worker_invar (w\<lparr>next_conn_id := n, states := states w @ [new_state fresh cid DEFAULT_OUTBOUND_CAPACITY],
      connections := (connections w)(cid \<mapsto> length (states w))\<rparr>)" for n
    using assms(1) new_conn_invar by (fastforce simp: worker_invar_def nth_append)
  from accept_conn_cases [OF assms(3)] show ?thesis
  proof
    assume "r = None \<and> w' = w\<lparr>next_conn_id := next_conn_id w + 1\<rparr>"
    with pool assms(1) show ?thesis by (simp add: worker_invar_def)
  next
    assume "\<exists>rb wb. r = Some (length (states w), rb, wb) \<and>
      w' = w\<lparr>next_conn_id := next_conn_id w + 1,
        states := states w @ [new_state fresh (ConnectionId (next_conn_id w)) DEFAULT_OUTBOUND_CAPACITY],
        connections := (connections w)(ConnectionId (next_conn_id w) \<mapsto> length (states w))\<rparr>"
    then obtain rb wb where r: "r = Some (length (states w), rb, wb)"
      and w': "w' = w\<lparr>next_conn_id := next_conn_id w + 1, states := states w @ [new_state fresh cid DEFAULT_OUTBOUND_CAPACITY],
        connections := (connections w)(cid \<mapsto> length (states w))\<rparr>" unfolding assms(2) by blast
    have "worker_invar w'" unfolding w' by (rule inv)
    from reader_greet_eq [OF this, of "length (states w)" notify_one reader_start] show ?thesis
      using \<open>worker_invar w'\<close> enqueue_posted(3) [OF new_conn_invar(1), of notify_one "encode (Info SERVER_INFO_JSON)" fresh cid]
      by (simp add: r w' post_at_def nth_append posted_greeting info new_conn_invar reader_start_def)
  qed
qed

theorem accept_and_greet_witness:
  "\<exists>a w' w''. accept_conn ample_pool (\<lambda>b p. p) 0 (new_worker 3)
      \<lparr>pool_inner = (), pool_buffer_size = DEFAULT_BUFFER_SIZE, pool_capacity = DEFAULT_POOL_CAPACITY\<rparr> =
      (Some (a, (), ()), w', \<lparr>pool_inner = (), pool_buffer_size = DEFAULT_BUFFER_SIZE, pool_capacity = DEFAULT_POOL_CAPACITY\<rparr>) \<and>
    reader_greet Suc a reader_start w' = Some (reader_start\<lparr>rpc := Reading\<rparr>, w'') \<and>
    pending (states w'' ! a) = encode (Info SERVER_INFO_JSON)"
proof -
  let ?pool = "\<lparr>pool_inner = (), pool_buffer_size = DEFAULT_BUFFER_SIZE, pool_capacity = DEFAULT_POOL_CAPACITY\<rparr>"
  have w: "worker_invar (new_worker 3 :: nat worker)"
    by (simp add: worker_invar_def new_worker_def seed_nonzero subs.initial)
  obtain w' where a: "accept_conn ample_pool (\<lambda>b p. p) 0 (new_worker 3 :: nat worker) ?pool = (Some (0, (), ()), w', ?pool)"
    by (simp add: accept_conn_def next_id_def acquire_def ample_pool_def Let_def new_worker_def)
  from accept_and_greet [OF w refl a, of Suc] a show ?thesis by auto
qed

end
