(* ===== verification/Delivery.thy ===== *)
theory Delivery
  imports Shard
begin

text \<open>
  From the publisher on one shard to the subscribers on another: the drain loop empties the inbox,
  dispatching its frames in order, so a forwarded publish reaches every subscriber of the other
  shard as a local one would.
\<close>

section \<open>The drain loop\<close>

fun dispatch_all :: "('n \<Rightarrow> 'n) \<Rightarrow> published_frame list \<Rightarrow> 'n worker \<Rightarrow> 'n worker option" where
  "dispatch_all notify_one [] w = Some w"
| "dispatch_all notify_one (fr # frs) w = do {
     (r, w1) \<leftarrow> dispatch_local notify_one (pf_subject fr) (pf_reply_to fr) (pf_payload fr) w;
     dispatch_all notify_one frs w1
   }"

lemma dispatch_all_append:
  "dispatch_all notify_one (xs @ ys) w = do { w1 \<leftarrow> dispatch_all notify_one xs w; dispatch_all notify_one ys w1 }"
  by (induction xs arbitrary: w) (auto split: Option.bind_splits)

lemma drain_while_effect:
  assumes "worker_invar w" "fabric_invar fab" "unat (worker_shard w) < length (peer_inboxes fab)"
    and "ring_content (peer_inboxes fab ! unat (worker_shard w)) = q"
  shows "\<exists>w' ib. drain_while notify_one w fab =
      Some (w', fab\<lparr>peer_inboxes := (peer_inboxes fab)[unat (worker_shard w) := ib]\<rparr>) \<and>
    dispatch_all notify_one q w = Some w' \<and> kept w w' \<and> table w' = table w \<and> inbox_ok ib \<and> ring_content ib = []"
  using assms
proof (induction q arbitrary: w fab)
  case Nil
  with drain_turn_effect [OF Nil.prems(1-3), of notify_one] show ?case
    by (subst drain_while.simps) auto
next
  case (Cons fr q)
  let ?j = "unat (worker_shard w)"
  obtain w1 ib where t: "drain_turn notify_one w fab = Some (Draining, w1, fab\<lparr>peer_inboxes := (peer_inboxes fab)[?j := ib]\<rparr>)"
    "kept w w1" "table w1 = table w" "inbox_ok ib" "ring_content ib = q"
    "dispatch_local notify_one (pf_subject fr) (pf_reply_to fr) (pf_payload fr) w = Some (Inr (), w1)"
    using drain_turn_effect [OF Cons.prems(1-3), of notify_one] Cons.prems(4) by auto
  let ?fab = "fab\<lparr>peer_inboxes := (peer_inboxes fab)[?j := ib]\<rparr>"
  have w1: "worker_invar w1" "worker_shard w1 = worker_shard w" using t(2) by (simp_all add: kept_def)
  with Cons.IH [of w1 ?fab] fabric_invar_update [OF Cons.prems(2) t(4), of ?j] Cons.prems(3) t(5) obtain w' ib' where
    "drain_while notify_one w1 ?fab = Some (w', fab\<lparr>peer_inboxes := (peer_inboxes fab)[?j := ib']\<rparr>)"
    "dispatch_all notify_one q w1 = Some w'" "kept w1 w'" "table w' = table w1" "inbox_ok ib'" "ring_content ib' = []"
    by auto
  moreover note kept_trans [OF t(2) this(3)]
  ultimately show ?case using t by (subst drain_while.simps) auto
qed

section \<open>A forwarded publish\<close>

lemma dispatch_valid:
  assumes "worker_invar w" "length payload \<le> isize_max" "\<not> isl (parse_publisher_subject subject)"
  shows "\<exists>w'. dispatch_local notify_one subject reply_to payload w = Some (Inr (), w') \<and> kept w w' \<and> table w' = table w"
proof -
  have "trie_invar (table w)" using assms(1) by (simp add: worker_invar_def)
  with assms(3) obtain l where "matched (table w) subject = Inr l"
    by (cases "subject_name subject") (auto simp: matched_eq parse_publisher_subject_eq)
  with dispatch_kept [OF assms(1,2), of notify_one subject reply_to] show ?thesis by auto
qed

lemma dispatch_all_kept:
  assumes "worker_invar w" "\<forall>fr\<in>set q. frame_ok fr"
  shows "\<exists>w'. dispatch_all notify_one q w = Some w' \<and> kept w w' \<and> table w' = table w"
  using assms
proof (induction q arbitrary: w)
  case (Cons fr q)
  then have "frame_ok fr" by simp
  then have "length (pf_payload fr) \<le> isize_max" "\<not> isl (parse_publisher_subject (pf_subject fr))"
    using max_payload_isize by (auto simp: frame_ok_def)
  from dispatch_valid [OF Cons.prems(1) this, of notify_one "pf_reply_to fr"] obtain w1 where
    w1: "dispatch_local notify_one (pf_subject fr) (pf_reply_to fr) (pf_payload fr) w = Some (Inr (), w1)" "kept w w1"
      "table w1 = table w" by blast
  with Cons.IH [of w1] Cons.prems(2) obtain w' where "dispatch_all notify_one q w1 = Some w'" "kept w1 w'" "table w' = table w1"
    by (auto simp: kept_def)
  moreover note kept_trans [OF w1(2) this(2)]
  ultimately show ?case using w1 by auto
qed (simp add: kept_refl)

lemma publish_reaches_inbox:
  assumes "worker_invar w" "fabric_invar fab" "a < length (states w)" "length payload \<le> MAX_PAYLOAD_BYTES"
    and "\<not> isl (parse_publisher_subject subject)" "j < length (peer_inboxes fab)" "\<not> full (peer_inboxes fab ! j)"
    and "unat (worker_shard w) < length (peer_inboxes fab)" "unat (worker_shard w) \<noteq> j"
  shows "\<exists>w' fab'. handle_pub notify_one wake spurious subject reply_to payload a w fab = Some (w', fab') \<and>
    fabric_invar fab' \<and> length (peer_inboxes fab') = length (peer_inboxes fab) \<and>
    ring_content (peer_inboxes fab' ! j) = ring_content (peer_inboxes fab ! j) @
      [\<lparr>pf_subject = subject, pf_reply_to = reply_to, pf_payload = payload\<rparr>]"
proof -
  obtain w1 where d: "dispatch_local notify_one subject reply_to payload w = Some (Inr (), w1)"
    using dispatch_valid [OF assms(1) max_payload_isize [OF assms(4)] assms(5)] by blast
  have "1 < length (peer_inboxes fab)" using assms(6,8,9) by linarith
  from handle_pub_forwards [OF assms(1-4) d this, of wake spurious] assms(6,7,9) show ?thesis
    by (auto simp: forwarded_def)
qed

lemma publish_crosses:
  assumes "worker_invar wA" "worker_invar wB" "fabric_invar fab" "a < length (states wA)"
    and "length payload \<le> MAX_PAYLOAD_BYTES"
    and "i = unat (worker_shard wA)" "j = unat (worker_shard wB)" "i \<noteq> j"
    and "i < length (peer_inboxes fab)" "j < length (peer_inboxes fab)" "\<not> full (peer_inboxes fab ! j)"
    and "for_each_match (table wB) subject (\<lambda>s l. l @ [s]) [] = Inr l"
  shows "\<exists>wA' fab' wB1 wB' fab'' chosen.
    handle_pub notify_one wake spurious subject reply_to payload a wA fab = Some (wA', fab') \<and>
    drain_while notify_one wB fab' = Some (wB', fab'') \<and>
    dispatch_all notify_one (ring_content (peer_inboxes fab ! j)) wB = Some wB1 \<and>
    ring_content (peer_inboxes fab'' ! j) = [] \<and>
    set chosen \<subseteq> set l \<and> distinct (map queue_group chosen) \<and>
    queue_group ` set chosen = queue_group ` set l - {None} \<and>
    (\<forall>b < length (states wB). receives (messages_for (connections wB) b subject reply_to payload
       (map (\<lambda>s. (conn_id s, sid s)) (filter (\<lambda>s. queue_group s = None) l @ chosen)))
       (states wB1 ! b) (states wB' ! b))"
proof -
  let ?fr = "\<lparr>pf_subject = subject, pf_reply_to = reply_to, pf_payload = payload\<rparr>"
  let ?q = "ring_content (peer_inboxes fab ! j)"
  have t: "trie_invar (table wB)" using assms(2) by (simp add: worker_invar_def)
  have l: "matched (table wB) subject = Inr l" using assms(12) by (simp add: matched_def)
  have valid: "\<not> isl (parse_publisher_subject subject)" using matched_valid [OF t l] .
  obtain wA' fab' where pub: "handle_pub notify_one wake spurious subject reply_to payload a wA fab = Some (wA', fab')"
    "fabric_invar fab'" "length (peer_inboxes fab') = length (peer_inboxes fab)"
    "ring_content (peer_inboxes fab' ! j) = ?q @ [?fr]"
    using publish_reaches_inbox [OF assms(1,3,4,5) valid assms(10,11), of notify_one wake spurious reply_to] assms(6,8,9)
    by blast
  have j: "unat (worker_shard wB) < length (peer_inboxes fab')" "ring_content (peer_inboxes fab' ! unat (worker_shard wB)) = ?q @ [?fr]"
    using pub(3,4) assms(7,10) by simp_all
  from drain_while_effect [OF assms(2) pub(2) j, of notify_one] obtain wB' ib where
    dr: "drain_while notify_one wB fab' = Some (wB', fab'\<lparr>peer_inboxes := (peer_inboxes fab')[j := ib]\<rparr>)"
      "dispatch_all notify_one (?q @ [?fr]) wB = Some wB'" "ring_content ib = []" using assms(7) by auto
  have "inbox_ok (peer_inboxes fab ! j)" using assms(3,10) by (simp add: fabric_invar_def)
  then have "\<forall>fr\<in>set ?q. frame_ok fr" by (simp add: inbox_ok_def)
  from dispatch_all_kept [OF assms(2) this, of notify_one] obtain wB1 where
    q: "dispatch_all notify_one ?q wB = Some wB1" "kept wB wB1" "table wB1 = table wB" by blast
  with dr(2) obtain r where last: "dispatch_local notify_one subject reply_to payload wB1 = Some (r, wB')"
    by (auto simp: dispatch_all_append bind_eq_Some_conv)
  have "worker_invar wB1" "connections wB1 = connections wB" "length (states wB1) = length (states wB)"
    using q(2) kept_length [OF q(2)] by (simp_all add: kept_def)
  with dispatch_delivers [OF _ max_payload_isize [OF assms(5)], of wB1 subject l notify_one reply_to] assms(12) q(3) last
  obtain chosen where "set chosen \<subseteq> set l" "distinct (map queue_group chosen)"
    "queue_group ` set chosen = queue_group ` set l - {None}"
    "\<forall>b < length (states wB). receives (messages_for (connections wB) b subject reply_to payload
       (map (\<lambda>s. (conn_id s, sid s)) (filter (\<lambda>s. queue_group s = None) l @ chosen)))
       (states wB1 ! b) (states wB' ! b)" by auto
  moreover have "ring_content (peer_inboxes (fab'\<lparr>peer_inboxes := (peer_inboxes fab')[j := ib]\<rparr>) ! j) = []"
    using pub(3) dr(3) assms(10) by simp
  ultimately show ?thesis using pub(1) dr(1) q(1) by blast
qed

section \<open>Queue groups over shards\<close>

lemma single_chosen:
  assumes "set chosen \<subseteq> set [s]" "distinct (map queue_group chosen)"
    and "queue_group ` set chosen = queue_group ` set [s] - {None}" "queue_group s = Some g"
  shows "chosen = [s]"
proof (cases chosen)
  case (Cons x xs)
  then show ?thesis using assms by (cases xs) auto
qed (use assms in auto)

text \<open>What the connection of the only matched subscriber, a member of a group, gets.\<close>

lemma only_member_served:
  assumes "set chosen \<subseteq> set [s]" "distinct (map queue_group chosen)"
    and "queue_group ` set chosen = queue_group ` set [s] - {None}" "queue_group s = Some g"
    and "receives (messages_for conns b subject reply_to payload
       (map (\<lambda>s. (conn_id s, sid s)) (filter (\<lambda>s. queue_group s = None) [s] @ chosen))) c c'"
    and "conns (conn_id s) = Some b" "close_with c = None"
    and "length (encode (Msg subject (sid s) reply_to payload)) \<le> min EMIT_SCRATCH_CAPACITY (free_bytes c)"
  shows "pending c' = pending c @ encode (Msg subject (sid s) reply_to payload)"
  using assms(4-8) unfolding single_chosen [OF assms(1-4)] by (simp add: receives_def messages_for_def)

text \<open>A worker with one connection, a member of the group q.\<close>

definition group_sub :: sub where
  "group_sub = \<lparr>conn_id = ConnectionId 0, sid = ''1'', queue_group = Some ''q''\<rparr>"

definition group_worker :: "u32 \<Rightarrow> nat worker" where
  "group_worker shard = (new_worker shard)\<lparr>
     table := \<lparr>root = Node [] [] [(''a'', Node [group_sub] [] [] None)] None, total_subscriptions = 1\<rparr>,
     connections := [ConnectionId 0 \<mapsto> 0], next_conn_id := 1, states := [new_state 0 (ConnectionId 0) 64]\<rparr>"

lemma group_worker_ok:
  "worker_invar (group_worker shard)" "length (states (group_worker shard)) = 1" "worker_shard (group_worker shard) = shard"
  "free_bytes (states (group_worker shard) ! 0) = 64" "pending (states (group_worker shard) ! 0) = []"
  "close_with (states (group_worker shard) ! 0) = None" "connections (group_worker shard) (conn_id group_sub) = Some 0"
  "for_each_match (table (group_worker shard)) ''a'' (\<lambda>s l. l @ [s]) [] = Inr [group_sub]"
  by (auto simp: group_worker_def group_sub_def worker_invar_def new_worker_def seed_nonzero trie_invar_def trie_table_def
      wf_Node entries_Node node_is_empty_def new_state_def conn_invar_def isize_max_numeral free_bytes_def
      pending_def for_each_match_def parse_publisher_subject_def is_dot_def less_Suc_eq)

section \<open>Properties\<close>


text \<open>C12. Delivery across shards: a publish on one shard reaches, by way of the inbox of another shard
  that is not full, that shard's dispatch, after the frames that were waiting there; each of its
  matched plain subscribers and one member of each matched queue group is served, and open
  connections with room get exactly the bytes of their messages.\<close>

theorem cross_shard_delivery:
  assumes "worker_invar wA" "worker_invar wB" "fabric_invar fab" "a < length (states wA)"
    and "length payload \<le> MAX_PAYLOAD_BYTES"
    and "i = unat (worker_shard wA)" "j = unat (worker_shard wB)" "i \<noteq> j"
    and "i < length (peer_inboxes fab)" "j < length (peer_inboxes fab)" "\<not> full (peer_inboxes fab ! j)"
    and "for_each_match (table wB) subject (\<lambda>s l. l @ [s]) [] = Inr l"
  shows "\<exists>wA' fab' wB1 wB' fab'' chosen.
    handle_pub notify_one wake spurious subject reply_to payload a wA fab = Some (wA', fab') \<and>
    drain_while notify_one wB fab' = Some (wB', fab'') \<and>
    dispatch_all notify_one (ring_content (peer_inboxes fab ! j)) wB = Some wB1 \<and>
    ring_content (peer_inboxes fab'' ! j) = [] \<and>
    set chosen \<subseteq> set l \<and> distinct (map queue_group chosen) \<and>
    queue_group ` set chosen = queue_group ` set l - {None} \<and>
    (\<forall>b < length (states wB). receives (messages_for (connections wB) b subject reply_to payload
       (map (\<lambda>s. (conn_id s, sid s)) (filter (\<lambda>s. queue_group s = None) l @ chosen)))
       (states wB1 ! b) (states wB' ! b))"
  using publish_crosses [OF assms] .


theorem cross_shard_delivery_witness:
  "\<exists>readers fab wA' fab' wB' fab''. build_fabric (map Inr [(''r0'', 0), (''r1'', 0)]) [] no_fabric =
      Some (Inr (readers, fab) :: unit + bytes option list \<times> nat fabric) \<and>
    handle_pub Suc Suc (\<lambda>i. []) ''a'' None ''hi'' 0 (example_worker\<lparr>worker_shard := 1\<rparr>) fab = Some (wA', fab') \<and>
    drain_while Suc example_worker fab' = Some (wB', fab'') \<and>
    ring_content (peer_inboxes fab'' ! 0) = [] \<and>
    pending (states wB' ! 0) = ''MSG a 1 2'' @ CRLF @ ''hi'' @ CRLF"
proof -
  let ?pairs = "[(''r0'', 0 :: nat), (''r1'', 0)]" and ?wA = "example_worker\<lparr>worker_shard := 1\<rparr>"
  obtain fab where fab: "build_fabric (map Inr ?pairs) [] no_fabric = Some (Inr (map (Some \<circ> fst) ?pairs, fab) :: unit + _)"
    "fabric_invar fab" "\<forall>ib\<in>set (peer_inboxes fab). ring_content ib = [] \<and> inbox_capacity ib = SHARD_INBOX_CAPACITY"
    "length (peer_inboxes fab) = length ?pairs"
    using build_fabric_start [of ?pairs] by blast
  then have e: "ring_content (peer_inboxes fab ! 0) = []" "\<not> full (peer_inboxes fab ! 0)"
    by (simp_all add: full_def SHARD_INBOX_CAPACITY_def)
  have A: "worker_invar ?wA" "0 < length (states ?wA)" "unat (worker_shard ?wA) = 1" "unat (worker_shard example_worker) = 0"
    using example_worker_ok(1,2) by (simp_all add: worker_invar_def) (simp add: example_worker_def new_worker_def)
  have B: "length ''hi'' \<le> MAX_PAYLOAD_BYTES" "1 < length (peer_inboxes fab)" "0 < length (peer_inboxes fab)"
    using fab(4) by (simp_all add: MAX_PAYLOAD_BYTES_def)
  from cross_shard_delivery [OF A(1) example_worker_ok(1) fab(2) A(2) B(1) A(3) [symmetric] A(4) [symmetric] _ B(2,3) e(2)
      example_worker_ok(10) [unfolded matched_def], of Suc Suc "\<lambda>i. []" None]
  obtain wA' fab' wB' fab'' chosen where
    "handle_pub Suc Suc (\<lambda>i. []) ''a'' None ''hi'' 0 ?wA fab = Some (wA', fab')"
    "drain_while Suc example_worker fab' = Some (wB', fab'')" "ring_content (peer_inboxes fab'' ! 0) = []"
    "example_served chosen (states example_worker) (states wB')"
    unfolding e(1) dispatch_all.simps example_served_def by (auto simp: Let_def)
  with fab(1) example_served_pending show ?thesis by blast
qed

text \<open>C38. A queue group whose members are on two shards is served on both: when the only subscriber that
  matches on either shard is a member of the same group, and both connections are open with
  room, one publish sends a message to each of them.\<close>

theorem queue_group_served_per_shard:
  assumes "worker_invar wA" "worker_invar wB" "fabric_invar fab" "a < length (states wA)"
    and "length payload \<le> MAX_PAYLOAD_BYTES" "i = unat (worker_shard wA)" "j = unat (worker_shard wB)" "i \<noteq> j"
    and "i < length (peer_inboxes fab)" "j < length (peer_inboxes fab)"
    and "\<forall>ib\<in>set (peer_inboxes fab). \<not> full ib" "ring_content (peer_inboxes fab ! j) = []"
    and "for_each_match (table wA) subject (\<lambda>s l. l @ [s]) [] = Inr [sA]" "queue_group sA = Some g"
    and "for_each_match (table wB) subject (\<lambda>s l. l @ [s]) [] = Inr [sB]" "queue_group sB = Some g"
    and "connections wA (conn_id sA) = Some bA" "bA < length (states wA)" "close_with (states wA ! bA) = None"
    and "connections wB (conn_id sB) = Some bB" "bB < length (states wB)" "close_with (states wB ! bB) = None"
    and "length (encode (Msg subject (sid sA) reply_to payload)) \<le> min EMIT_SCRATCH_CAPACITY (free_bytes (states wA ! bA))"
    and "length (encode (Msg subject (sid sB) reply_to payload)) \<le> min EMIT_SCRATCH_CAPACITY (free_bytes (states wB ! bB))"
  shows "\<exists>wA' fab' wB' fab''.
    handle_pub notify_one wake spurious subject reply_to payload a wA fab = Some (wA', fab') \<and>
    drain_while notify_one wB fab' = Some (wB', fab'') \<and>
    pending (states wA' ! bA) = pending (states wA ! bA) @ encode (Msg subject (sid sA) reply_to payload) \<and>
    pending (states wB' ! bB) = pending (states wB ! bB) @ encode (Msg subject (sid sB) reply_to payload)"
proof -
  have room: "\<not> full (peer_inboxes fab ! j)" using assms(10,11) by simp
  from publish_crosses [OF assms(1-10) room assms(15), of notify_one wake spurious reply_to]
  obtain wA' fab' wB1 wB' fab'' chosen where
    x: "handle_pub notify_one wake spurious subject reply_to payload a wA fab = Some (wA', fab')"
      "drain_while notify_one wB fab' = Some (wB', fab'')"
      "dispatch_all notify_one (ring_content (peer_inboxes fab ! j)) wB = Some wB1"
    and c: "set chosen \<subseteq> set [sB]" "distinct (map queue_group chosen)"
      "queue_group ` set chosen = queue_group ` set [sB] - {None}"
      "\<forall>b < length (states wB). receives (messages_for (connections wB) b subject reply_to payload
       (map (\<lambda>s. (conn_id s, sid s)) (filter (\<lambda>s. queue_group s = None) [sB] @ chosen))) (states wB1 ! b) (states wB' ! b)"
    by (elim exE conjE) (rule that)
  have "wB1 = wB" using x(3) assms(12) by simp
  with only_member_served [OF c(1-3) assms(16) c(4) [rule_format, OF assms(21)] assms(20)] assms(22,24)
  have B: "pending (states wB' ! bB) = pending (states wB ! bB) @ encode (Msg subject (sid sB) reply_to payload)" by simp
  from dispatch_delivers [OF assms(1) max_payload_isize [OF assms(5)] assms(13), of notify_one reply_to]
  obtain chosenA w1 where
    d: "dispatch_local notify_one subject reply_to payload wA = Some (Inr (), w1)"
    and cA: "set chosenA \<subseteq> set [sA]" "distinct (map queue_group chosenA)"
      "queue_group ` set chosenA = queue_group ` set [sA] - {None}"
      "\<forall>b < length (states wA). receives (messages_for (connections wA) b subject reply_to payload
       (map (\<lambda>s. (conn_id s, sid s)) (filter (\<lambda>s. queue_group s = None) [sA] @ chosenA))) (states wA ! b) (states w1 ! b)"
    by (elim exE conjE) (rule that)
  have "1 < length (peer_inboxes fab)" using assms(8-10) by linarith
  moreover have "\<not> (\<exists>j < length (peer_inboxes fab). j \<noteq> unat (worker_shard wA) \<and> full (peer_inboxes fab ! j))"
    using assms(11) by simp
  ultimately have "states wA' = states w1"
    using handle_pub_forwards [OF assms(1,3,4,5) d, of wake spurious] x(1) by auto
  with only_member_served [OF cA(1-3) assms(14) cA(4) [rule_format, OF assms(18)] assms(17,19,23)]
  have "pending (states wA' ! bA) = pending (states wA ! bA) @ encode (Msg subject (sid sA) reply_to payload)" by simp
  with x(1,2) B show ?thesis by blast
qed

theorem queue_group_served_per_shard_witness:
  "\<exists>readers fab wA' fab' wB' fab''. build_fabric (map Inr [(''r0'', 0), (''r1'', 0)]) [] no_fabric =
      Some (Inr (readers, fab) :: unit + bytes option list \<times> nat fabric) \<and>
    handle_pub Suc Suc (\<lambda>i. []) ''a'' None ''hi'' 0 (group_worker 1) fab = Some (wA', fab') \<and>
    drain_while Suc (group_worker 0) fab' = Some (wB', fab'') \<and>
    pending (states wA' ! 0) = ''MSG a 1 2'' @ CRLF @ ''hi'' @ CRLF \<and>
    pending (states wB' ! 0) = ''MSG a 1 2'' @ CRLF @ ''hi'' @ CRLF"
proof -
  let ?pairs = "[(''r0'', 0 :: nat), (''r1'', 0)]"
  obtain fab where fab: "build_fabric (map Inr ?pairs) [] no_fabric = Some (Inr (map (Some \<circ> fst) ?pairs, fab) :: unit + _)"
    "fabric_invar fab" "\<forall>ib\<in>set (peer_inboxes fab). ring_content ib = [] \<and> inbox_capacity ib = SHARD_INBOX_CAPACITY"
    "length (peer_inboxes fab) = length ?pairs"
    using build_fabric_start [of ?pairs] by blast
  then have e: "ring_content (peer_inboxes fab ! 0) = []" "\<forall>ib\<in>set (peer_inboxes fab). \<not> full ib"
    by (simp_all add: full_def SHARD_INBOX_CAPACITY_def)
  have "decimal (Suc (Suc 0)) = ''2''" by code_simp
  then have m: "encode (Msg ''a'' (sid group_sub) None ''hi'') = ''MSG a 1 2'' @ CRLF @ ''hi'' @ CRLF"
    by (simp add: encode_def SP_def group_sub_def)
  have i: "1 = unat (worker_shard (group_worker 1))" "0 = unat (worker_shard (group_worker 0))" "(1 :: nat) \<noteq> 0"
    "1 < length (peer_inboxes fab)" "0 < length (peer_inboxes fab)" "length ''hi'' \<le> MAX_PAYLOAD_BYTES"
    "0 < length (states (group_worker 1))" "0 < length (states (group_worker 0))" "queue_group group_sub = Some ''q''"
    using fab(4) by (simp_all add: group_worker_ok MAX_PAYLOAD_BYTES_def group_sub_def)
  have len: "length (encode (Msg ''a'' (sid group_sub) None ''hi'')) \<le> min EMIT_SCRATCH_CAPACITY (free_bytes (states (group_worker k) ! 0))" for k
    unfolding m group_worker_ok by (simp add: CRLF_def EMIT_SCRATCH_CAPACITY_def MAX_PAYLOAD_BYTES_def)
  from queue_group_served_per_shard [OF group_worker_ok(1) group_worker_ok(1) fab(2) i(7,6,1,2,3,4,5) e(2,1)
      group_worker_ok(8) i(9) group_worker_ok(8) i(9) group_worker_ok(7) i(7) group_worker_ok(6) group_worker_ok(7) i(8)
      group_worker_ok(6) len len, of Suc Suc "\<lambda>i. []"] fab(1)
  show ?thesis unfolding m group_worker_ok append_Nil by blast
qed

end
