(* ===== verification/Startup.thy ===== *)
theory Startup
  imports Shard Topology_Facts
begin

text \<open>
  The start of the server: \<open>main\<close>, \<open>worker_main\<close> up to its accept loop, and \<open>bind_so_reuseport\<close> of
  \<open>aulon-server/src/main.rs\<close>.  The operations of the socket library, \<open>eventfd_pair\<close>, the buffer pool's
  library and what a worker thread returns in the end are arguments.  Pinning a thread to a CPU and
  the messages change no state of the program.

  The lemmas show what is started, with which inboxes, wakers and eventfd readers, and what \<open>main\<close> returns.
\<close>

section \<open>The listening socket\<close>

definition LISTEN_ADDR :: bytes where
  "LISTEN_ADDR = ''0.0.0.0:4222''"

datatype domain = IPV4 | IPV6

record ('a, 's, 'e) socket_ops =
  addr_is_v4 :: "'a \<Rightarrow> bool"
  socket_new :: "domain \<Rightarrow> 'e + 's"
  set_reuse_address :: "bool \<Rightarrow> 's \<Rightarrow> 'e + 's"
  set_reuse_port :: "bool \<Rightarrow> 's \<Rightarrow> 'e + 's"
  set_nonblocking :: "bool \<Rightarrow> 's \<Rightarrow> 'e + 's"
  socket_bind :: "'a \<Rightarrow> 's \<Rightarrow> 'e + 's"
  socket_listen :: "nat \<Rightarrow> 's \<Rightarrow> 'e + 's"

definition bind_so_reuseport :: "('a, 's, 'e) socket_ops \<Rightarrow> 'a \<Rightarrow> 'e + 's" where
  "bind_so_reuseport ops a =
     result_bind (socket_new ops (if addr_is_v4 ops a then IPV4 else IPV6)) (\<lambda>s.
     result_bind (set_reuse_address ops True s) (\<lambda>s.
     result_bind (set_reuse_port ops True s) (\<lambda>s.
     result_bind (set_nonblocking ops True s) (\<lambda>s.
     result_bind (socket_bind ops a s) (\<lambda>s.
     socket_listen ops 1024 s)))))"

section \<open>A worker\<close>

text \<open>
  Up to the accept loop.  The result has the listener, the worker, its registered pool, and the eventfd
  reader if it was handed to a drain task; otherwise it was dropped.  None is the failed \<open>expect\<close> on
  the address literal.
\<close>

definition worker_boot ::
  "(bytes \<Rightarrow> 'a option) \<Rightarrow> ('a, 's, 'e) socket_ops \<Rightarrow> (bytes list \<Rightarrow> 'p) \<Rightarrow> ('p \<Rightarrow> ('e + unit) \<times> 'p) \<Rightarrow> u32 \<Rightarrow> 'w fabric \<Rightarrow> 'r \<Rightarrow>
   ('e + 's \<times> 'n worker \<times> 'p buffer_pool \<times> 'r option) option" where
  "worker_boot parse_addr ops fixed_buf_pool reg shard fab reader = do {
     a \<leftarrow> parse_addr LISTEN_ADDR;
     Some (case bind_so_reuseport ops a of
         Inl e \<Rightarrow> Inl e
       | Inr listener \<Rightarrow>
           let w = new_worker shard;
               pool = new_pool fixed_buf_pool DEFAULT_POOL_CAPACITY DEFAULT_BUFFER_SIZE
           in case register_pool reg pool of
                (Inl e, pool1) \<Rightarrow> Inl e
              | (Inr u, pool1) \<Rightarrow>
                  Inr (listener, w, pool1, if 1 < worker_shard_count fab then Some reader else None))
   }"

section \<open>The main function\<close>

text \<open>
  \<open>pairs i\<close> is what the i-th call of \<open>eventfd_pair\<close> returns and \<open>worker\<close> what a worker returns in the end.  The
  result is that of \<open>main\<close> with the fabric and the workers that were started.
\<close>

definition server_main ::
  "bytes option \<Rightarrow> fs option \<Rightarrow> nat option \<Rightarrow> (nat \<Rightarrow> 'e + 'r \<times> 'w) \<Rightarrow>
   (u32 \<times> u32 option \<times> 'r \<Rightarrow> 'w fabric \<Rightarrow> 'e + unit) \<Rightarrow>
   (('e + unit) \<times> 'w fabric \<times> (u32 \<times> u32 option \<times> 'r) list) option" where
  "server_main force_shards sysfs parallelism pairs worker = do {
     let topo = choose_topology force_shards sysfs parallelism;
     let n = shard_count topo;
     built \<leftarrow> build_fabric (map pairs [0..<n]) [] no_fabric;
     case built of
       Inl e \<Rightarrow> Some (Inl e, no_fabric, [])
     | Inr (rds, fab) \<Rightarrow>
         if n = 1 then do {
           s \<leftarrow> (case shards topo of [] \<Rightarrow> None | s # ss \<Rightarrow> Some s);
           slot \<leftarrow> index_get rds 0;
           reader \<leftarrow> slot;
           let start = (shard_id s, (case cpus s of [] \<Rightarrow> None | c # cs \<Rightarrow> Some c), reader);
           Some (worker start fab, fab, [start])
         }
         else do {
           starts \<leftarrow> assign_readers (shards topo) rds;
           Some (Inr (), fab, starts)
         }
   }"

section \<open>What is started\<close>

lemma build_fabric_fails: "build_fabric (map Inr ps @ Inl e # qs) rds fab = Some (Inl e)"
proof -
  obtain ib :: "published_frame shard_inbox" where "with_capacity SHARD_INBOX_CAPACITY = Some ib"
    using with_capacity_ring [of SHARD_INBOX_CAPACITY] by (auto simp: SHARD_INBOX_CAPACITY_def)
  then show ?thesis by (induction ps arbitrary: rds fab) auto
qed

lemma first_failure:
  assumes "m < n" "pairs m = Inl e" "\<forall>i < m. \<not> isl (pairs i)"
  shows "\<exists>ps qs. map pairs [0..<n] = map Inr ps @ Inl e # qs"
proof -
  have "map pairs [0..<n] = map pairs [0..<m] @ pairs m # map pairs [Suc m..<n]"
    using assms(1) upt_add_eq_append [of 0 m "n - m"] by (simp add: upt_conv_Cons)
  moreover have "map pairs [0..<m] = map Inr (map (projr \<circ> pairs) [0..<m])" using assms(3) by auto
  ultimately show ?thesis using assms(2) by metis
qed

lemma assign_readers_single:
  assumes "dense t" "shard_count t = 1"
  shows "\<exists>s. shards t = [s] \<and> assign_readers (shards t) [Some r] = Some [(shard_id s, (case cpus s of [] \<Rightarrow> None | c # cs \<Rightarrow> Some c), r)]"
proof -
  obtain s where s: "shards t = [s]" using assms(2) by (auto simp: shard_count_def length_Suc_conv)
  then have "shard_id s = 0" using assms(1) by (simp add: dense_def)
  with s show ?thesis by (simp add: index_get_def)
qed

text \<open>A worker that has booted is in the start state of the shard, and drains its inbox if it has peers.\<close>

lemma worker_boot_shard:
  assumes "worker_boot parse_addr ops fixed_buf_pool reg shard fab reader = Some (Inr (listener, w, pool, rd))"
  shows "w = wk (boot_shard shard fab)" "rd = (if 1 < length (peer_inboxes fab) then Some reader else None)"
    "pool_capacity pool = DEFAULT_POOL_CAPACITY" "pool_buffer_size pool = DEFAULT_BUFFER_SIZE"
proof -
  from assms obtain a where a: "parse_addr LISTEN_ADDR = Some a" by (auto simp: worker_boot_def bind_eq_Some_conv)
  obtain r p where r: "reg (fixed_buf_pool (map (\<lambda>i. replicate DEFAULT_BUFFER_SIZE zero_byte) [0..<DEFAULT_POOL_CAPACITY])) = (r, p)"
    by fastforce
  from assms a r show "w = wk (boot_shard shard fab)" "rd = (if 1 < length (peer_inboxes fab) then Some reader else None)"
    "pool_capacity pool = DEFAULT_POOL_CAPACITY" "pool_buffer_size pool = DEFAULT_BUFFER_SIZE"
    by (cases "bind_so_reuseport ops a"; cases r;
        auto simp: worker_boot_def boot_shard_def register_pool_def new_pool_def worker_shard_count_def Let_def)+
qed

lemma worker_boot_fails:
  assumes "parse_addr LISTEN_ADDR = Some a"
  shows "bind_so_reuseport ops a = Inl e \<Longrightarrow> worker_boot parse_addr ops fixed_buf_pool reg shard fab reader = Some (Inl e)"
    "bind_so_reuseport ops a = Inr l \<Longrightarrow>
      reg (fixed_buf_pool (map (\<lambda>i. replicate DEFAULT_BUFFER_SIZE zero_byte) [0..<DEFAULT_POOL_CAPACITY])) = (Inl e, p) \<Longrightarrow>
      worker_boot parse_addr ops fixed_buf_pool reg shard fab reader = Some (Inl e)"
  using assms by (simp_all add: worker_boot_def register_pool_def new_pool_def Let_def)

section \<open>Properties\<close>

text \<open>C39. The start of the server, for whatever topology is forced, detected or fallen back to: nothing
  panics; when an eventfd pair cannot be made, \<open>main\<close> returns the first error and starts nothing;
  otherwise there is one worker per shard, numbered from 0, each with the eventfd reader of its number,
  beside as many empty inboxes and the wakers in the same order; and \<open>main\<close> returns what the worker
  returned when there is one shard, and no error, whatever the workers returned, when there are
  several.\<close>

theorem server_start:
  assumes "n = shard_count (choose_topology force_shards sysfs parallelism)"
  shows "(\<forall>m e. m < n \<and> pairs m = Inl e \<and> (\<forall>i < m. \<not> isl (pairs i)) \<longrightarrow>
      server_main force_shards sysfs parallelism pairs worker = Some (Inl e, no_fabric, [])) \<and>
    ((\<forall>i < n. \<not> isl (pairs i)) \<longrightarrow>
      (\<exists>fab starts. server_main force_shards sysfs parallelism pairs worker =
          Some (if n = 1 then worker (hd starts) fab else Inr (), fab, starts) \<and>
        map (\<lambda>(i, c, r). (i, r)) starts = map (\<lambda>j. (of_nat j, fst (projr (pairs j)))) [0..<n] \<and>
        fabric_invar fab \<and> length (peer_inboxes fab) = n \<and> (\<forall>ib\<in>set (peer_inboxes fab). ring_content ib = []) \<and>
        peer_wakers fab = map (\<lambda>j. snd (projr (pairs j))) [0..<n]))"
proof -
  let ?topo = "choose_topology force_shards sysfs parallelism"
  have "server_main force_shards sysfs parallelism pairs worker = Some (Inl e, no_fabric, [])"
    if "m < n" "pairs m = Inl e" "\<forall>i < m. \<not> isl (pairs i)" for m e
    using first_failure [of m n pairs e] that assms by (auto simp: server_main_def Let_def build_fabric_fails)
  moreover have "\<exists>fab starts. server_main force_shards sysfs parallelism pairs worker =
          Some (if n = 1 then worker (hd starts) fab else Inr (), fab, starts) \<and>
        map (\<lambda>(i, c, r). (i, r)) starts = map (\<lambda>j. (of_nat j, fst (projr (pairs j)))) [0..<n] \<and>
        fabric_invar fab \<and> length (peer_inboxes fab) = n \<and> (\<forall>ib\<in>set (peer_inboxes fab). ring_content ib = []) \<and>
        peer_wakers fab = map (\<lambda>j. snd (projr (pairs j))) [0..<n]" if all: "\<forall>i < n. \<not> isl (pairs i)"
  proof -
    define ps where "ps = map (projr \<circ> pairs) [0..<n]"
    have "map pairs [0..<n] = map Inr ps" using all by (auto simp: ps_def)
    with build_fabric_start [of ps] obtain fab where
      fab: "build_fabric (map pairs [0..<n]) [] no_fabric = Some (Inr (map Some (map fst ps), fab))" "fabric_invar fab"
        "\<forall>ib\<in>set (peer_inboxes fab). ring_content ib = []" "length (peer_inboxes fab) = n" "peer_wakers fab = map snd ps"
      by (auto simp: ps_def comp_def)
    from assign_readers_dense [OF choose_dense, of "map fst ps" force_shards sysfs parallelism] assms obtain starts where
      st: "assign_readers (shards ?topo) (map Some (map fst ps)) = Some starts"
        "map (\<lambda>(i, c, r). (i, r)) starts = map (\<lambda>j. (of_nat j, map fst ps ! j)) [0..<n]" by (auto simp: ps_def)
    have "server_main force_shards sysfs parallelism pairs worker = Some (if n = 1 then worker (hd starts) fab else Inr (), fab, starts)"
    proof (cases "n = 1")
      case True
      then have "map Some (map fst ps) = [Some (fst (projr (pairs 0)))]" by (simp add: ps_def)
      with assign_readers_single [OF choose_dense, of force_shards sysfs parallelism "fst (projr (pairs 0))"] True assms st(1) fab(1)
      show ?thesis by (auto simp: server_main_def Let_def index_get_def)
    next
      case False
      with fab(1) st(1) assms show ?thesis by (simp add: server_main_def Let_def)
    qed
    moreover have "map (\<lambda>j. (of_nat j, map fst ps ! j)) [0..<n] = map (\<lambda>j. (of_nat j, fst (projr (pairs j)))) [0..<n]"
      by (simp add: ps_def)
    moreover have "map snd ps = map (\<lambda>j. snd (projr (pairs j))) [0..<n]" by (simp add: ps_def comp_def)
    ultimately show ?thesis using fab(2-5) st(2) by (intro exI [of _ fab] exI [of _ starts]) simp
  qed
  ultimately show ?thesis by blast
qed

theorem server_start_witness:
  "\<exists>fab starts. server_main (Some ''2'') None None (\<lambda>i. Inr (i, i + 10)) (\<lambda>st fab. Inl ''failed'') = Some (Inr (), fab, starts) \<and>
    map (\<lambda>(i, c, r). (i, r)) starts = [(0, 0), (1, 1)] \<and> peer_wakers fab = [10, 11 :: nat]"
proof -
  have n: "2 = shard_count (choose_topology (Some ''2'') None None)"
    by (simp add: choose_topology_def list_parsing synthetic_topology_def shard_count_def)
  from server_start [OF n, of "\<lambda>i. Inr (i, i + 10)" "\<lambda>st fab. Inl ''failed''", THEN conjunct2]
  show ?thesis by (auto simp: upt_rec)
qed

end
