(* ===== verification/Inbox_Threads.thy ===== *)
theory Inbox_Threads
  imports Shard_Inbox
begin

text \<open>
  The shard inbox of \<open>aulon-core/src/shard_inbox.rs\<close> between its threads: \<open>push\<close> and \<open>pop\<close> one
  access to the shared memory at a time, with the wake-up that \<open>handle_pub\<close> and \<open>drain_task\<close> of
  \<open>aulon-server/src/main.rs\<close> build on them.  A schedule says which thread goes next.  The memory
  is either sequentially consistent, or has for every thread a queue of stores that the other threads
  do not see yet (total store order, as on x86-64), which the orderings in the code allow.

  The lemmas show that with sequentially consistent memory the elements come out in the order of the
  claims and no wake-up is lost, for any number of producers, and that with store queues a wake-up
  can be lost.
\<close>

section \<open>Memory accesses\<close>

datatype loc = TailLoc | HeadLoc | SeqLoc nat

datatype 'a mem_store = StoreWord loc u64 | StoreVal nat 'a

text \<open>
  The next access of a thread and where it goes from there.  \<open>Exchange\<close> is the weak compare-exchange
  of the tail; \<open>Take\<close> moves the value out of a slot; \<open>Wake\<close> and \<open>Await\<close> write and read the eventfd.
\<close>

datatype ('a, 'p) access =
    Load loc "u64 \<Rightarrow> 'p"
  | Store "'a mem_store" 'p
  | Exchange u64 u64 'p "u64 \<Rightarrow> 'p"
  | Take nat "'a \<Rightarrow> 'p"
  | Wake 'p
  | Await 'p

fun load_mem :: "loc \<Rightarrow> 'a shard_inbox \<Rightarrow> u64 option" where
  "load_mem TailLoc ib = Some (tail ib)"
| "load_mem HeadLoc ib = Some (head ib)"
| "load_mem (SeqLoc i) ib = map_option seq (index_get (cells ib) i)"

fun apply_store :: "'a mem_store \<Rightarrow> 'a shard_inbox \<Rightarrow> 'a shard_inbox option" where
  "apply_store (StoreWord TailLoc w) ib = Some (ib\<lparr>tail := w\<rparr>)"
| "apply_store (StoreWord HeadLoc w) ib = Some (ib\<lparr>head := w\<rparr>)"
| "apply_store (StoreWord (SeqLoc i) w) ib =
     map_option (\<lambda>sl. ib\<lparr>cells := (cells ib)[i := sl\<lparr>seq := w\<rparr>]\<rparr>) (index_get (cells ib) i)"
| "apply_store (StoreVal i v) ib =
     map_option (\<lambda>sl. ib\<lparr>cells := (cells ib)[i := sl\<lparr>val := Some v\<rparr>]\<rparr>) (index_get (cells ib) i)"

text \<open>A thread sees the newest of its own queued stores.\<close>

fun forwarded_word :: "loc \<Rightarrow> 'a mem_store list \<Rightarrow> u64 option" where
  "forwarded_word l [] = None"
| "forwarded_word l (st # sts) =
     (case forwarded_word l sts of
        Some w \<Rightarrow> Some w
      | None \<Rightarrow> (case st of StoreWord l' w \<Rightarrow> if l' = l then Some w else None | StoreVal i v \<Rightarrow> None))"

section \<open>The threads\<close>

text \<open>
  A producer in \<open>push\<close>, then in \<open>wake\<close> when the inbox was empty.  \<open>P_Full\<close> is the return of
  \<open>ShardInboxFull\<close>.
\<close>

datatype 'a producer_pc =
    P_Idle
  | P_LoadTail 'a
  | P_LoadSeq 'a u64
  | P_Exchange 'a u64
  | P_Write 'a u64
  | P_Publish u64
  | P_LoadHead u64
  | P_Wake
  | P_Full 'a

fun producer_access :: "u64 \<Rightarrow> 'a producer_pc \<Rightarrow> ('a, 'a producer_pc) access option" where
  "producer_access m P_Idle = None"
| "producer_access m (P_LoadTail v) = Some (Load TailLoc (\<lambda>t. P_LoadSeq v t))"
| "producer_access m (P_LoadSeq v t) = Some (Load (SeqLoc (unat (t AND m)))
     (\<lambda>s. let diff = sint (s - t) in
        if diff = 0 then P_Exchange v t else if diff < 0 then P_Full v else P_LoadTail v))"
| "producer_access m (P_Exchange v t) = Some (Exchange t (t + 1) (P_Write v t) (\<lambda>observed. P_LoadSeq v observed))"
| "producer_access m (P_Write v t) = Some (Store (StoreVal (unat (t AND m)) v) (P_Publish t))"
| "producer_access m (P_Publish t) = Some (Store (StoreWord (SeqLoc (unat (t AND m))) (t + 1)) (P_LoadHead t))"
| "producer_access m (P_LoadHead t) = Some (Load HeadLoc (\<lambda>head_after. if head_after = t then P_Wake else P_Idle))"
| "producer_access m P_Wake = Some (Wake P_Idle)"
| "producer_access m (P_Full v) = None"

text \<open>The drain task in its eventfd read and in \<open>pop\<close>; \<open>C_Dispatch\<close> is the body of its loop.\<close>

datatype 'a consumer_pc =
    C_Wait
  | C_LoadHead
  | C_LoadSeq u64
  | C_Take u64
  | C_StoreSeq u64 'a
  | C_StoreHead u64 'a
  | C_Dispatch 'a

fun consumer_access :: "u64 \<Rightarrow> 'a consumer_pc \<Rightarrow> ('a, 'a consumer_pc) access option" where
  "consumer_access m C_Wait = Some (Await C_LoadHead)"
| "consumer_access m C_LoadHead = Some (Load HeadLoc (\<lambda>h. C_LoadSeq h))"
| "consumer_access m (C_LoadSeq h) = Some (Load (SeqLoc (unat (h AND m)))
     (\<lambda>s. let diff = sint (s - (h + 1)) in if diff = 0 then C_Take h else C_Wait))"
| "consumer_access m (C_Take h) = Some (Take (unat (h AND m)) (\<lambda>v. C_StoreSeq h v))"
| "consumer_access m (C_StoreSeq h v) = Some (Store (StoreWord (SeqLoc (unat (h AND m))) (h + (m + 1))) (C_StoreHead h v))"
| "consumer_access m (C_StoreHead h v) = Some (Store (StoreWord HeadLoc (h + 1)) (C_Dispatch v))"
| "consumer_access m (C_Dispatch v) = None"

section \<open>Schedules\<close>

text \<open>
  \<open>claimed\<close> lists the elements in the order of the successful exchanges, \<open>dispatched\<close> those the drain
  task has got.  With sequentially consistent memory the store queues stay empty.
\<close>

record ('a, 'w) inbox_sys =
  mem :: "'a shard_inbox"
  producers :: "nat \<Rightarrow> 'a producer_pc"
  pqueues :: "nat \<Rightarrow> 'a mem_store list"
  consumer :: "'a consumer_pc"
  cqueue :: "'a mem_store list"
  efd :: 'w
  claimed :: "'a list"
  dispatched :: "'a list"

definition inbox_start :: "'a shard_inbox \<Rightarrow> 'w \<Rightarrow> ('a, 'w) inbox_sys" where
  "inbox_start ib e = \<lparr>mem = ib, producers = (\<lambda>i. P_Idle), pqueues = (\<lambda>i. []), consumer = C_Wait, cqueue = [],
     efd = e, claimed = [], dispatched = []\<rparr>"

text \<open>A locked exchange waits until the thread's stores are visible; an eventfd read waits for a wake-up.\<close>

fun blocked :: "('w \<Rightarrow> 'w option) \<Rightarrow> ('a, 'p) access \<Rightarrow> 'a mem_store list \<Rightarrow> 'w \<Rightarrow> bool" where
  "blocked poll (Exchange old new ok fail) queue e = (queue \<noteq> [])"
| "blocked poll (Await p) queue e = (poll e = None)"
| "blocked poll acc queue e = False"

fun perform ::
  "('w \<Rightarrow> 'w) \<Rightarrow> ('w \<Rightarrow> 'w option) \<Rightarrow> bool \<Rightarrow> bool \<Rightarrow> ('a, 'p) access \<Rightarrow> 'a mem_store list \<Rightarrow> 'a shard_inbox \<Rightarrow> 'w \<Rightarrow>
   ('p \<times> 'a mem_store list \<times> 'a shard_inbox \<times> 'w) option" where
  "perform wake poll tso spurious (Load l k) queue ib e = do {
     w \<leftarrow> (case forwarded_word l queue of Some w \<Rightarrow> Some w | None \<Rightarrow> load_mem l ib);
     Some (k w, queue, ib, e)
   }"
| "perform wake poll tso spurious (Store st p) queue ib e =
     (if tso then Some (p, queue @ [st], ib, e)
      else do { ib' \<leftarrow> apply_store st ib; Some (p, queue, ib', e) })"
| "perform wake poll tso spurious (Exchange old new ok fail) queue ib e =
     (if tail ib = old \<and> \<not> spurious then Some (ok, queue, ib\<lparr>tail := new\<rparr>, e)
      else Some (fail (tail ib), queue, ib, e))"
| "perform wake poll tso spurious (Take i k) queue ib e = do {
     sl \<leftarrow> index_get (cells ib) i;
     v \<leftarrow> val sl;
     Some (k v, queue, ib\<lparr>cells := (cells ib)[i := sl\<lparr>val := None\<rparr>]\<rparr>, e)
   }"
| "perform wake poll tso spurious (Wake p) queue ib e = Some (p, queue, ib, wake e)"
| "perform wake poll tso spurious (Await p) queue ib e = do { e' \<leftarrow> poll e; Some (p, queue, ib, e') }"

text \<open>
  A choice of the scheduler: a producer begins a push, a thread goes on, or the oldest store of a
  queue becomes visible.  A choice that is not possible changes nothing; None is a panic or
  the read of an uninitialised slot.
\<close>

datatype 'a choice = Begin nat 'a | Producer nat bool | Consumer | FlushProducer nat | FlushConsumer

fun exec ::
  "('w \<Rightarrow> 'w) \<Rightarrow> ('w \<Rightarrow> 'w option) \<Rightarrow> bool \<Rightarrow> 'a choice \<Rightarrow> ('a, 'w) inbox_sys \<Rightarrow> ('a, 'w) inbox_sys option" where
  "exec wake poll tso (Begin i v) s =
     (case producer_access (ring_mask (mem s)) (producers s i) of
        None \<Rightarrow> Some (s\<lparr>producers := (producers s)(i := P_LoadTail v)\<rparr>)
      | Some acc \<Rightarrow> Some s)"
| "exec wake poll tso (Producer i spurious) s =
     (case producer_access (ring_mask (mem s)) (producers s i) of
        None \<Rightarrow> Some s
      | Some acc \<Rightarrow>
          if blocked poll acc (pqueues s i) (efd s) then Some s
          else do {
            (p, queue, ib, e) \<leftarrow> perform wake poll tso spurious acc (pqueues s i) (mem s) (efd s);
            Some (s\<lparr>mem := ib, producers := (producers s)(i := p), pqueues := (pqueues s)(i := queue), efd := e,
              claimed := claimed s @ (case p of P_Write v t \<Rightarrow> [v] | _ \<Rightarrow> [])\<rparr>)
          })"
| "exec wake poll tso Consumer s =
     (case consumer s of
        C_Dispatch v \<Rightarrow> Some (s\<lparr>consumer := C_LoadHead, dispatched := dispatched s @ [v]\<rparr>)
      | pc \<Rightarrow>
          (case consumer_access (ring_mask (mem s)) pc of
             None \<Rightarrow> Some s
           | Some acc \<Rightarrow>
               if blocked poll acc (cqueue s) (efd s) then Some s
               else do {
                 (p, queue, ib, e) \<leftarrow> perform wake poll tso False acc (cqueue s) (mem s) (efd s);
                 Some (s\<lparr>mem := ib, consumer := p, cqueue := queue, efd := e\<rparr>)
               }))"
| "exec wake poll tso (FlushProducer i) s =
     (case pqueues s i of
        [] \<Rightarrow> Some s
      | st # sts \<Rightarrow> do { ib \<leftarrow> apply_store st (mem s); Some (s\<lparr>mem := ib, pqueues := (pqueues s)(i := sts)\<rparr>) })"
| "exec wake poll tso FlushConsumer s =
     (case cqueue s of
        [] \<Rightarrow> Some s
      | st # sts \<Rightarrow> do { ib \<leftarrow> apply_store st (mem s); Some (s\<lparr>mem := ib, cqueue := sts\<rparr>) })"

fun run ::
  "('w \<Rightarrow> 'w) \<Rightarrow> ('w \<Rightarrow> 'w option) \<Rightarrow> bool \<Rightarrow> 'a choice list \<Rightarrow> ('a, 'w) inbox_sys \<Rightarrow> ('a, 'w) inbox_sys option" where
  "run wake poll tso [] s = Some s"
| "run wake poll tso (c # cs) s = do { s' \<leftarrow> exec wake poll tso c s; run wake poll tso cs s' }"

end
