(* ===== verification/Inbox_Facts.thy ===== *)
theory Inbox_Facts
  imports Inbox_Threads
begin

text \<open>
  The inbox between threads: an invariant of every schedule with sequentially consistent memory, the
  order of the elements and the wake-up that follow from it, and a schedule with store queues that
  loses a wake-up.
\<close>

section \<open>The invariant\<close>

text \<open>
  Positions count the elements from the start.  \<open>cell k ib p\<close> is the slot of position p, \<open>held s p\<close> says
  that a producer has claimed p and not yet published it, and the positions below \<open>freed s\<close> may
  be claimed again.
\<close>

definition cell :: "nat \<Rightarrow> 'a shard_inbox \<Rightarrow> nat \<Rightarrow> 'a slot" where
  "cell k ib p = cells ib ! (p mod 2 ^ k)"

fun holds :: "'a producer_pc \<Rightarrow> nat option" where
  "holds (P_Write v t) = Some (unat t)"
| "holds (P_Publish t) = Some (unat t)"
| "holds pc = None"

definition held :: "('a, 'w) inbox_sys \<Rightarrow> nat \<Rightarrow> bool" where
  "held s p \<longleftrightarrow> (\<exists>i. holds (producers s i) = Some p)"

fun storing_head :: "'a consumer_pc \<Rightarrow> bool" where
  "storing_head (C_StoreHead h v) = True"
| "storing_head pc = False"

fun storing_seq :: "'a consumer_pc \<Rightarrow> bool" where
  "storing_seq (C_StoreSeq h v) = True"
| "storing_seq pc = False"

abbreviation head_pos :: "('a, 'w) inbox_sys \<Rightarrow> nat" where
  "head_pos s \<equiv> unat (head (mem s))"

abbreviation tail_pos :: "('a, 'w) inbox_sys \<Rightarrow> nat" where
  "tail_pos s \<equiv> length (claimed s)"

definition freed :: "('a, 'w) inbox_sys \<Rightarrow> nat" where
  "freed s = head_pos s + (if storing_head (consumer s) then 1 else 0)"

definition ring_shape :: "nat \<Rightarrow> ('a, 'w) inbox_sys \<Rightarrow> bool" where
  "ring_shape k s \<longleftrightarrow> 1 \<le> k \<and> k \<le> 62 \<and> length (cells (mem s)) = 2 ^ k \<and> ring_mask (mem s) = mask k \<and>
     tail (mem s) = of_nat (tail_pos s) \<and> tail_pos s + 2 ^ k < 2 ^ 63 \<and>
     freed s \<le> tail_pos s \<and> tail_pos s \<le> freed s + 2 ^ k"

definition free_ok :: "nat \<Rightarrow> ('a, 'w) inbox_sys \<Rightarrow> bool" where
  "free_ok k s \<longleftrightarrow> (\<forall>p. tail_pos s \<le> p \<and> p < freed s + 2 ^ k \<longrightarrow> cell k (mem s) p = \<lparr>seq = of_nat p, val = None\<rparr>)"

definition published_ok :: "nat \<Rightarrow> ('a, 'w) inbox_sys \<Rightarrow> bool" where
  "published_ok k s \<longleftrightarrow> (\<forall>p. freed s \<le> p \<and> p < tail_pos s \<and> \<not> held s p \<longrightarrow>
     cell k (mem s) p = \<lparr>seq = of_nat (p + 1),
       val = (if p = head_pos s \<and> storing_seq (consumer s) then None else Some (claimed s ! p))\<rparr>)"

fun producer_ok :: "nat \<Rightarrow> ('a, 'w) inbox_sys \<Rightarrow> 'a producer_pc \<Rightarrow> bool" where
  "producer_ok k s (P_LoadSeq v t) = (unat t \<le> tail_pos s)"
| "producer_ok k s (P_Exchange v t) = (unat t \<le> tail_pos s \<and> (unat t = tail_pos s \<longrightarrow> tail_pos s < freed s + 2 ^ k))"
| "producer_ok k s (P_Write v t) = (freed s \<le> unat t \<and> unat t < tail_pos s \<and> claimed s ! unat t = v \<and>
     cell k (mem s) (unat t) = \<lparr>seq = t, val = None\<rparr>)"
| "producer_ok k s (P_Publish t) = (freed s \<le> unat t \<and> unat t < tail_pos s \<and>
     cell k (mem s) (unat t) = \<lparr>seq = t, val = Some (claimed s ! unat t)\<rparr>)"
| "producer_ok k s pc = True"

definition producers_ok :: "nat \<Rightarrow> ('a, 'w) inbox_sys \<Rightarrow> bool" where
  "producers_ok k s \<longleftrightarrow> (\<forall>i. producer_ok k s (producers s i)) \<and>
     (\<forall>i j p. holds (producers s i) = Some p \<and> holds (producers s j) = Some p \<longrightarrow> i = j)"

fun consumer_at :: "('a, 'w) inbox_sys \<Rightarrow> 'a consumer_pc \<Rightarrow> bool" where
  "consumer_at s (C_LoadSeq h) = (h = head (mem s))"
| "consumer_at s (C_Take h) = (h = head (mem s) \<and> unat h < tail_pos s \<and> \<not> held s (unat h))"
| "consumer_at s (C_StoreSeq h v) = (h = head (mem s) \<and> unat h < tail_pos s \<and> \<not> held s (unat h) \<and> v = claimed s ! unat h)"
| "consumer_at s (C_StoreHead h v) = (h = head (mem s) \<and> v = claimed s ! unat h)"
| "consumer_at s pc = True"

fun returned :: "'a consumer_pc \<Rightarrow> 'a list" where
  "returned (C_Dispatch v) = [v]"
| "returned pc = []"

definition consumer_ok :: "('a, 'w) inbox_sys \<Rightarrow> bool" where
  "consumer_ok s \<longleftrightarrow> consumer_at s (consumer s) \<and> dispatched s @ returned (consumer s) = take (head_pos s) (claimed s)"

definition waking :: "u64 \<Rightarrow> 'a producer_pc \<Rightarrow> bool" where
  "waking h pc \<longleftrightarrow> pc = P_LoadHead h \<or> pc = P_Wake"

text \<open>When the drain task waits with no wake-up pending and an element is ready, a producer is on its way.\<close>

definition wake_ok :: "('w \<Rightarrow> 'w option) \<Rightarrow> ('a, 'w) inbox_sys \<Rightarrow> bool" where
  "wake_ok poll s \<longleftrightarrow> (consumer s = C_Wait \<and> poll (efd s) = None \<and> head_pos s < tail_pos s \<and> \<not> held s (head_pos s) \<longrightarrow>
     (\<exists>i. waking (head (mem s)) (producers s i)))"

definition queues_empty :: "('a, 'w) inbox_sys \<Rightarrow> bool" where
  "queues_empty s \<longleftrightarrow> (\<forall>i. pqueues s i = []) \<and> cqueue s = []"

definition inbox_inv :: "('w \<Rightarrow> 'w option) \<Rightarrow> nat \<Rightarrow> ('a, 'w) inbox_sys \<Rightarrow> bool" where
  "inbox_inv poll k s \<longleftrightarrow> ring_shape k s \<and> free_ok k s \<and> published_ok k s \<and> producers_ok k s \<and> consumer_ok s \<and>
     wake_ok poll s \<and> queues_empty s"

lemmas inv_defs = inbox_inv_def free_ok_def published_ok_def producers_ok_def consumer_ok_def wake_ok_def queues_empty_def

section \<open>Positions and slots\<close>

lemma same_slot:
  fixes p q f n :: nat
  assumes "f \<le> p" "p < f + n" "f \<le> q" "q < f + n" "p mod n = q mod n"
  shows "p = q"
proof -
  have "p - f < n" "q - f < n" using assms by linarith+
  with position_inj [of "p - f" n "q - f" f] assms show ?thesis by simp
qed

lemma cell_update:
  assumes "f \<le> p" "p < f + 2 ^ k" "f \<le> q" "q < f + 2 ^ k" "length (cells ib) = 2 ^ k"
  shows "cell k (ib\<lparr>cells := (cells ib)[q mod 2 ^ k := sl]\<rparr>) p = (if p = q then sl else cell k ib p)"
  using same_slot [OF assms(1-4)] assms(5) by (auto simp: cell_def nth_list_update)

lemma index_cell:
  assumes "ring_shape k s" "t = of_nat p" "p < 2 ^ 64"
  shows "unat (t AND ring_mask (mem s)) = p mod 2 ^ k"
    "index_get (cells (mem s)) (p mod 2 ^ k) = Some (cell k (mem s) p)"
  using assms mask_index [of k t] by (simp_all add: ring_shape_def index_get_def cell_def unat_small)

lemma signed_diff: "a < 2 ^ 63 \<Longrightarrow> b < 2 ^ 63 \<Longrightarrow> sint (of_nat a - of_nat b :: u64) = int a - int b"
proof -
  assume ab: "a < 2 ^ 63" "b < 2 ^ 63"
  have "(of_nat a - of_nat b :: u64) = of_int (int a - int b)" by simp
  moreover have "- (2 ^ 63) \<le> int a - int b" "int a - int b < 2 ^ 63" using ab by simp_all
  ultimately show ?thesis using sint_small by metis
qed

lemma window_position:
  fixes t f n :: nat
  assumes "0 < n"
  obtains p where "f \<le> p" "p < f + n" "p mod n = t mod n"
proof -
  define p where "p = f + (t + n * f - f) mod n"
  have "f \<le> n * f" using assms by (cases n) auto
  then have "f + (t + n * f - f) = t + n * f" by linarith
  then have "(f + (t + n * f - f)) mod n = t mod n" by simp
  then have "p mod n = t mod n" unfolding p_def by (simp add: mod_add_right_eq)
  with that [of p] assms show ?thesis by (simp add: p_def)
qed

lemma inbox_invD:
  assumes "inbox_inv poll k s"
  shows "ring_shape k s" "free_ok k s" "published_ok k s" "producers_ok k s" "consumer_ok s" "wake_ok poll s" "queues_empty s"
    "head_pos s \<le> tail_pos s" "tail_pos s < 2 ^ 63" "unat (of_nat (tail_pos s) :: u64) = tail_pos s"
proof -
  show 1: "ring_shape k s" "free_ok k s" "published_ok k s" "producers_ok k s" "consumer_ok s" "wake_ok poll s" "queues_empty s"
    using assms by (simp_all add: inbox_inv_def)
  show "head_pos s \<le> tail_pos s" "tail_pos s < 2 ^ 63" using 1(1) by (auto simp: ring_shape_def freed_def split: if_splits)
  then show "unat (of_nat (tail_pos s) :: u64) = tail_pos s" by (intro unat_small) simp
qed

lemma held_update:
  "held (s\<lparr>mem := m\<rparr>) = held s" "held (s\<lparr>consumer := c\<rparr>) = held s" "held (s\<lparr>efd := e\<rparr>) = held s"
  "held (s\<lparr>dispatched := d\<rparr>) = held s" "held (s\<lparr>claimed := xs\<rparr>) = held s"
  by (simp_all add: held_def fun_eq_iff)

section \<open>Steps of a producer\<close>

lemma producer_ok_cong:
  "mem s' = mem s \<Longrightarrow> claimed s' = claimed s \<Longrightarrow> freed s' = freed s \<Longrightarrow> producer_ok k s' pc = producer_ok k s pc"
  by (cases pc) auto

lemma consumer_at_cong:
  "mem s' = mem s \<Longrightarrow> claimed s' = claimed s \<Longrightarrow> held s' = held s \<Longrightarrow> consumer_at s' pc = consumer_at s pc"
  by (cases pc) auto

lemma waking_kept: "\<exists>j. waking h (f j) \<Longrightarrow> (waking h (f i) \<Longrightarrow> waking h pc) \<Longrightarrow> \<exists>j. waking h ((f(i := pc)) j)"
  by (metis fun_upd_apply)

text \<open>A step that neither writes the ring nor claims or publishes a position.\<close>

lemma producer_moves:
  assumes "inbox_inv poll k s" "holds (producers s i) = None" "holds pc = None" "producer_ok k s pc"
    and "poll e = None \<Longrightarrow> poll (efd s) = None"
    and "poll e = None \<Longrightarrow> waking (head (mem s)) (producers s i) \<Longrightarrow> pc = P_Wake"
  shows "inbox_inv poll k (s\<lparr>producers := (producers s)(i := pc), efd := e\<rparr>)"
proof -
  let ?s = "s\<lparr>producers := (producers s)(i := pc), efd := e\<rparr>"
  have "holds (((producers s)(i := pc)) j) = holds (producers s j)" for j using assms(2,3) by simp
  then have held: "held ?s = held s" by (simp add: held_def fun_eq_iff)
  have freed: "freed ?s = freed s" by (simp add: freed_def)
  have "ring_shape k ?s" "free_ok k ?s" "published_ok k ?s" "queues_empty ?s"
    using assms(1) by (simp_all add: inv_defs ring_shape_def freed held)
  moreover have "producer_ok k ?s pc' = producer_ok k s pc'" for pc' by (rule producer_ok_cong) (simp_all add: freed)
  then have "producers_ok k ?s" using assms(1-4) by (auto simp: inv_defs)
  moreover have "consumer_at ?s pc' = consumer_at s pc'" for pc' by (rule consumer_at_cong) (simp_all add: held)
  then have "consumer_ok ?s" using assms(1) by (simp add: inv_defs)
  moreover have "wake_ok poll ?s"
    using inbox_invD(6) [OF assms(1)] assms(5,6) waking_kept [of "head (mem s)" "producers s" i pc]
    by (auto simp: wake_ok_def held waking_def)
  ultimately show ?thesis by (simp add: inbox_inv_def)
qed

text \<open>A successful exchange claims the position at the tail.\<close>

lemma producer_claims:
  assumes "inbox_inv poll k s" "producers s i = P_Exchange v t" "tail (mem s) = t" "Suc (tail_pos s) + 2 ^ k < 2 ^ 63"
  shows "inbox_inv poll k (s\<lparr>mem := (mem s)\<lparr>tail := t + 1\<rparr>, producers := (producers s)(i := P_Write v t), claimed := claimed s @ [v]\<rparr>)"
    (is "inbox_inv poll k ?s")
proof -
  note inv = inbox_invD [OF assms(1)]
  have t: "t = of_nat (tail_pos s)" "unat t = tail_pos s" using inv(1,10) assms(3) by (simp_all add: ring_shape_def)
  have "producer_ok k s (P_Exchange v t)" using inv(4) assms(2) unfolding producers_ok_def by metis
  then have room: "tail_pos s < freed s + 2 ^ k" using t by simp
  have freed: "freed ?s = freed s" by (simp add: freed_def)
  have cell: "cell k ((mem s)\<lparr>tail := t + 1\<rparr>) = cell k (mem s)" by (simp add: cell_def fun_eq_iff)
  have old: "holds (producers s i) = None" using assms(2) by simp
  have "holds (producers ?s j) = (if j = i then Some (tail_pos s) else holds (producers s j))" for j using t(2) by simp
  then have held: "held ?s p \<longleftrightarrow> held s p \<or> p = tail_pos s" for p
    unfolding held_def using old by (metis option.distinct(1) option.inject)
  have below: "p < tail_pos s" if "held s p" for p
  proof -
    from that obtain j where "holds (producers s j) = Some p" by (auto simp: held_def)
    moreover have "producer_ok k s (producers s j)" using inv(4) by (simp add: producers_ok_def)
    ultimately show ?thesis by (cases "producers s j") auto
  qed
  have "ring_shape k ?s" using inv(1) room assms(4) t(1) by (simp add: ring_shape_def freed_def)
  moreover have "free_ok k ?s" using inv(2) by (simp add: free_ok_def freed cell)
  moreover have "published_ok k ?s" using inv(3) by (auto simp: published_ok_def freed cell held nth_append)
  moreover have "queues_empty ?s" using inv(7) by (simp add: queues_empty_def)
  moreover have "producers_ok k ?s"
  proof -
    have "producer_ok k s pc \<Longrightarrow> producer_ok k ?s pc" for pc by (cases pc) (auto simp: freed cell nth_append)
    moreover have "cell k (mem s) (tail_pos s) = \<lparr>seq = t, val = None\<rparr>" using inv(2) room t(1) by (simp add: free_ok_def)
    then have "producer_ok k ?s (P_Write v t)" using inv(1) t(2) by (simp add: freed cell ring_shape_def)
    moreover have "holds (producers s j) \<noteq> Some (tail_pos s)" for j using below [of "tail_pos s"] by (auto simp: held_def)
    ultimately show ?thesis using inv(4) t(2) by (auto simp: producers_ok_def)
  qed
  moreover have "consumer_ok ?s"
  proof -
    have "head_pos s < tail_pos s" if "consumer s = C_StoreHead h w" for h w using inv(1) that by (simp add: ring_shape_def freed_def)
    then have "consumer_at ?s (consumer s)" using inv(5)
      by (cases "consumer s") (auto simp: consumer_ok_def held nth_append)
    then show ?thesis using inv(5,8) by (simp add: consumer_ok_def)
  qed
  moreover have "wake_ok poll ?s"
    using inv(6) assms(2) waking_kept [of "head (mem s)" "producers s" i "P_Write v t"] by (auto simp: wake_ok_def held waking_def)
  ultimately show ?thesis by (simp add: inbox_inv_def)
qed

text \<open>A step that changes the slot of one position q of the window leaves the others.\<close>

lemma producer_ok_other:
  assumes "producer_ok k s pc" "ring_shape k s" "freed s \<le> q" "q < freed s + 2 ^ k" "holds pc \<noteq> Some q"
    and "mem s' = (mem s)\<lparr>cells := (cells (mem s))[q mod 2 ^ k := sl]\<rparr>" "claimed s' = claimed s" "freed s' = freed s"
  shows "producer_ok k s' pc"
proof -
  have "cell k (mem s') p = cell k (mem s) p" if "freed s \<le> p" "p < tail_pos s" "p \<noteq> q" for p
    using cell_update [OF that(1) _ assms(3,4), where ib = "mem s" and sl = sl] that assms(2) unfolding assms(6) by (simp add: ring_shape_def)
  then show ?thesis using assms(1,5,7,8) by (cases pc) auto
qed

lemma slot_stored:
  assumes "inbox_inv poll k s" "freed s \<le> q" "q < tail_pos s" "held s q"
    and "s' = s\<lparr>mem := (mem s)\<lparr>cells := (cells (mem s))[q mod 2 ^ k := sl]\<rparr>, producers := pcs\<rparr>"
  shows "ring_shape k s'" "free_ok k s'" "freed s' = freed s" "cell k (mem s') q = sl"
    "\<And>p. freed s \<le> p \<Longrightarrow> p < freed s + 2 ^ k \<Longrightarrow> p \<noteq> q \<Longrightarrow> cell k (mem s') p = cell k (mem s) p"
proof -
  note inv = inbox_invD [OF assms(1)]
  show f: "freed s' = freed s" by (simp add: freed_def assms(5))
  have q: "q < freed s + 2 ^ k" using inv(1) assms(3) by (simp add: ring_shape_def)
  have len: "length (cells (mem s)) = 2 ^ k" using inv(1) by (simp add: ring_shape_def)
  show c: "cell k (mem s') p = cell k (mem s) p" if "freed s \<le> p" "p < freed s + 2 ^ k" "p \<noteq> q" for p
    using cell_update [OF that(1,2) assms(2) q len] that(3) by (simp add: assms(5))
  show "cell k (mem s') q = sl" using cell_update [OF assms(2) q assms(2) q len] by (simp add: assms(5))
  show "ring_shape k s'" using inv(1) by (simp add: ring_shape_def freed_def assms(5))
  have "tail_pos s' = tail_pos s" by (simp add: assms(5))
  moreover have "freed s \<le> tail_pos s" using inv(1) by (simp add: ring_shape_def)
  ultimately show "free_ok k s'" using inv(2) c assms(3) unfolding free_ok_def f by (metis leD le_trans)
qed

lemma producer_writes:
  assumes "inbox_inv poll k s" "producers s i = P_Write v t"
  shows "inbox_inv poll k (s\<lparr>mem := (mem s)\<lparr>cells := (cells (mem s))[unat t mod 2 ^ k := \<lparr>seq = t, val = Some v\<rparr>]\<rparr>,
    producers := (producers s)(i := P_Publish t)\<rparr>)" (is "inbox_inv poll k ?s")
proof -
  note inv = inbox_invD [OF assms(1)]
  have ok: "producer_ok k s (producers s j)" for j using inv(4) by (simp add: producers_ok_def)
  have t: "freed s \<le> unat t" "unat t < tail_pos s" "claimed s ! unat t = v" using ok [of i] assms(2) by simp_all
  have hi: "holds (producers s i) = Some (unat t)" using assms(2) by simp
  then have "held s (unat t)" by (auto simp: held_def)
  note st = slot_stored [OF assms(1) t(1,2) this refl, where sl = "\<lparr>seq = t, val = Some v\<rparr>" and pcs = "(producers s)(i := P_Publish t)"]
  have holds: "holds (producers ?s j) = holds (producers s j)" for j using hi by simp
  then have held: "held ?s = held s" by (simp add: held_def fun_eq_iff)
  have window: "p < freed s + 2 ^ k" if "p < tail_pos s" for p using that inv(1) by (simp add: ring_shape_def)
  have "producer_ok k ?s (producers ?s j)" for j
  proof (cases "j = i")
    case False
    then have "holds (producers s j) \<noteq> Some (unat t)" using inv(4) hi by (auto simp: producers_ok_def)
    with producer_ok_other [OF ok inv(1) t(1) window [OF t(2)], of j ?s] False st(3) show ?thesis by simp
  qed (use t st(3,4) in simp)
  then have "producers_ok k ?s" using inv(4) holds unfolding producers_ok_def by metis
  moreover have "published_ok k ?s" unfolding published_ok_def st(3) held
  proof (intro allI impI)
    fix p assume p: "freed s \<le> p \<and> p < tail_pos ?s \<and> \<not> held s p"
    with \<open>held s (unat t)\<close> have "p \<noteq> unat t" by blast
    with p st(5) [of p] window [of p] inv(3) show "cell k (mem ?s) p = \<lparr>seq = of_nat (p + 1),
        val = (if p = head_pos ?s \<and> storing_seq (consumer ?s) then None else Some (claimed ?s ! p))\<rparr>"
      by (simp add: published_ok_def)
  qed
  moreover have "consumer_at ?s pc = consumer_at s pc" for pc by (cases pc) (simp_all add: held)
  then have "consumer_ok ?s" using inv(5) by (simp add: consumer_ok_def)
  moreover have "wake_ok poll ?s"
    using inv(6) assms(2) waking_kept [of "head (mem s)" "producers s" i "P_Publish t"] by (auto simp: wake_ok_def held waking_def)
  moreover have "queues_empty ?s" using inv(7) by (simp add: queues_empty_def)
  ultimately show ?thesis using st(1,2) by (simp add: inbox_inv_def)
qed

lemma held_release:
  assumes "\<And>j. g j = (if j = i then None else f j)" "f i = Some q" "\<And>j. j \<noteq> i \<Longrightarrow> f j \<noteq> Some q"
  shows "(\<exists>j. g j = Some p) \<longleftrightarrow> (\<exists>j. f j = Some p) \<and> p \<noteq> (q :: nat)"
  using assms by (metis option.distinct(1) option.inject)

lemma producer_publishes:
  assumes "inbox_inv poll k s" "producers s i = P_Publish t"
  shows "inbox_inv poll k (s\<lparr>mem := (mem s)\<lparr>cells := (cells (mem s))[unat t mod 2 ^ k := (cell k (mem s) (unat t))\<lparr>seq := t + 1\<rparr>]\<rparr>,
    producers := (producers s)(i := P_LoadHead t)\<rparr>)" (is "inbox_inv poll k ?s")
proof -
  note inv = inbox_invD [OF assms(1)]
  have ok: "producer_ok k s (producers s j)" for j using inv(4) by (simp add: producers_ok_def)
  have t: "freed s \<le> unat t" "unat t < tail_pos s" "cell k (mem s) (unat t) = \<lparr>seq = t, val = Some (claimed s ! unat t)\<rparr>"
    using ok [of i] assms(2) by simp_all
  have hi: "holds (producers s i) = Some (unat t)" using assms(2) by simp
  then have h: "held s (unat t)" by (auto simp: held_def)
  note st = slot_stored [OF assms(1) t(1,2) this refl, where sl = "(cell k (mem s) (unat t))\<lparr>seq := t + 1\<rparr>" and pcs = "(producers s)(i := P_LoadHead t)"]
  have uniq: "holds (producers s j) \<noteq> Some (unat t)" if "j \<noteq> i" for j using that inv(4) hi by (auto simp: producers_ok_def)
  have held: "held ?s p \<longleftrightarrow> held s p \<and> p \<noteq> unat t" for p
    unfolding held_def by (rule held_release [where f = "\<lambda>j. holds (producers s j)" and i = i, OF _ hi uniq]) simp
  have window: "p < freed s + 2 ^ k" if "p < tail_pos s" for p using that inv(1) by (simp add: ring_shape_def)
  have "producer_ok k ?s (producers ?s j)" for j
    using producer_ok_other [OF ok inv(1) t(1) window [OF t(2)] uniq, of j ?s] st(3) by (cases "j = i") simp_all
  then have "producers_ok k ?s" using inv(4) by (auto simp: producers_ok_def split: if_splits)
  moreover have "published_ok k ?s" unfolding published_ok_def st(3) held
  proof (intro allI impI)
    fix p assume p: "freed s \<le> p \<and> p < tail_pos ?s \<and> \<not> (held s p \<and> p \<noteq> unat t)"
    have "\<not> (unat t = head_pos s \<and> storing_seq (consumer s))"
      using inv(5) h by (cases "consumer s") (auto simp: consumer_ok_def)
    with p t(3) st(4) st(5) [of p] window [of p] inv(3) show "cell k (mem ?s) p = \<lparr>seq = of_nat (p + 1),
        val = (if p = head_pos ?s \<and> storing_seq (consumer ?s) then None else Some (claimed ?s ! p))\<rparr>"
      by (cases "p = unat t") (auto simp: published_ok_def)
  qed
  moreover have "consumer_at s pc \<Longrightarrow> consumer_at ?s pc" for pc by (cases pc) (simp_all add: held)
  then have "consumer_ok ?s" using inv(5) by (simp add: consumer_ok_def)
  moreover have "wake_ok poll ?s"
  proof (cases "head_pos s = unat t")
    case True
    then have "head (mem s) = t" by (rule unsigned_word_eqI)
    then have "waking (head (mem s)) (producers ?s i)" by (simp add: waking_def)
    then show ?thesis unfolding wake_ok_def by (intro impI exI [of _ i]) simp
  next
    case False
    then show ?thesis
      using inv(6) assms(2) waking_kept [of "head (mem s)" "producers s" i "P_LoadHead t"] by (auto simp: wake_ok_def held waking_def)
  qed
  moreover have "queues_empty ?s" using inv(7) by (simp add: queues_empty_def)
  ultimately show ?thesis using st(1,2) by (simp add: inbox_inv_def)
qed

section \<open>Steps of the drain task\<close>

lemma consumer_moves:
  assumes "inbox_inv poll k s" "consumer_at s pc" "returned pc = []" "d = dispatched s @ returned (consumer s)"
    and "\<not> storing_head (consumer s)" "\<not> storing_head pc" "\<not> storing_seq (consumer s)" "\<not> storing_seq pc"
    and "pc = C_Wait \<Longrightarrow> head_pos s < tail_pos s \<Longrightarrow> held s (head_pos s)"
  shows "inbox_inv poll k (s\<lparr>consumer := pc, efd := e, dispatched := d\<rparr>)"
proof -
  note inv = inbox_invD [OF assms(1)]
  let ?s = "s\<lparr>consumer := pc, efd := e, dispatched := d\<rparr>"
  have held: "held ?s = held s" by (simp add: held_def fun_eq_iff)
  have freed: "freed ?s = freed s" using assms(5,6) by (simp add: freed_def)
  have "ring_shape k ?s" "free_ok k ?s" "published_ok k ?s" "queues_empty ?s"
    using inv assms(7,8) by (simp_all add: inv_defs ring_shape_def freed held)
  moreover have "producer_ok k ?s pc' = producer_ok k s pc'" for pc' by (rule producer_ok_cong) (simp_all add: freed)
  then have "producers_ok k ?s" using inv(4) by (simp add: producers_ok_def)
  moreover have "consumer_at ?s pc' = consumer_at s pc'" for pc' by (rule consumer_at_cong) (simp_all add: held)
  then have "consumer_ok ?s" using inv(5) assms(2-4) by (simp add: consumer_ok_def)
  moreover have "wake_ok poll ?s" using assms(9) by (auto simp: wake_ok_def held)
  ultimately show ?thesis by (simp add: inbox_inv_def)
qed

lemma consumer_takes:
  assumes "inbox_inv poll k s" "consumer s = C_Take h"
  shows "cell k (mem s) (unat h) = \<lparr>seq = h + 1, val = Some (claimed s ! unat h)\<rparr>" (is ?cell)
    "inbox_inv poll k (s\<lparr>mem := (mem s)\<lparr>cells := (cells (mem s))[unat h mod 2 ^ k := \<lparr>seq = h + 1, val = None\<rparr>]\<rparr>,
      consumer := C_StoreSeq h (claimed s ! unat h)\<rparr>)" (is "inbox_inv poll k ?s")
proof -
  note inv = inbox_invD [OF assms(1)]
  have h: "h = head (mem s)" "unat h < tail_pos s" "\<not> held s (unat h)" using inv(5) assms(2) by (auto simp: consumer_ok_def)
  have f: "freed s = unat h" "freed ?s = unat h" using assms(2) h(1) by (simp_all add: freed_def)
  show ?cell using inv(3) h f(1) assms(2) by (simp add: published_ok_def)
  have held: "held ?s = held s" by (simp add: held_def fun_eq_iff)
  have q: "freed s \<le> unat h" "unat h < freed s + 2 ^ k" "length (cells (mem s)) = 2 ^ k" using f inv(1) by (simp_all add: ring_shape_def)
  have cell: "cell k (mem ?s) p = (if p = unat h then \<lparr>seq = h + 1, val = None\<rparr> else cell k (mem s) p)"
    if "freed s \<le> p" "p < freed s + 2 ^ k" for p using cell_update [OF that q] by simp
  have "ring_shape k ?s" using inv(1) f by (simp add: ring_shape_def)
  moreover have "free_ok k ?s" using inv(1,2) h(2) cell f by (auto simp: free_ok_def ring_shape_def)
  moreover have "published_ok k ?s" unfolding published_ok_def f(2) held
  proof (intro allI impI)
    fix p assume p: "unat h \<le> p \<and> p < tail_pos ?s \<and> \<not> held s p"
    then have "p < freed s + 2 ^ k" using inv(1) by (simp add: ring_shape_def)
    with p cell [of p] inv(3) f(1) h(1) show "cell k (mem ?s) p = \<lparr>seq = of_nat (p + 1),
        val = (if p = head_pos ?s \<and> storing_seq (consumer ?s) then None else Some (claimed ?s ! p))\<rparr>"
      by (auto simp: published_ok_def)
  qed
  moreover have "producer_ok k ?s (producers s j)" for j
  proof (rule producer_ok_other [OF _ inv(1) q(1,2)])
    show "producer_ok k s (producers s j)" using inv(4) by (simp add: producers_ok_def)
    show "holds (producers s j) \<noteq> Some (unat h)" using h(3) by (auto simp: held_def)
  qed (use f in simp_all)
  then have "producers_ok k ?s" using inv(4) by (simp add: producers_ok_def)
  moreover have "consumer_ok ?s" using inv(5) h assms(2) by (simp add: consumer_ok_def held_update)
  moreover have "wake_ok poll ?s" by (simp add: wake_ok_def)
  moreover have "queues_empty ?s" using inv(7) by (simp add: queues_empty_def)
  ultimately show "inbox_inv poll k ?s" by (simp add: inbox_inv_def)
qed

lemma consumer_frees:
  assumes "inbox_inv poll k s" "consumer s = C_StoreSeq h v"
  shows "inbox_inv poll k (s\<lparr>mem := (mem s)\<lparr>cells := (cells (mem s))[unat h mod 2 ^ k := (cell k (mem s) (unat h))\<lparr>seq := h + of_nat (2 ^ k)\<rparr>]\<rparr>,
      consumer := C_StoreHead h v\<rparr>)" (is "inbox_inv poll k ?s")
proof -
  note inv = inbox_invD [OF assms(1)]
  have h: "h = head (mem s)" "unat h < tail_pos s" "\<not> held s (unat h)" "v = claimed s ! unat h"
    using inv(5) assms(2) by (auto simp: consumer_ok_def)
  have f: "freed s = unat h" "freed ?s = Suc (unat h)" using assms(2) h(1) by (simp_all add: freed_def)
  have v: "cell k (mem s) (unat h) = \<lparr>seq = h + 1, val = None\<rparr>" using inv(3) h f(1) assms(2) by (simp add: published_ok_def)
  have held: "held ?s = held s" by (simp add: held_def fun_eq_iff)
  have sh: "length (cells (mem s)) = 2 ^ k" "tail_pos s \<le> unat h + 2 ^ k" using inv(1) f(1) by (simp_all add: ring_shape_def)
  have cell: "cell k (mem ?s) p = cell k (mem s) p" if "unat h < p" "p < unat h + 2 ^ k" for p
    using cell_update [of "unat h" p k "unat h" "mem s"] that sh(1) by simp
  have new: "cell k (mem ?s) (unat h + 2 ^ k) = \<lparr>seq = of_nat (unat h + 2 ^ k), val = None\<rparr>"
    using sh(1) v by (simp add: cell_def)
  have "ring_shape k ?s" using inv(1) f h(2) by (simp add: ring_shape_def)
  moreover have "free_ok k ?s" unfolding free_ok_def f(2)
  proof (intro allI impI)
    fix p assume p: "tail_pos ?s \<le> p \<and> p < Suc (unat h) + 2 ^ k"
    show "cell k (mem ?s) p = \<lparr>seq = of_nat p, val = None\<rparr>"
    proof (cases "p = unat h + 2 ^ k")
      case False
      with p h(2) have "unat h < p" "p < unat h + 2 ^ k" by simp_all
      with cell [of p] p inv(2) f(1) show ?thesis by (simp add: free_ok_def)
    qed (use new in simp)
  qed
  moreover have "published_ok k ?s" unfolding published_ok_def f(2) held
  proof (intro allI impI)
    fix p assume p: "Suc (unat h) \<le> p \<and> p < tail_pos ?s \<and> \<not> held s p"
    with cell [of p] inv(3) f(1) h(1) sh(2) show "cell k (mem ?s) p = \<lparr>seq = of_nat (p + 1),
        val = (if p = head_pos ?s \<and> storing_seq (consumer ?s) then None else Some (claimed ?s ! p))\<rparr>"
      by (auto simp: published_ok_def)
  qed
  moreover have "producer_ok k ?s (producers s j)" for j
  proof -
    have "producer_ok k s (producers s j)" using inv(4) by (simp add: producers_ok_def)
    moreover have "holds (producers s j) \<noteq> Some (unat h)" using h(3) by (auto simp: held_def)
    ultimately show ?thesis using f cell sh(2) by (cases "producers s j") auto
  qed
  then have "producers_ok k ?s" using inv(4) by (simp add: producers_ok_def)
  moreover have "consumer_ok ?s" using inv(5) h assms(2) by (simp add: consumer_ok_def held_update)
  moreover have "wake_ok poll ?s" by (simp add: wake_ok_def)
  moreover have "queues_empty ?s" using inv(7) by (simp add: queues_empty_def)
  ultimately show "inbox_inv poll k ?s" by (simp add: inbox_inv_def)
qed

lemma consumer_advances:
  assumes "inbox_inv poll k s" "consumer s = C_StoreHead h v"
  shows "inbox_inv poll k (s\<lparr>mem := (mem s)\<lparr>head := h + 1\<rparr>, consumer := C_Dispatch v\<rparr>)" (is "inbox_inv poll k ?s")
proof -
  note inv = inbox_invD [OF assms(1)]
  have h: "h = head (mem s)" "v = claimed s ! unat h" using inv(5) assms(2) by (auto simp: consumer_ok_def)
  have lt: "unat h < tail_pos s" using inv(1) assms(2) h(1) by (simp add: ring_shape_def freed_def)
  have "unat (of_nat (Suc (unat h)) :: u64) = Suc (unat h)" using lt inv(9) by (intro unat_small) simp
  then have h1: "unat (h + 1) = Suc (unat h)" by (simp add: add.commute)
  have held: "held ?s = held s" by (simp add: held_def fun_eq_iff)
  have f: "freed ?s = freed s" "freed s = Suc (unat h)" using assms(2) h(1) h1 by (simp_all add: freed_def)
  have cell: "cell k ((mem s)\<lparr>head := h + 1\<rparr>) = cell k (mem s)" by (simp add: cell_def fun_eq_iff)
  have "ring_shape k ?s" using inv(1) f by (simp add: ring_shape_def)
  moreover have "free_ok k ?s" using inv(2) f by (simp add: free_ok_def cell)
  moreover have "published_ok k ?s" using inv(3) f assms(2) by (simp add: published_ok_def cell held)
  moreover have "producer_ok k ?s pc = producer_ok k s pc" for pc using f by (cases pc) (simp_all add: cell)
  then have "producers_ok k ?s" using inv(4) by (simp add: producers_ok_def)
  moreover have "consumer_ok ?s" using inv(5) h assms(2) h1 lt by (simp add: consumer_ok_def take_Suc_conv_app_nth)
  moreover have "wake_ok poll ?s" by (simp add: wake_ok_def)
  moreover have "queues_empty ?s" using inv(7) by (simp add: queues_empty_def)
  ultimately show "inbox_inv poll k ?s" by (simp add: inbox_inv_def)
qed

section \<open>Schedules with sequentially consistent memory\<close>

lemma exec_begin:
  "exec wake poll False (Begin i v) s =
     Some (if producer_access (ring_mask (mem s)) (producers s i) = None then s\<lparr>producers := (producers s)(i := P_LoadTail v)\<rparr> else s)"
  by (simp split: option.split)

lemma exec_producer:
  assumes "pqueues s i = []"
  shows "exec wake poll False (Producer i spurious) s =
    (case producers s i of
       P_LoadTail v \<Rightarrow> Some (s\<lparr>producers := (producers s)(i := P_LoadSeq v (tail (mem s)))\<rparr>)
     | P_LoadSeq v t \<Rightarrow> map_option (\<lambda>sl. s\<lparr>producers := (producers s)(i := (let diff = sint (seq sl - t) in
           if diff = 0 then P_Exchange v t else if diff < 0 then P_Full v else P_LoadTail v))\<rparr>)
           (index_get (cells (mem s)) (unat (t AND ring_mask (mem s))))
     | P_Exchange v t \<Rightarrow>
         if tail (mem s) = t \<and> \<not> spurious
         then Some (s\<lparr>mem := (mem s)\<lparr>tail := t + 1\<rparr>, producers := (producers s)(i := P_Write v t), claimed := claimed s @ [v]\<rparr>)
         else Some (s\<lparr>producers := (producers s)(i := P_LoadSeq v (tail (mem s)))\<rparr>)
     | P_Write v t \<Rightarrow> map_option (\<lambda>ib. s\<lparr>mem := ib, producers := (producers s)(i := P_Publish t)\<rparr>)
         (apply_store (StoreVal (unat (t AND ring_mask (mem s))) v) (mem s))
     | P_Publish t \<Rightarrow> map_option (\<lambda>ib. s\<lparr>mem := ib, producers := (producers s)(i := P_LoadHead t)\<rparr>)
         (apply_store (StoreWord (SeqLoc (unat (t AND ring_mask (mem s)))) (t + 1)) (mem s))
     | P_LoadHead t \<Rightarrow> Some (s\<lparr>producers := (producers s)(i := if head (mem s) = t then P_Wake else P_Idle)\<rparr>)
     | P_Wake \<Rightarrow> Some (s\<lparr>producers := (producers s)(i := P_Idle), efd := wake (efd s)\<rparr>)
     | _ \<Rightarrow> Some s)"
proof -
  have q: "(pqueues s)(i := []) = pqueues s" using assms by (metis fun_upd_triv)
  show ?thesis
    by (cases s; cases "producers s i") (use assms q in \<open>auto simp: Let_def map_conv_bind_option comp_def split: option.splits Option.bind_split\<close>)
qed

lemma exec_consumer:
  assumes "cqueue s = []"
  shows "exec wake poll False Consumer s =
    (case consumer s of
       C_Wait \<Rightarrow> (case poll (efd s) of None \<Rightarrow> Some s | Some e \<Rightarrow> Some (s\<lparr>consumer := C_LoadHead, efd := e\<rparr>))
     | C_LoadHead \<Rightarrow> Some (s\<lparr>consumer := C_LoadSeq (head (mem s))\<rparr>)
     | C_LoadSeq h \<Rightarrow> map_option (\<lambda>sl. s\<lparr>consumer := (if sint (seq sl - (h + 1)) = 0 then C_Take h else C_Wait)\<rparr>)
         (index_get (cells (mem s)) (unat (h AND ring_mask (mem s))))
     | C_Take h \<Rightarrow> do {
         sl \<leftarrow> index_get (cells (mem s)) (unat (h AND ring_mask (mem s)));
         v \<leftarrow> val sl;
         Some (s\<lparr>mem := (mem s)\<lparr>cells := (cells (mem s))[unat (h AND ring_mask (mem s)) := sl\<lparr>val := None\<rparr>]\<rparr>, consumer := C_StoreSeq h v\<rparr>)
       }
     | C_StoreSeq h v \<Rightarrow> map_option (\<lambda>ib. s\<lparr>mem := ib, consumer := C_StoreHead h v\<rparr>)
         (apply_store (StoreWord (SeqLoc (unat (h AND ring_mask (mem s)))) (h + (ring_mask (mem s) + 1))) (mem s))
     | C_StoreHead h v \<Rightarrow> Some (s\<lparr>mem := (mem s)\<lparr>head := h + 1\<rparr>, consumer := C_Dispatch v\<rparr>)
     | C_Dispatch v \<Rightarrow> Some (s\<lparr>consumer := C_LoadHead, dispatched := dispatched s @ [v]\<rparr>))"
  by (cases s; cases "consumer s") (use assms in \<open>auto simp: Let_def map_conv_bind_option comp_def split: option.splits Option.bind_split\<close>)

text \<open>The sequence number of a slot is its position, or the next number once it is published.\<close>

lemma slot_seq:
  assumes "inbox_inv poll k s" "freed s \<le> p" "p < freed s + 2 ^ k"
  shows "seq (cell k (mem s) p) = of_nat (if p < tail_pos s \<and> \<not> held s p then p + 1 else p)"
proof -
  note inv = inbox_invD [OF assms(1)]
  consider "tail_pos s \<le> p" | "p < tail_pos s" "\<not> held s p" | "p < tail_pos s" "held s p" by linarith
  then show ?thesis
  proof cases
    case 3
    then obtain j where j: "holds (producers s j) = Some p" by (auto simp: held_def)
    moreover have "producer_ok k s (producers s j)" using inv(4) by (simp add: producers_ok_def)
    ultimately show ?thesis using 3 by (cases "producers s j") auto
  qed (use inv(2,3) assms(2,3) in \<open>simp_all add: free_ok_def published_ok_def\<close>)
qed

text \<open>What a producer learns from the sequence number: that the slot is free, or that the ring is full.\<close>

lemma producer_sees:
  assumes "inbox_inv poll k s" "unat t \<le> tail_pos s"
  shows "\<exists>sl. index_get (cells (mem s)) (unat (t AND ring_mask (mem s))) = Some sl \<and>
    (sint (seq sl - t) = 0 \<longrightarrow> producer_ok k s (P_Exchange v t)) \<and>
    (sint (seq sl - t) < 0 \<longrightarrow> tail_pos s = freed s + 2 ^ k)"
proof -
  note inv = inbox_invD [OF assms(1)]
  have sh: "1 \<le> k" "freed s \<le> tail_pos s" "tail_pos s \<le> freed s + 2 ^ k" "tail_pos s + 2 ^ k < 2 ^ 63"
    using inv(1) by (simp_all add: ring_shape_def)
  obtain p where p: "freed s \<le> p" "p < freed s + 2 ^ k" "p mod 2 ^ k = unat t mod 2 ^ k"
    by (rule window_position [of "2 ^ k" "freed s" "unat t"]) simp
  define n where "n = (if p < tail_pos s \<and> \<not> held s p then p + 1 else p)"
  have "cell k (mem s) (unat t) = cell k (mem s) p" using p(3) by (simp add: cell_def)
  then have sl: "index_get (cells (mem s)) (unat (t AND ring_mask (mem s))) = Some (cell k (mem s) p)"
    using index_cell [OF inv(1), of t "unat t"] assms(2) inv(9) by simp
  have n: "n < 2 ^ 63" "unat t < 2 ^ 63" using p(2) sh(2-4) assms(2) by (simp_all add: n_def)
  have "t = of_nat (unat t)" by simp
  then have d: "sint (seq (cell k (mem s) p) - t) = int n - int (unat t)"
    using signed_diff [OF n] slot_seq [OF assms(1) p(1,2)] unfolding n_def by metis
  have two: "2 \<le> (2 :: nat) ^ k" using sh(1) power_increasing [of 1 k "2 :: nat"] by simp
  have room: "tail_pos s < freed s + 2 ^ k" if "n = unat t" "unat t = tail_pos s"
  proof (rule ccontr)
    assume "\<not> ?thesis"
    then have T: "tail_pos s = freed s + 2 ^ k" using sh(3) by simp
    then have "p mod 2 ^ k = freed s mod 2 ^ k" using p(3) that(2) by simp
    then have "p = freed s" using same_slot [OF p(1,2), of "freed s"] by simp
    with that T two show False by (auto simp: n_def split: if_splits)
  qed
  have full: "tail_pos s = freed s + 2 ^ k" if "n < unat t"
  proof -
    have lt: "p < unat t" using that by (simp add: n_def split: if_splits)
    moreover have "unat t - p = (unat t - p) div 2 ^ k * 2 ^ k" using p(3) lt by (metis div_mult_mod_eq mod_eq_dvd_iff_nat dvd_imp_mod_0 less_imp_le_nat add.right_neutral)
    ultimately have "2 ^ k \<le> unat t - p" by (cases "(unat t - p) div 2 ^ k") auto
    with lt p(1) sh(3) assms(2) show ?thesis by simp
  qed
  show ?thesis
  proof (intro exI conjI impI)
    show "index_get (cells (mem s)) (unat (t AND ring_mask (mem s))) = Some (cell k (mem s) p)" by (rule sl)
    show "producer_ok k s (P_Exchange v t)" if "sint (seq (cell k (mem s) p) - t) = 0"
    proof -
      have "n = unat t" using that d by linarith
      with room assms(2) show ?thesis by simp
    qed
    show "tail_pos s = freed s + 2 ^ k" if "sint (seq (cell k (mem s) p) - t) < 0"
      by (rule full) (use that d in linarith)
  qed
qed

text \<open>What the drain task learns: whether the element at the head is published.\<close>

lemma consumer_sees:
  assumes "inbox_inv poll k s" "\<not> storing_head (consumer s)" "h = head (mem s)"
  shows "\<exists>sl. index_get (cells (mem s)) (unat (h AND ring_mask (mem s))) = Some sl \<and>
    (sint (seq sl - (h + 1)) = 0 \<longleftrightarrow> unat h < tail_pos s \<and> \<not> held s (unat h))"
proof -
  note inv = inbox_invD [OF assms(1)]
  have f: "freed s = unat h" using assms(2,3) by (simp add: freed_def)
  have lt: "unat h < 2 ^ 63" using inv(8,9) assms(3) by simp
  then have sl: "index_get (cells (mem s)) (unat (h AND ring_mask (mem s))) = Some (cell k (mem s) (unat h))"
    using index_cell [OF inv(1), of h "unat h"] by simp
  have "seq (cell k (mem s) (unat h)) = of_nat (if unat h < tail_pos s \<and> \<not> held s (unat h) then unat h + 1 else unat h)"
    using slot_seq [OF assms(1), of "unat h"] f by simp
  then have "sint (seq (cell k (mem s) (unat h)) - (h + 1)) = 0 \<longleftrightarrow> unat h < tail_pos s \<and> \<not> held s (unat h)"
    by (simp add: add.commute)
  with sl show ?thesis by blast
qed

lemma same_efd: "s\<lparr>producers := pcs, efd := efd s\<rparr> = s\<lparr>producers := pcs\<rparr>"
  by (cases s) simp

lemmas producer_stays = producer_moves [where e = "efd s" and s = s for s, unfolded same_efd]

lemma exec_producer_inv:
  assumes "inbox_inv poll k s" "Suc (tail_pos s) + 2 ^ k < 2 ^ 63" "\<forall>e. poll (wake e) \<noteq> None"
  shows "\<exists>s'. exec wake poll False (Producer i spurious) s = Some s' \<and> inbox_inv poll k s' \<and> tail_pos s' \<le> Suc (tail_pos s)"
proof -
  note inv = inbox_invD [OF assms(1)]
  note ex = exec_producer [OF inv(7) [unfolded queues_empty_def, THEN conjunct1, rule_format], of wake poll i spurious]
  have ok: "producer_ok k s (producers s i)" using inv(4) by (simp add: producers_ok_def)
  have sh: "ring_mask (mem s) = mask k" "tail (mem s) = of_nat (tail_pos s)" using inv(1) by (simp_all add: ring_shape_def)
  note stays = producer_stays [OF assms(1), of i]
  show ?thesis
  proof (cases "producers s i")
    case (P_LoadTail v)
    then show ?thesis using ex stays [of "P_LoadSeq v (tail (mem s))"] inv(10) sh(2) by (simp add: waking_def)
  next
    case (P_LoadSeq v t)
    then have "unat t \<le> tail_pos s" using ok by simp
    from producer_sees [OF assms(1) this, of v] obtain sl where
      sl: "index_get (cells (mem s)) (unat (t AND ring_mask (mem s))) = Some sl"
        "sint (seq sl - t) = 0 \<longrightarrow> producer_ok k s (P_Exchange v t)" by blast
    let ?pc = "if sint (seq sl - t) = 0 then P_Exchange v t else if sint (seq sl - t) < 0 then P_Full v else P_LoadTail v"
    have "holds ?pc = None" by simp
    moreover have "producer_ok k s ?pc" using sl(2) by (simp del: producer_ok.simps(2))
    ultimately have "inbox_inv poll k (s\<lparr>producers := (producers s)(i := ?pc)\<rparr>)"
      using stays [of ?pc] P_LoadSeq by (simp add: waking_def)
    with ex P_LoadSeq sl(1) show ?thesis by (simp add: Let_def)
  next
    case (P_Exchange v t)
    show ?thesis
    proof (cases "tail (mem s) = t \<and> \<not> spurious")
      case True
      then show ?thesis using ex producer_claims [OF assms(1) P_Exchange _ assms(2)] P_Exchange by simp
    next
      case False
      then show ?thesis using ex stays [of "P_LoadSeq v (tail (mem s))"] inv(10) sh(2) P_Exchange by (auto simp: waking_def)
    qed
  next
    case (P_Write v t)
    then have "index_get (cells (mem s)) (unat (t AND ring_mask (mem s))) = Some \<lparr>seq = t, val = None\<rparr>"
      "unat (t AND ring_mask (mem s)) = unat t mod 2 ^ k"
      using ok index_cell [OF inv(1), of t "unat t"] inv(9) by simp_all
    then show ?thesis using ex P_Write producer_writes [OF assms(1) P_Write] by simp
  next
    case (P_Publish t)
    then have "index_get (cells (mem s)) (unat (t AND ring_mask (mem s))) = Some (cell k (mem s) (unat t))"
      "unat (t AND ring_mask (mem s)) = unat t mod 2 ^ k"
      using ok index_cell [OF inv(1), of t "unat t"] inv(9) by simp_all
    then show ?thesis using ex P_Publish producer_publishes [OF assms(1) P_Publish] by simp
  next
    case (P_LoadHead t)
    then show ?thesis using ex stays [of "if head (mem s) = t then P_Wake else P_Idle"] by (auto simp: waking_def)
  next
    case P_Wake
    then show ?thesis using ex producer_moves [OF assms(1), of i P_Idle "wake (efd s)"] assms(3) by simp
  qed (use ex assms(1) in simp_all)
qed

lemma exec_consumer_inv:
  fixes s :: "('a, 'w) inbox_sys"
  assumes "inbox_inv poll k s"
  shows "\<exists>s'. exec wake poll False Consumer s = Some s' \<and> inbox_inv poll k s' \<and> tail_pos s' = tail_pos s"
proof -
  note inv = inbox_invD [OF assms(1)]
  note ex = exec_consumer [OF inv(7) [unfolded queues_empty_def, THEN conjunct2], of wake poll]
  have at: "consumer_at s (consumer s)" using inv(5) by (simp add: consumer_ok_def)
  have "ring_mask (mem s) = mask k" "k \<le> 62" using inv(1) by (simp_all add: ring_shape_def)
  then have m: "ring_mask (mem s) + 1 = of_nat (2 ^ k)" by (simp add: mask_eq_exp_minus_1)
  have idx: "unat (h AND ring_mask (mem s)) = unat h mod 2 ^ k" "index_get (cells (mem s)) (unat h mod 2 ^ k) = Some (cell k (mem s) (unat h))"
    if "h = head (mem s)" for h using index_cell [OF inv(1), of h "unat h"] inv(8,9) that by simp_all
  show ?thesis
  proof (cases "consumer s")
    case C_Wait
    have "s\<lparr>consumer := C_LoadHead, efd := e, dispatched := dispatched s\<rparr> = s\<lparr>consumer := C_LoadHead, efd := e\<rparr>" for e by (cases s) simp
    then have "inbox_inv poll k (s\<lparr>consumer := C_LoadHead, efd := e\<rparr>)" for e
      using consumer_moves [OF assms, of C_LoadHead "dispatched s" e] C_Wait by simp
    then show ?thesis using ex C_Wait assms by (auto split: option.splits)
  next
    case C_LoadHead
    have "s\<lparr>consumer := pc, efd := efd s, dispatched := dispatched s\<rparr> = s\<lparr>consumer := pc\<rparr>" for pc by (cases s) simp
    then show ?thesis using ex C_LoadHead consumer_moves [OF assms, of "C_LoadSeq (head (mem s))" "dispatched s" "efd s"] by simp
  next
    case (C_LoadSeq h)
    then have h: "h = head (mem s)" using at by simp
    from consumer_sees [OF assms _ h] C_LoadSeq obtain sl where
      sl: "index_get (cells (mem s)) (unat (h AND ring_mask (mem s))) = Some sl"
        "sint (seq sl - (h + 1)) = 0 \<longleftrightarrow> unat h < tail_pos s \<and> \<not> held s (unat h)" by auto
    define pc where "pc = (if sint (seq sl - (h + 1)) = 0 then C_Take h else C_Wait :: 'a consumer_pc)"
    have pc: "pc = C_Take h \<and> unat h < tail_pos s \<and> \<not> held s (unat h) \<or>
      pc = C_Wait \<and> (head_pos s < tail_pos s \<longrightarrow> held s (head_pos s))" unfolding pc_def sl(2) using h by auto
    have "s\<lparr>consumer := pc, efd := efd s, dispatched := dispatched s\<rparr> = s\<lparr>consumer := pc\<rparr>" by (cases s) simp
    with consumer_moves [OF assms, of pc "dispatched s" "efd s"] pc C_LoadSeq h
    have "inbox_inv poll k (s\<lparr>consumer := pc\<rparr>)" by auto
    with ex C_LoadSeq sl(1) show ?thesis unfolding pc_def by simp
  next
    case (C_Take h)
    then have h: "h = head (mem s)" using at by simp
    then show ?thesis using ex C_Take consumer_takes [OF assms C_Take] idx [OF h] by simp
  next
    case (C_StoreSeq h v)
    then have h: "h = head (mem s)" using at by simp
    then show ?thesis using ex C_StoreSeq consumer_frees [OF assms C_StoreSeq] idx [OF h] m by simp
  next
    case (C_StoreHead h v)
    then show ?thesis using ex consumer_advances [OF assms C_StoreHead] by simp
  next
    case (C_Dispatch v)
    have "s\<lparr>consumer := pc, efd := efd s, dispatched := d\<rparr> = s\<lparr>consumer := pc, dispatched := d\<rparr>" for pc d by (cases s) simp
    then show ?thesis using ex C_Dispatch consumer_moves [OF assms, of C_LoadHead "dispatched s @ [v]" "efd s"] by simp
  qed
qed

lemma exec_inv:
  assumes "inbox_inv poll k s" "Suc (tail_pos s) + 2 ^ k < 2 ^ 63" "\<forall>e. poll (wake e) \<noteq> None"
  shows "\<exists>s'. exec wake poll False c s = Some s' \<and> inbox_inv poll k s' \<and> tail_pos s' \<le> Suc (tail_pos s)"
proof (cases c)
  case (Begin i v)
  have "inbox_inv poll k (s\<lparr>producers := (producers s)(i := P_LoadTail v)\<rparr>)" if "producer_access (ring_mask (mem s)) (producers s i) = None"
    using producer_stays [OF assms(1), of i "P_LoadTail v"] that by (cases "producers s i") (simp_all add: waking_def)
  then show ?thesis using Begin assms(1) by (simp add: exec_begin del: exec.simps)
next
  case (Producer i spurious)
  then show ?thesis using exec_producer_inv [OF assms, of i spurious] by simp
next
  case Consumer
  from exec_consumer_inv [OF assms(1), of wake] obtain s' where
    "exec wake poll False Consumer s = Some s'" "inbox_inv poll k s'" "tail_pos s' = tail_pos s" by blast
  then show ?thesis using Consumer by (auto simp del: exec.simps)
qed (use inbox_invD(7) [OF assms(1)] assms(1) in \<open>auto simp: queues_empty_def\<close>)

lemma run_inv:
  assumes "inbox_inv poll k s" "tail_pos s + length cs + 2 ^ k < 2 ^ 63" "\<forall>e. poll (wake e) \<noteq> None"
  shows "\<exists>s'. run wake poll False cs s = Some s' \<and> inbox_inv poll k s'"
  using assms(1,2)
proof (induction cs arbitrary: s)
  case (Cons c cs)
  have "Suc (tail_pos s) + 2 ^ k < 2 ^ 63" using Cons.prems(2) by simp
  from exec_inv [OF Cons.prems(1) this assms(3), of c] obtain s' where
    s': "exec wake poll False c s = Some s'" "inbox_inv poll k s'" "tail_pos s' \<le> Suc (tail_pos s)" by blast
  then have "tail_pos s' + length cs + 2 ^ k < 2 ^ 63" using Cons.prems(2) by simp
  from Cons.IH [OF s'(2) this] show ?case using s'(1) by (simp del: exec.simps)
qed simp

lemma run_append: "run wake poll tso (xs @ ys) s = Option.bind (run wake poll tso xs s) (run wake poll tso ys)"
proof (induction xs arbitrary: s)
  case (Cons c xs)
  then show ?case by (cases "exec wake poll tso c s") (simp_all del: exec.simps)
qed simp

lemma start_inv:
  assumes "ring_at k ib []" "head ib = 0" "k \<le> 62"
  shows "inbox_inv poll k (inbox_start ib e)"
proof -
  have r: "1 \<le> k" "length (cells ib) = 2 ^ k" "ring_mask ib = mask k" "tail ib = 0"
    "\<And>j. j < 2 ^ k \<Longrightarrow> cells ib ! (j mod 2 ^ k) = \<lparr>seq = of_nat j, val = None\<rparr>"
    using assms by (auto simp: ring_at_def slot_for_def)
  have "(2 :: nat) ^ k < 2 ^ 63" using power_strict_increasing [of k 63 "2 :: nat"] assms(3) by simp
  then show ?thesis using r assms
    by (simp add: inv_defs ring_shape_def freed_def inbox_start_def cell_def held_def)
qed

section \<open>Threads that are not interrupted\<close>

text \<open>The accesses of a thread that runs alone compose to \<open>push\<close> and \<open>pop\<close>.\<close>

lemma push_slot:
  assumes "ring_at k ib q"
  shows "\<exists>sl. index_get (cells ib) (unat (tail ib AND ring_mask ib)) = Some sl \<and>
    (if length q = 2 ^ k then sint (seq sl - tail ib) < 0 else sl = \<lparr>seq = tail ib, val = None\<rparr>)"
proof (cases "length q = 2 ^ k")
  case True
  have r: "1 \<le> k" "k \<le> 62" "tail ib = head ib + of_nat (2 ^ k)" "ring_mask ib = mask k"
    using assms True by (simp_all add: ring_at_def)
  have "unat (tail ib AND ring_mask ib) = unat (head ib AND ring_mask ib)"
    using mask_index_add [of k "head ib" "2 ^ k"] mask_index [of k "head ib"] r by simp
  then show ?thesis using ring_slot [OF assms, of 0] diff_full [OF r(1,2), of "head ib"] True r(3)
    by (auto simp: slot_for_def split: if_splits)
next
  case False
  then have "length q < 2 ^ k" "tail ib = head ib + of_nat (length q)" using assms by (simp_all add: ring_at_def)
  then show ?thesis using ring_slot [OF assms, of "length q"] by (simp add: slot_for_def)
qed

lemma push_uninterrupted:
  assumes "ring_invar (mem s)" "pqueues s i = []" "producers s i = P_LoadTail v" "push [] (mem s) v = Some (r, ib)"
  shows "run wake poll False (replicate (case r of Inr b \<Rightarrow> 6 | Inl w \<Rightarrow> 2) (Producer i False)) s =
    Some (case r of
        Inr was_empty \<Rightarrow> s\<lparr>mem := ib, producers := (producers s)(i := if was_empty then P_Wake else P_Idle), claimed := claimed s @ [v]\<rparr>
      | Inl w \<Rightarrow> s\<lparr>mem := ib, producers := (producers s)(i := P_Full w)\<rparr>)"
proof -
  from assms(1) obtain k q where "ring_at k (mem s) q" by (auto simp: ring_invar_iff)
  from push_slot [OF this] obtain sl where
    sl: "index_get (cells (mem s)) (unat (tail (mem s) AND ring_mask (mem s))) = Some sl"
      "sint (seq sl - tail (mem s)) < 0 \<or> sl = \<lparr>seq = tail (mem s), val = None\<rparr>" by (auto split: if_splits)
  have same: "s\<lparr>mem := mem s, producers := pcs\<rparr> = s\<lparr>producers := pcs\<rparr>" for pcs by (cases s) simp
  have len: "unat (tail (mem s) AND ring_mask (mem s)) < length (cells (mem s))"
    using sl(1) by (simp add: index_get_def split: if_splits)
  from sl(2) show ?thesis
  proof
    assume neg: "sint (seq sl - tail (mem s)) < 0"
    then have "r = Inl v" "ib = mem s" using assms(4) sl(1) by (simp_all add: push_def push_loop.simps)
    then show ?thesis using assms(2,3) sl(1) neg
      by (simp add: exec_producer numeral_eq_Suc same Let_def del: exec.simps)
  next
    assume free: "sl = \<lparr>seq = tail (mem s), val = None\<rparr>"
    let ?i = "unat (tail (mem s) AND ring_mask (mem s))" and ?t = "tail (mem s)"
    have r: "r = Inr (head (mem s) = ?t)" "ib = (mem s)\<lparr>tail := ?t + 1, cells := (cells (mem s))[?i := \<lparr>seq = ?t + 1, val = Some v\<rparr>]\<rparr>"
      using assms(4) sl(1) len unfolding push_def by (subst (asm) push_loop.simps, simp add: free Let_def)+
    have "index_get (cells (mem s)) ?i = Some sl" by (rule sl(1))
    then show ?thesis using assms(2,3) len r
      by (simp add: exec_producer numeral_eq_Suc free Let_def index_get_def del: exec.simps)
  qed
qed

lemma pop_uninterrupted:
  fixes s :: "('a, 'w) inbox_sys"
  assumes "cqueue s = []" "consumer s = C_LoadHead" "pop (mem s) = Some (r, ib)"
  shows "run wake poll False (replicate (case r of Some v \<Rightarrow> 5 | None \<Rightarrow> 2) Consumer) s =
    Some (s\<lparr>mem := ib, consumer := (case r of Some v \<Rightarrow> C_Dispatch v | None \<Rightarrow> C_Wait)\<rparr>)"
proof -
  have same: "s\<lparr>mem := mem s, consumer := pc\<rparr> = s\<lparr>consumer := pc\<rparr>" for pc by (cases s) simp
  have slot: "sl\<lparr>val := None, seq := w\<rparr> = \<lparr>seq = w, val = None\<rparr>" for sl :: "'a slot" and w by (cases sl) simp
  show ?thesis using assms
    by (auto simp: pop_def exec_consumer numeral_eq_Suc Let_def bind_eq_Some_conv index_get_def same slot simp del: exec.simps split: if_splits)
qed

section \<open>A schedule with store queues\<close>

text \<open>
  One producer and the drain task.  The second push is published while the drain task's store
  of the head is still queued, and the drain task checks the slot while the publication is
  still queued.
\<close>

abbreviation push_accesses :: "nat choice list" where
  "push_accesses \<equiv> replicate 6 (Producer 0 False)"

definition lost_schedule :: "nat choice list" where
  "lost_schedule =
     [Begin 0 1] @ push_accesses @ [FlushProducer 0, FlushProducer 0, Producer 0 False] @
     replicate 9 Consumer @
     [Begin 0 2] @ push_accesses @ [FlushProducer 0, FlushProducer 0, FlushConsumer, FlushConsumer] @
     [Begin 0 3] @ push_accesses @ [FlushProducer 0, FlushProducer 0]"

definition counter_poll :: "nat \<Rightarrow> nat option" where
  "counter_poll n = (if n = 0 then None else Some 0)"

text \<open>The ring is full, the drain task waits, and whoever pushes is told that the ring is full.\<close>

definition stalled :: "(nat, nat) inbox_sys \<Rightarrow> bool" where
  "stalled s \<longleftrightarrow> mem s = \<lparr>ring_mask = 1, cells = [\<lparr>seq = 3, val = Some 3\<rparr>, \<lparr>seq = 2, val = Some 2\<rparr>], tail = 3, head = 1\<rparr> \<and>
     consumer s = C_Wait \<and> efd s = 0 \<and> cqueue s = [] \<and> (\<forall>i. pqueues s i = []) \<and>
     (\<forall>i. producers s i = P_Idle \<or> (\<exists>v. producers s i \<in> {P_Full v, P_LoadTail v, P_LoadSeq v 3})) \<and>
     claimed s = [1, 2, 3] \<and> dispatched s = [1]"

lemma lost_run:
  "\<exists>s. run Suc counter_poll True lost_schedule
     (inbox_start \<lparr>ring_mask = 1, cells = [\<lparr>seq = 0, val = None\<rparr>, \<lparr>seq = 1, val = None\<rparr>], tail = 0, head = 0\<rparr> 0) = Some s \<and> stalled s"
  by (simp add: lost_schedule_def inbox_start_def counter_poll_def index_get_def Let_def numeral_eq_Suc stalled_def)

lemma stalled_kept: "stalled s \<Longrightarrow> \<exists>s'. exec Suc counter_poll True c s = Some s' \<and> stalled s'"
proof -
  assume s: "stalled s"
  have seq: "sint ((2 :: u64) - 3) < 0" by simp
  have moved: "stalled (s\<lparr>producers := (producers s)(i := pc)\<rparr>)" if "pc \<in> {P_Full v, P_LoadTail v, P_LoadSeq v 3}" for i pc v
    using s that by (auto simp: stalled_def)
  have q: "(pqueues s)(i := []) = pqueues s" for i using s by (auto simp: stalled_def fun_eq_iff)
  show ?thesis
  proof (cases c)
    case (Begin i v)
    then show ?thesis using s moved [of "P_LoadTail v" v i] by (auto split: option.split)
  next
    case (Producer i spurious)
    from s consider "producers s i = P_Idle" | v where "producers s i = P_Full v" | v where "producers s i = P_LoadTail v"
      | v where "producers s i = P_LoadSeq v 3" unfolding stalled_def by blast
    then show ?thesis
    proof cases
      case (3 v)
      have "s\<lparr>mem := mem s, producers := pcs, pqueues := pqueues s, efd := efd s, claimed := claimed s\<rparr> = s\<lparr>producers := pcs\<rparr>" for pcs
        by (cases s) simp
      then show ?thesis using Producer 3 s moved [of "P_LoadSeq v 3" v i] q by (simp add: stalled_def)
    next
      case (4 v)
      have "s\<lparr>mem := mem s, producers := pcs, pqueues := pqueues s, efd := efd s, claimed := claimed s\<rparr> = s\<lparr>producers := pcs\<rparr>" for pcs
        by (cases s) simp
      then show ?thesis using Producer 4 s moved [of "P_Full v" v i] q seq by (simp add: stalled_def index_get_def)
    qed (use Producer s in simp_all)
  qed (use s in \<open>simp_all add: stalled_def counter_poll_def\<close>)
qed

lemma stalled_run: "stalled s \<Longrightarrow> \<exists>s'. run Suc counter_poll True cs s = Some s' \<and> stalled s'"
proof (induction cs arbitrary: s)
  case (Cons c cs)
  from stalled_kept [OF Cons.prems, of c] obtain s' where "exec Suc counter_poll True c s = Some s'" "stalled s'" by blast
  with Cons.IH [of s'] show ?case by (simp del: exec.simps)
qed simp

section \<open>Properties\<close>

text \<open>C10. The inbox between threads, with sequentially consistent memory: however any number of producers
  and the drain task interleave, one memory access at a time and with spurious failures of the
  exchange, nothing panics or reads an uninitialised slot; the elements are dispatched in the
  order in which they were claimed, none lost and none twice; and no wake-up is lost: when
  the drain task waits without a wake-up pending and no push is under way, all have been
  dispatched.  The eventfd is assumed to be readable after a wake-up.\<close>

theorem inbox_threads_safe:
  fixes cs :: "'a choice list" and poll :: "'w \<Rightarrow> 'w option"
  assumes "n \<le> 2 ^ 62" "length cs < 2 ^ 62" "\<forall>e. poll (wake e) \<noteq> None"
  shows "\<exists>ib s. with_capacity n = Some ib \<and> run wake poll False cs (inbox_start ib e) = Some s \<and>
    dispatched s = take (length (dispatched s)) (claimed s) \<and>
    (consumer s = C_Wait \<and> poll (efd s) = None \<and> (\<forall>i. producer_access (ring_mask (mem s)) (producers s i) = None) \<longrightarrow>
      dispatched s = claimed s)"
proof -
  obtain k and ib :: "'a shard_inbox" where ib: "with_capacity n = Some ib" "ring_at k ib []"
    using with_capacity_ring [OF assms(1), where 'a = 'a] by blast
  have "head ib = 0" using ib(1) by (auto simp: with_capacity_def bind_eq_Some_conv)
  moreover have k: "k \<le> 62" using ib(2) by (simp add: ring_at_def)
  ultimately have start: "inbox_inv poll k (inbox_start ib e)" using ib(2) by (intro start_inv)
  have "tail_pos (inbox_start ib e) + length cs + 2 ^ k < 2 ^ 63"
    using assms(2) power_62 [OF k] by (simp add: inbox_start_def)
  from run_inv [OF start this assms(3)] obtain s where
    s: "run wake poll False cs (inbox_start ib e) = Some s" "inbox_inv poll k s" by blast
  note inv = inbox_invD [OF s(2)]
  have "dispatched s = take (length (dispatched s)) (claimed s)"
    using inv(5) unfolding consumer_ok_def by (metis append_eq_conv_conj take_take append_take_drop_id)
  moreover have "dispatched s = claimed s"
    if "consumer s = C_Wait" "poll (efd s) = None" "\<forall>i. producer_access (ring_mask (mem s)) (producers s i) = None"
  proof -
    have "holds (producers s i) = None \<and> \<not> waking (head (mem s)) (producers s i)" for i
      using that(3) [rule_format, of i] by (cases "producers s i") (simp_all add: waking_def)
    then have "\<not> head_pos s < tail_pos s" using inv(6) that(1,2) by (auto simp: wake_ok_def held_def)
    then show ?thesis using inv(5,8) that(1) by (simp add: consumer_ok_def)
  qed
  ultimately show ?thesis using ib(1) s(1) by (intro exI [of _ ib] exI [of _ s]) simp
qed

theorem inbox_threads_safe_witness:
  "\<exists>ib s. with_capacity 4096 = Some ib \<and>
    run Suc counter_poll False [Begin 0 ''a'', Begin 1 ''b'', Producer 0 False, Producer 1 True, Consumer] (inbox_start ib 0) = Some s \<and>
    dispatched s = take (length (dispatched s)) (claimed s)"
proof -
  have "\<forall>e. counter_poll (Suc e) \<noteq> None" by (simp add: counter_poll_def)
  from inbox_threads_safe [where poll = counter_poll and wake = Suc and n = 4096 and e = 0 and
      cs = "[Begin 0 ''a'', Begin 1 ''b'', Producer 0 False, Producer 1 True, Consumer]", OF _ _ this]
  show ?thesis by auto
qed

text \<open>C11. With store queues, which the Release stores and Acquire loads of the code allow, a wake-up can be
  lost for good: there is a schedule after which the ring of the least capacity is full of
  undispatched elements, and however it goes on, the drain task waits for ever and nothing
  more is dispatched.\<close>

theorem store_queues_lose_wakeup:
  "\<exists>ib sched. with_capacity 2 = Some ib \<and>
    (\<forall>cs. \<exists>s. run Suc counter_poll True (sched @ cs) (inbox_start ib 0) = Some s \<and>
      consumer s = C_Wait \<and> counter_poll (efd s) = None \<and> claimed s = [1, 2, 3] \<and> dispatched s = [1 :: nat])"
proof -
  let ?ib = "\<lparr>ring_mask = 1, cells = [\<lparr>seq = 0, val = None\<rparr>, \<lparr>seq = 1, val = None\<rparr>], tail = 0, head = 0\<rparr> :: nat shard_inbox"
  have ib: "with_capacity 2 = Some ?ib"
    by (simp add: with_capacity_def next_power_of_two_def next_power_from.simps usize_max_numeral upt_rec)
  obtain s where s: "run Suc counter_poll True lost_schedule (inbox_start ?ib 0) = Some s" "stalled s"
    using lost_run by blast
  have "\<exists>s'. run Suc counter_poll True (lost_schedule @ cs) (inbox_start ?ib 0) = Some s' \<and> stalled s'" for cs
    using stalled_run [OF s(2), of cs] s(1) by (simp add: run_append)
  moreover have "stalled s' \<Longrightarrow> consumer s' = C_Wait \<and> counter_poll (efd s') = None \<and> claimed s' = [1, 2, 3] \<and> dispatched s' = [1]" for s'
    by (simp add: stalled_def counter_poll_def)
  ultimately show ?thesis using ib by (intro exI [of _ ?ib] exI [of _ lost_schedule] conjI allI) blast+
qed

end
