(* ===== verification/Bench.thy ===== *)
theory Bench
  imports Codec
begin

text \<open>
  The two benchmark clients: \<open>aulon-bench/src/fanout.rs\<close>, a publisher and its subscribers, and
  \<open>aulon-bench/src/main.rs\<close>, a ping-pong client.  The environment, the parser of socket addresses,
  the clock, the histogram and what a read of the socket returns are arguments; an error or a panic is
  a value.  Printing is not modelled, and connecting is part of the main functions.

  The lemmas show that the clients speak the server's protocol: what they send is parsed by the server
  as intended, and a subscriber finds in the server's messages the timestamps the publisher
  put there, however the bytes are cut into reads.
\<close>

section \<open>Configuration\<close>

text \<open>\<open>str::parse::<u64>\<close>: an optional plus sign, then digits whose value fits.\<close>

definition parse_u64_str :: "bytes \<Rightarrow> u64 option" where
  "parse_u64_str s =
     (let digits = (case s of b # bs \<Rightarrow> if b = CHR ''+'' then bs else s | [] \<Rightarrow> s)
      in if digits \<noteq> [] \<and> (\<forall>b\<in>set digits. is_ascii_digit b) \<and> digits_value 0 digits \<le> usize_max
         then Some (of_nat (digits_value 0 digits)) else None)"

datatype config_error = BadValue bytes | TooSmall bytes

definition parse_env_u64 :: "(bytes \<Rightarrow> bytes option) \<Rightarrow> bytes \<Rightarrow> u64 \<Rightarrow> config_error + u64" where
  "parse_env_u64 env key dflt =
     (case env key of
        Some s \<Rightarrow> (case parse_u64_str s of Some v \<Rightarrow> Inr v | None \<Rightarrow> Inl (BadValue key))
      | None \<Rightarrow> Inr dflt)"

record 'a fanout_config =
  fc_addr :: 'a
  fc_fanout :: nat
  fc_payload_bytes :: nat
  fc_iterations :: u64
  fc_warmup :: u64
  fc_pace_window :: u64

definition parse_addr_env :: "(bytes \<Rightarrow> 'a option) \<Rightarrow> (bytes \<Rightarrow> bytes option) \<Rightarrow> config_error + 'a" where
  "parse_addr_env parse_addr env =
     (let s = (case env ''AULON_ADDR'' of Some s \<Rightarrow> s | None \<Rightarrow> ''127.0.0.1:4222'')
      in case parse_addr s of Some a \<Rightarrow> Inr a | None \<Rightarrow> Inl (BadValue ''AULON_ADDR''))"

definition fanout_from_env ::
  "(bytes \<Rightarrow> 'a option) \<Rightarrow> (bytes \<Rightarrow> bytes option) \<Rightarrow> config_error + 'a fanout_config" where
  "fanout_from_env parse_addr env =
     result_bind (parse_addr_env parse_addr env) (\<lambda>a.
     result_bind (parse_env_u64 env ''AULON_FANOUT'' 8) (\<lambda>fanout.
     if fanout = 0 then Inl (TooSmall ''AULON_FANOUT'') else
     result_bind (parse_env_u64 env ''AULON_PAYLOAD_BYTES'' 256) (\<lambda>payload.
     if payload < 8 then Inl (TooSmall ''AULON_PAYLOAD_BYTES'') else
     result_bind (parse_env_u64 env ''AULON_ITERATIONS'' 50000) (\<lambda>iterations.
     result_bind (parse_env_u64 env ''AULON_WARMUP'' 1000) (\<lambda>warmup.
     result_bind (parse_env_u64 env ''AULON_PACE_WINDOW'' 2) (\<lambda>pace.
     Inr \<lparr>fc_addr = a, fc_fanout = unat fanout, fc_payload_bytes = unat payload, fc_iterations = iterations,
          fc_warmup = warmup, fc_pace_window = pace\<rparr>))))))"

record 'a ping_config =
  pc_addr :: 'a
  pc_payload_bytes :: nat
  pc_iterations :: u64
  pc_warmup :: u64

definition ping_from_env ::
  "(bytes \<Rightarrow> 'a option) \<Rightarrow> (bytes \<Rightarrow> bytes option) \<Rightarrow> config_error + 'a ping_config" where
  "ping_from_env parse_addr env =
     result_bind (parse_addr_env parse_addr env) (\<lambda>a.
     result_bind (parse_env_u64 env ''AULON_PAYLOAD_BYTES'' 256) (\<lambda>payload.
     result_bind (parse_env_u64 env ''AULON_ITERATIONS'' 100000) (\<lambda>iterations.
     result_bind (parse_env_u64 env ''AULON_WARMUP'' 1000) (\<lambda>warmup.
     Inr \<lparr>pc_addr = a, pc_payload_bytes = unat payload, pc_iterations = iterations, pc_warmup = warmup\<rparr>))))"

section \<open>What the clients send\<close>

definition SUBJECT :: bytes where
  "SUBJECT = ''foo''"

definition SID :: bytes where
  "SID = ''1''"

definition build_connect_sub :: bytes where
  "build_connect_sub = ''CONNECT {}'' @ CRLF @ ''SUB '' @ SUBJECT @ '' '' @ SID @ CRLF"

text \<open>\<open>u64::to_be_bytes\<close> and \<open>u64::from_be_bytes\<close>.\<close>

definition to_be_bytes :: "u64 \<Rightarrow> bytes" where
  "to_be_bytes w = rev (map (\<lambda>i. char_of (unat w div 256 ^ i)) [0..<8])"

definition from_be_bytes :: "bytes \<Rightarrow> u64" where
  "from_be_bytes bs = of_nat (horner_sum of_char 256 (rev bs))"

text \<open>\<open>Vec::resize\<close>.\<close>

definition vec_resize :: "'a list \<Rightarrow> nat \<Rightarrow> 'a \<Rightarrow> 'a list" where
  "vec_resize xs n v = take n xs @ replicate (n - length xs) v"

text \<open>The frame of one publish, with the timestamp as the first bytes of its payload.\<close>

definition publisher_frame :: "nat \<Rightarrow> u64 \<Rightarrow> bytes" where
  "publisher_frame payload_bytes ts =
     (let header = ''PUB '' @ SUBJECT @ '' '' @ decimal payload_bytes @ CRLF
      in vec_resize (header @ to_be_bytes ts) (length header + payload_bytes) (CHR ''a'') @ CRLF)"

section \<open>The subscriber\<close>

function bench_crlf_from :: "bytes \<Rightarrow> nat \<Rightarrow> nat option" where
  "bench_crlf_from b i =
     (if i + 1 < length b
      then if b ! i = CHR 0x0D \<and> b ! (i + 1) = CHR 0x0A then Some i else bench_crlf_from b (i + 1)
      else None)"
  by pat_completeness auto
termination
  by (relation "measure (\<lambda>(b, i). length b - i)") auto

declare bench_crlf_from.simps [simp del]

definition bench_find_crlf :: "bytes \<Rightarrow> nat option" where
  "bench_find_crlf b = bench_crlf_from b 0"

function try_take_msg :: "bytes \<Rightarrow> nat \<Rightarrow> ((u64 \<times> nat) option \<times> bytes) option" where
  "try_take_msg acc payload_bytes =
     (case bench_find_crlf acc of
        None \<Rightarrow> Some (None, acc)
      | Some header_end \<Rightarrow> do {
          header \<leftarrow> slice_to acc header_end;
          if take 4 header = ''MSG '' then do {
            frame_total \<leftarrow> checked_add (header_end + 2 + payload_bytes) 2;
            if length acc < frame_total then Some (None, acc)
            else do {
              ts_bytes \<leftarrow> slice_range acc (header_end + 2) (header_end + 2 + 8);
              acc' \<leftarrow> slice_from acc frame_total;
              Some (Some (from_be_bytes ts_bytes, frame_total), acc')
            }
          }
          else if take 4 header = ''PING'' then do {
            acc' \<leftarrow> slice_from acc (header_end + 2);
            try_take_msg acc' payload_bytes
          }
          else do {
            acc' \<leftarrow> slice_from acc (header_end + 2);
            try_take_msg acc' payload_bytes
          }
        })"
  by pat_completeness auto
termination
  by (relation "measure (\<lambda>(acc, n). length acc)") (auto simp: slice_from_def slice_range_def split: if_splits)

declare try_take_msg.simps [simp del]

text \<open>
  What a read returns: an error, or bytes, none at the end of the stream.  A task that has used up the
  list waits for the next read.
\<close>

datatype client_end = Finished_Ok | Write_Error | Read_Error | Unexpected_Eof | Waiting_Read | Panicked

fun drain_one_line :: "(unit + bytes) list \<Rightarrow> bytes \<Rightarrow> (client_end \<times> (unit + bytes) list \<times> bytes) option" where
  "drain_one_line reads acc =
     (case bench_find_crlf acc of
        Some end_pos \<Rightarrow> do { acc' \<leftarrow> slice_from acc (end_pos + 2); Some (Finished_Ok, reads, acc') }
      | None \<Rightarrow>
          (case reads of
             [] \<Rightarrow> Some (Waiting_Read, [], acc)
           | Inl e # rs \<Rightarrow> Some (Read_Error, rs, acc)
           | Inr bs # rs \<Rightarrow> if bs = [] then Some (Unexpected_Eof, rs, acc) else drain_one_line rs (acc @ bs)))"

declare drain_one_line.simps [simp del]

text \<open>
  The receive loop.  \<open>clock k\<close> is the elapsed time when message k is taken; \<open>fits\<close> says whether the
  histogram can record a value, which the code expects.  The recorded latencies are listed.
\<close>

function subscriber_loop ::
  "(nat \<Rightarrow> u64) \<Rightarrow> (u64 \<Rightarrow> bool) \<Rightarrow> nat \<Rightarrow> nat \<Rightarrow> (unit + bytes) list \<Rightarrow> bytes \<Rightarrow> nat \<Rightarrow> u64 list \<Rightarrow>
   client_end \<times> nat \<times> u64 list" where
  "subscriber_loop clock fits expected payload_bytes reads acc received hist =
     (if expected \<le> received then (Finished_Ok, received, hist)
      else case try_take_msg acc payload_bytes of
        None \<Rightarrow> (Panicked, received, hist)
      | Some (Some (ts, n), acc') \<Rightarrow>
          let now = clock received in
          if ts \<le> now then
            if fits (now - ts)
            then subscriber_loop clock fits expected payload_bytes reads acc' (received + 1) (hist @ [now - ts])
            else (Panicked, received, hist)
          else subscriber_loop clock fits expected payload_bytes reads acc' (received + 1) hist
      | Some (None, acc') \<Rightarrow>
          (case reads of
             [] \<Rightarrow> (Waiting_Read, received, hist)
           | Inl e # rs \<Rightarrow> (Read_Error, received, hist)
           | Inr bs # rs \<Rightarrow>
               if bs = [] then (Unexpected_Eof, received, hist)
               else subscriber_loop clock fits expected payload_bytes rs (acc' @ bs) received hist))"
  by pat_completeness auto
termination
  by (relation "measures [\<lambda>(c, f, e, p, rs, a, r, h). length rs, \<lambda>(c, f, e, p, rs, a, r, h). e - r]") auto

declare subscriber_loop.simps [simp del]

text \<open>\<open>write_sock\<close> tells whether the write of the given bytes succeeds.\<close>

definition subscriber_task ::
  "(bytes \<Rightarrow> unit + unit) \<Rightarrow> (nat \<Rightarrow> u64) \<Rightarrow> (u64 \<Rightarrow> bool) \<Rightarrow> nat \<Rightarrow> nat \<Rightarrow> (unit + bytes) list \<Rightarrow>
   client_end \<times> nat \<times> u64 list" where
  "subscriber_task write_sock clock fits expected payload_bytes reads =
     (case write_sock build_connect_sub of
        Inl e \<Rightarrow> (Write_Error, 0, [])
      | Inr u \<Rightarrow>
          (case drain_one_line reads [] of
             None \<Rightarrow> (Panicked, 0, [])
           | Some (r, reads', acc) \<Rightarrow>
               if r = Finished_Ok then subscriber_loop clock fits expected payload_bytes reads' acc 0 []
               else (r, 0, [])))"

section \<open>The publisher\<close>

text \<open>Up to its first publish.\<close>

definition publisher_open :: "(bytes \<Rightarrow> unit + unit) \<Rightarrow> (unit + bytes) list \<Rightarrow> client_end option" where
  "publisher_open write_sock reads =
     (case write_sock (''CONNECT {}'' @ CRLF) of
        Inl e \<Rightarrow> Some Write_Error
      | Inr u \<Rightarrow> do { (r, reads', acc) \<leftarrow> drain_one_line reads []; Some r })"

definition min_received :: "u64 list \<Rightarrow> u64" where
  "min_received xs = (case xs of [] \<Rightarrow> - 1 | x # xs' \<Rightarrow> fold min xs' x)"

text \<open>
  The publish loop, without its waits, which are below; \<open>write_pub k\<close> is the write of message number k.
  The result has the frames that were written.
\<close>

fun publisher_loop ::
  "(nat \<Rightarrow> bytes \<Rightarrow> unit + unit) \<Rightarrow> (nat \<Rightarrow> u64) \<Rightarrow> nat \<Rightarrow> nat \<Rightarrow> nat \<Rightarrow> client_end \<times> bytes list" where
  "publisher_loop write_pub clock payload_bytes k 0 = (Finished_Ok, [])"
| "publisher_loop write_pub clock payload_bytes k (Suc n) =
     (let fr = publisher_frame payload_bytes (clock k) in
      case write_pub k fr of
        Inl e \<Rightarrow> (Write_Error, [])
      | Inr u \<Rightarrow> let (r, frs) = publisher_loop write_pub clock payload_bytes (Suc k) n in (r, fr # frs))"

definition publisher_drive ::
  "(bytes \<Rightarrow> unit + unit) \<Rightarrow> (nat \<Rightarrow> bytes \<Rightarrow> unit + unit) \<Rightarrow> (unit + bytes) list \<Rightarrow> (nat \<Rightarrow> u64) \<Rightarrow> 'a fanout_config \<Rightarrow>
   (client_end \<times> bytes list) option" where
  "publisher_drive write_sock write_pub reads clock config = do {
     r \<leftarrow> publisher_open write_sock reads;
     if r \<noteq> Finished_Ok then Some (r, [])
     else do {
       msgs \<leftarrow> checked_add (unat (fc_warmup config)) (unat (fc_iterations config));
       Some (publisher_loop write_pub clock (fc_payload_bytes config) 0 msgs)
     }
   }"

text \<open>The condition on which the publisher leaves its wait before message \<open>sent\<close>.\<close>

definition may_send :: "u64 \<Rightarrow> u64 \<Rightarrow> u64 list \<Rightarrow> bool" where
  "may_send pace_window sent xs \<longleftrightarrow> pace_window = 0 \<or>
     \<not> (let m = min_received xs in pace_window \<le> (if m \<le> sent then sent - m else 0))"

text \<open>The publisher with its loop counter, and the counters of the subscribers, interleaved.\<close>

inductive pace_step :: "u64 \<Rightarrow> u64 \<Rightarrow> u64 \<times> u64 list \<Rightarrow> u64 \<times> u64 list \<Rightarrow> bool" for pace_window msgs where
  send: "sent < msgs \<Longrightarrow> may_send pace_window sent xs \<Longrightarrow> pace_step pace_window msgs (sent, xs) (sent + 1, xs)"
| receive: "k < length xs \<Longrightarrow> xs ! k < sent \<Longrightarrow> pace_step pace_window msgs (sent, xs) (sent, xs[k := xs ! k + 1])"

section \<open>The ping-pong client\<close>

text \<open>The read loop of one exchange, given the lengths of the reads.\<close>

fun ping_pong_read :: "nat \<Rightarrow> (unit + nat) list \<Rightarrow> nat \<Rightarrow> (client_end \<times> nat) option" where
  "ping_pong_read expected reads got =
     (if expected \<le> got then Some (Finished_Ok, got)
      else case reads of
        [] \<Rightarrow> Some (Waiting_Read, got)
      | Inl e # rs \<Rightarrow> Some (Read_Error, got)
      | Inr n # rs \<Rightarrow>
          if n = 0 then Some (Unexpected_Eof, got)
          else do { got' \<leftarrow> checked_add got n; ping_pong_read expected rs got' })"

declare ping_pong_read.simps [simp del]

definition ping_pong :: "(bytes \<Rightarrow> unit + unit) \<Rightarrow> bytes \<Rightarrow> nat \<Rightarrow> (unit + nat) list \<Rightarrow> (client_end \<times> nat) option" where
  "ping_pong write_fixed_all send_buf expected reads = do {
     sl \<leftarrow> slice_to send_buf expected;
     (case write_fixed_all sl of
        Inl e \<Rightarrow> Some (Write_Error, 0)
      | Inr u \<Rightarrow> ping_pong_read expected reads 0)
   }"

section \<open>Agreement with the server\<close>

text \<open>The client's line search is the server's.\<close>

lemma bench_crlf_from_eq: "bench_crlf_from b i = find_crlf_from b i"
  by (induction b i rule: bench_crlf_from.induct)
    (subst bench_crlf_from.simps, subst find_crlf_from.simps, simp add: CR_def LF_def)

lemma bench_find_crlf_eq: "bench_find_crlf b = find_crlf b"
  by (simp add: bench_find_crlf_def find_crlf_def bench_crlf_from_eq)

lemma horner_bytes: "horner_sum of_char 256 (map (\<lambda>i. char_of (n div 256 ^ i)) [0..<k]) = n mod (256 :: nat) ^ k"
proof (induction k arbitrary: n)
  case (Suc k)
  have "map (\<lambda>i. char_of (n div 256 ^ i)) [0..<Suc k] = char_of n # map (\<lambda>i. char_of (n div 256 div 256 ^ i)) [0..<k]"
    by (simp add: upt_conv_Cons map_Suc_upt [symmetric] div_mult2_eq del: upt_Suc)
  with Suc [of "n div 256"] show ?case by (simp add: mod_mult2_eq add.commute)
qed simp

lemma be_bytes: "from_be_bytes (to_be_bytes w) = w" "length (to_be_bytes w) = 8"
proof -
  have "unat w < 256 ^ 8" using unsigned_less [of w] by simp
  then show "from_be_bytes (to_be_bytes w) = w" unfolding from_be_bytes_def to_be_bytes_def rev_rev_ident horner_bytes by simp
  show "length (to_be_bytes w) = 8" by (simp add: to_be_bytes_def)
qed

text \<open>The payload of a publish.\<close>

definition stamped :: "nat \<Rightarrow> u64 \<Rightarrow> bytes" where
  "stamped n ts = to_be_bytes ts @ replicate (n - 8) (CHR ''a'')"

lemma stamped_facts: "8 \<le> n \<Longrightarrow> length (stamped n ts) = n" "take 8 (stamped n ts) = to_be_bytes ts"
  by (simp_all add: stamped_def be_bytes)

lemma publisher_frame_eq: "8 \<le> n \<Longrightarrow> publisher_frame n ts = encode (Pub SUBJECT None (stamped n ts))"
  by (simp add: publisher_frame_def vec_resize_def Let_def be_bytes encode_def stamped_facts SP_def) (simp add: stamped_def)

lemma connect_sub_frames: "decode parse_frame build_connect_sub = ([Connect ''{}'', Sub ''foo'' None ''1''], [], None)"
proof -
  have p: "parse_frame build_connect_sub = Some (Frame (Connect ''{}'') 12)"
    "parse_frame (drop 12 build_connect_sub) = Some (Frame (Sub ''foo'' None ''1'') 11)" "drop 11 (drop 12 build_connect_sub) = []"
    "parse_frame [] = Some NeedMore" by code_simp+
  from wire.decode_Frame [OF p(2)] wire.decode_stop(1) [OF p(4)] p(3) wire.decode_Frame [OF p(1)] show ?thesis by simp
qed

section \<open>Taking messages\<close>

abbreviation msg_frame :: "nat \<Rightarrow> u64 \<Rightarrow> bytes" where
  "msg_frame n ts \<equiv> encode (Msg SUBJECT SID None (stamped n ts))"

definition msg_header :: "nat \<Rightarrow> bytes" where
  "msg_header n = ''MSG foo 1 '' @ decimal n"

lemma msg_frame_eq: "8 \<le> n \<Longrightarrow> msg_frame n ts = msg_header n @ CRLF @ stamped n ts @ CRLF"
  by (simp add: encode_def msg_header_def SUBJECT_def SID_def stamped_facts SP_def)

lemma msg_header_facts: "\<not> has_crlf (msg_header n)" "take 4 (msg_header n) = ''MSG ''"
proof -
  have "\<not> has_crlf (decimal n)" by simp
  then show "\<not> has_crlf (msg_header n)" by (simp add: msg_header_def has_crlf_Cons byte_defs)
  show "take 4 (msg_header n) = ''MSG ''" by (simp add: msg_header_def)
qed

lemma take_whole_msg:
  assumes "8 \<le> n" "length (msg_frame n ts) \<le> usize_max"
  shows "try_take_msg (msg_frame n ts @ ext) n = Some (Some (ts, length (msg_frame n ts)), ext)"
proof -
  let ?acc = "msg_frame n ts @ ext" and ?h = "msg_header n"
  have acc: "?acc = ?h @ CRLF @ stamped n ts @ CRLF @ ext" using assms(1) by (simp add: msg_frame_eq)
  have len: "length (msg_frame n ts) = length ?h + 2 + n + 2"
    using assms(1) by (simp add: msg_frame_eq stamped_facts CRLF_def)
  have "bench_find_crlf ?acc = Some (length ?h)"
    unfolding bench_find_crlf_eq acc by (rule find_crlf_line [OF msg_header_facts(1)])
  moreover have "slice_to ?acc (length ?h) = Some ?h" unfolding acc by (simp add: slice_simps)
  moreover have "slice_range ?acc (length ?h + 2) (length ?h + 2 + 8) = Some (to_be_bytes ts)"
    unfolding acc using assms(1) stamped_facts(1) [OF assms(1), of ts] stamped_facts(2) [of n ts]
    by (simp add: slice_simps CRLF_def)
  moreover have "slice_from ?acc (length ?h + 2 + n + 2) = Some ext"
    unfolding len [symmetric] by (simp add: slice_simps)
  moreover have "checked_add (length ?h + 2 + n) 2 = Some (length ?h + 2 + n + 2)" using assms(2) len by simp
  ultimately show ?thesis using len
    by (subst try_take_msg.simps) (simp add: msg_header_facts(2) be_bytes checked_add_def)
qed

lemma find_crlf_prefix: "find_crlf a = Some i \<Longrightarrow> find_crlf (a @ b) = Some i"
proof (erule find_crlf_SomeE)
  fix line ext assume "a = line @ CRLF @ ext" "\<not> has_crlf line" "i = length line"
  then show "find_crlf (a @ b) = Some i" using find_crlf_line [of line "ext @ b"] by simp
qed

text \<open>A part of a message is left in the buffer.\<close>

lemma take_partial_msg:
  assumes "8 \<le> n" "length (msg_frame n ts) \<le> usize_max" "msg_frame n ts = acc @ ext" "ext \<noteq> []"
  shows "try_take_msg acc n = Some (None, acc)"
proof (cases "bench_find_crlf acc")
  case None
  then show ?thesis by (subst try_take_msg.simps) simp
next
  case (Some i)
  let ?h = "msg_header n"
  have frame: "acc @ ext = ?h @ CRLF @ stamped n ts @ CRLF" using assms(1,3) by (simp add: msg_frame_eq)
  have len: "length (msg_frame n ts) = length ?h + 2 + n + 2"
    using assms(1) by (simp add: msg_frame_eq stamped_facts CRLF_def)
  from Some have f: "find_crlf acc = Some i" by (simp add: bench_find_crlf_eq)
  have i: "i = length ?h"
    using find_crlf_prefix [OF f, of ext] find_crlf_line [OF msg_header_facts(1)] frame by simp
  from f obtain line rst where "acc = line @ CRLF @ rst" "i = length line" by (rule find_crlf_SomeE)
  then have le: "i \<le> length acc" by simp
  have "take i acc = ?h" using arg_cong [OF frame, of "take i"] le i by simp
  then have "slice_to acc i = Some ?h" using le by (simp add: slice_simps)
  moreover have "length acc < i + 2 + n + 2" using arg_cong [OF assms(3), of length] assms(4) len i by simp
  moreover have "checked_add (i + 2 + n) 2 = Some (i + 2 + n + 2)" using assms(2) len i by simp
  ultimately show ?thesis using Some by (subst try_take_msg.simps) (simp add: msg_header_facts(2) checked_add_def)
qed

section \<open>The receive loop\<close>

text \<open>The latencies of a sequence of messages, from message number \<open>k\<close> on.\<close>

fun latencies :: "(nat \<Rightarrow> u64) \<Rightarrow> nat \<Rightarrow> u64 list \<Rightarrow> u64 list" where
  "latencies clock k [] = []"
| "latencies clock k (ts # tss) = (if ts \<le> clock k then [clock k - ts] else []) @ latencies clock (k + 1) tss"

lemma prefix_cases: "acc @ ext = x @ y \<Longrightarrow> (\<exists>z. acc = x @ z \<and> y = z @ ext) \<or> (\<exists>z. x = acc @ z \<and> z \<noteq> [] \<and> ext = z @ y)"
  by (cases "length x \<le> length acc") (auto simp: append_eq_append_conv2)

lemma subscriber_loop_counts:
  assumes "8 \<le> n" "\<And>ts. length (msg_frame n ts) \<le> usize_max" "\<forall>v\<in>set (latencies clock received tss). fits v"
    and "acc @ concat chunks = concat (map (msg_frame n) tss)" "[] \<notin> set chunks"
  shows "subscriber_loop clock fits (received + length tss) n (map Inr chunks) acc received hist =
    (Finished_Ok, received + length tss, hist @ latencies clock received tss)"
  using assms(3-5)
proof (induction "length chunks + length tss" arbitrary: chunks tss acc received hist rule: less_induct)
  case less
  show ?case
  proof (cases tss)
    case Nil
    then show ?thesis by (subst subscriber_loop.simps) simp
  next
    case (Cons ts tss')
    let ?rest = "concat (map (msg_frame n) tss')"
    have split: "acc @ concat chunks = msg_frame n ts @ ?rest" using less.prems(2) Cons by simp
    from prefix_cases [OF this] show ?thesis
    proof
      assume "\<exists>z. acc = msg_frame n ts @ z \<and> ?rest = z @ concat chunks"
      then obtain z where z: "acc = msg_frame n ts @ z" "?rest = z @ concat chunks" by blast
      have t: "try_take_msg acc n = Some (Some (ts, length (msg_frame n ts)), z)"
        unfolding z(1) by (rule take_whole_msg [OF assms(1,2)])
      have ih: "subscriber_loop clock fits (Suc received + length tss') n (map Inr chunks) z (Suc received) h =
          (Finished_Ok, Suc received + length tss', h @ latencies clock (Suc received) tss')" for h
        using less.hyps [of chunks tss' "Suc received" z h] less.prems(1,3) z(2) Cons by simp
      show ?thesis using t ih less.prems(1) Cons
        by (subst subscriber_loop.simps) (simp add: Let_def)
    next
      assume "\<exists>z. msg_frame n ts = acc @ z \<and> z \<noteq> [] \<and> concat chunks = z @ ?rest"
      then obtain z where z: "msg_frame n ts = acc @ z" "z \<noteq> []" "concat chunks = z @ ?rest" by blast
      have t: "try_take_msg acc n = Some (None, acc)" by (rule take_partial_msg [OF assms(1,2) z(1,2)])
      from z(2,3) obtain c cs where c: "chunks = c # cs" by (cases chunks) auto
      have "subscriber_loop clock fits (received + length tss) n (map Inr cs) (acc @ c) received hist =
          (Finished_Ok, received + length tss, hist @ latencies clock received tss)"
        using less.hyps [of cs tss received "acc @ c" hist] less.prems c by simp
      moreover have "c \<noteq> []" using less.prems(3) c by auto
      ultimately show ?thesis using t c Cons by (subst subscriber_loop.simps) simp
    qed
  qed
qed

text \<open>The greeting is dropped.\<close>

lemma drain_one_line_greeting:
  assumes "\<not> has_crlf line" "acc @ concat chunks = line @ CRLF @ ext" "[] \<notin> set chunks"
  shows "\<exists>cs acc'. drain_one_line (map Inr chunks) acc = Some (Finished_Ok, map Inr cs, acc') \<and>
    acc' @ concat cs = ext \<and> [] \<notin> set cs"
  using assms(2,3)
proof (induction chunks arbitrary: acc)
  case Nil
  then have "acc = line @ CRLF @ ext" by simp
  moreover from this have "find_crlf acc = Some (length line)" using find_crlf_line [OF assms(1)] by simp
  ultimately show ?case by (subst drain_one_line.simps) (simp add: bench_find_crlf_eq slice_simps CRLF_def)
next
  case (Cons c cs)
  show ?case
  proof (cases "find_crlf acc")
    case None
    moreover have "c \<noteq> []" using Cons.prems(2) by auto
    ultimately show ?thesis using Cons.IH [of "acc @ c"] Cons.prems
      by (subst drain_one_line.simps) (simp add: bench_find_crlf_eq)
  next
    case (Some i)
    then have i: "i = length line"
      using find_crlf_prefix [OF Some, of "concat (c # cs)"] Cons.prems(1) find_crlf_line [OF assms(1), of ext] by simp
    from Some obtain l m where l: "acc = l @ CRLF @ m" "i = length l" by (rule find_crlf_SomeE)
    with Cons.prems(1) i have m: "m @ concat (c # cs) = ext" by simp
    have "drain_one_line (map Inr (c # cs)) acc = Some (Finished_Ok, map Inr (c # cs), m)"
      using Some l by (subst drain_one_line.simps) (simp add: bench_find_crlf_eq slice_simps CRLF_def)
    with m Cons.prems(2) show ?thesis by blast
  qed
qed

lemma fanout_from_env_valid:
  assumes "fanout_from_env parse_addr env = Inr cfg"
  shows "0 < fc_fanout cfg" "8 \<le> fc_payload_bytes cfg"
  using assms by (auto simp: fanout_from_env_def result_bind_Inr word_less_nat_alt unat_gt_0 split: if_splits)

section \<open>The pace\<close>

lemma fold_min_le: "fold min xs m \<le> (m :: u64)" "x \<in> set xs \<Longrightarrow> fold min xs m \<le> x"
proof (induction xs arbitrary: m)
  case (Cons y ys)
  { case 1 show ?case using Cons(1) [of "min y m"] by (auto intro: order_trans) }
  { case 2 then show ?case using Cons(1) [of "min y m"] Cons(2) [of "min y m"] by (auto intro: order_trans) }
qed auto

lemma fold_min_in: "fold min xs x \<in> set (x # (xs :: u64 list))"
proof (induction xs arbitrary: x)
  case (Cons y ys)
  from Cons [of "min y x"] show ?case by (cases "y \<le> x") (auto simp: min_def)
qed simp

lemma min_received_in: "xs \<noteq> [] \<Longrightarrow> min_received xs \<in> set xs"
  using fold_min_in by (cases xs) (auto simp: min_received_def)

lemma min_received_le: "x \<in> set xs \<Longrightarrow> min_received xs \<le> x"
  by (cases xs) (auto simp: min_received_def fold_min_le)

text \<open>No subscriber has ever more than the window of messages still to receive.\<close>

lemma word_window:
  fixes x m :: u64
  assumes "m \<le> x" "x \<le> sent" "sent - m < win" "sent < msgs"
  shows "x \<le> sent + 1" "sent + 1 - x \<le> win" "sent + 1 \<le> msgs"
  using assms by unat_arith+

lemma word_received:
  fixes x :: u64
  assumes "x < sent" "sent - x \<le> win"
  shows "x + 1 \<le> sent" "sent - (x + 1) \<le> win"
  using assms by unat_arith+

lemma pace_kept:
  assumes "pace_step pace_window msgs (sent, xs) (sent', xs')" "0 < pace_window"
    and "\<forall>x\<in>set xs. x \<le> sent \<and> sent - x \<le> pace_window" "sent \<le> msgs"
  shows "(\<forall>x\<in>set xs'. x \<le> sent' \<and> sent' - x \<le> pace_window) \<and> sent' \<le> msgs"
  using assms(1)
proof (cases rule: pace_step.cases)
  case send
  have "sent + 1 \<le> msgs" using send(3) by unat_arith
  moreover have "x \<le> sent + 1 \<and> sent + 1 - x \<le> pace_window" if "x \<in> set xs" for x
  proof -
    have x: "min_received xs \<le> x" "x \<le> sent" using min_received_le [OF that] assms(3) that by auto
    then have "min_received xs \<le> sent" by simp
    with send(4) assms(2) have "sent - min_received xs < pace_window" by (auto simp: may_send_def Let_def)
    from word_window [OF x this send(3)] show ?thesis by simp
  qed
  ultimately show ?thesis using send by simp
next
  case (receive k)
  then have "x \<le> sent \<and> sent - x \<le> pace_window" if "x \<in> set xs'" for x
    using that set_update_subset_insert [of xs k "xs ! k + 1"] assms(3) word_received [of "xs ! k" sent pace_window]
    by auto
  with receive assms(4) show ?thesis by simp
qed

lemma pace_run:
  assumes "(pace_step pace_window msgs)\<^sup>*\<^sup>* (0, replicate k 0) (sent, xs)" "0 < pace_window"
  shows "(\<forall>x\<in>set xs. x \<le> sent \<and> sent - x \<le> pace_window) \<and> sent \<le> msgs"
  using assms(1)
proof (induction "(sent, xs)" arbitrary: sent xs rule: rtranclp_induct)
  case base
  then show ?case by auto
next
  case (step y)
  obtain a b where y: "y = (a, b)" by (cases y)
  have IH: "(\<forall>x\<in>set b. x \<le> a \<and> a - x \<le> pace_window) \<and> a \<le> msgs" by (rule step.hyps(3) [OF y])
  show ?case by (rule pace_kept [OF step.hyps(2) [unfolded y] assms(2) IH [THEN conjunct1] IH [THEN conjunct2]])
qed

section \<open>The publisher's stream\<close>

lemma publisher_loop_frames:
  "\<forall>k bs. write_pub k bs = Inr () \<Longrightarrow>
    publisher_loop write_pub clock n k m = (Finished_Ok, map (\<lambda>i. publisher_frame n (clock i)) [k..<k + m])"
  by (induction m arbitrary: k) (simp_all add: Let_def upt_conv_Cons del: upt_Suc)

lemma stamped_frame_fits:
  assumes "8 \<le> n" "n \<le> isize_max"
  shows "length (msg_frame n ts) \<le> usize_max" "length (encode (Pub SUBJECT None (stamped n ts))) \<le> usize_max"
    "legal_frame (Pub SUBJECT None (stamped n ts))"
proof -
  have dec: "length (decimal n) \<le> 20"
    using assms(2) by (intro length_decimal) (simp_all add: isize_max_numeral)
  then show "length (msg_frame n ts) \<le> usize_max"
    using assms by (simp add: msg_frame_eq msg_header_def stamped_facts CRLF_def isize_max_numeral usize_max_numeral)
  show "length (encode (Pub SUBJECT None (stamped n ts))) \<le> usize_max"
    unfolding publisher_frame_eq [OF assms(1), symmetric] using dec assms
    by (simp add: publisher_frame_def Let_def vec_resize_def be_bytes SUBJECT_def CRLF_def isize_max_numeral usize_max_numeral)
  show "legal_frame (Pub SUBJECT None (stamped n ts))"
    by (simp add: SUBJECT_def legal_token_def is_ws_def byte_defs)
qed

text \<open>The server parses the publisher's stream as CONNECT and one publish per message.\<close>

lemma publisher_stream:
  assumes "8 \<le> n" "n \<le> isize_max"
  shows "decode parse_frame (''CONNECT {}'' @ CRLF @ concat (map (\<lambda>k. publisher_frame n (sent k)) ks)) =
    (Connect ''{}'' # map (\<lambda>k. Pub SUBJECT None (stamped n (sent k))) ks, [], None)"
proof -
  let ?fs = "Connect ''{}'' # map (\<lambda>k. Pub SUBJECT None (stamped n (sent k))) ks"
  have "legal_frame (Connect ''{}'')" "encode (Connect ''{}'') = ''CONNECT {}'' @ CRLF" "length (''CONNECT {}'' @ CRLF) \<le> usize_max"
    by (simp_all add: has_crlf_Cons byte_defs encode_def CRLF_def usize_max_numeral)
  then have "\<forall>f\<in>set ?fs. legal_frame f \<and> length (encode f) \<le> usize_max"
    "''CONNECT {}'' @ CRLF @ concat (map (\<lambda>k. publisher_frame n (sent k)) ks) = concat (map encode ?fs)"
    using stamped_frame_fits [OF assms] by (auto simp: publisher_frame_eq [OF assms(1)] comp_def simp del: legal_frame.simps)
  then show ?thesis using nats.decode_encoded [of ?fs "[]"] by (simp add: wire.decode_stop parse_frame_Nil)
qed

lemma info_line: "legal_frame (Info json) \<Longrightarrow> \<not> has_crlf (''INFO '' @ json)" "encode (Info json) = (''INFO '' @ json) @ CRLF"
  by (simp_all add: has_crlf_Cons byte_defs encode_def)

lemma publisher_drive_frames:
  assumes "8 \<le> n" "fc_payload_bytes cfg = n" "msgs = unat (fc_warmup cfg) + unat (fc_iterations cfg)" "msgs \<le> usize_max"
    and "legal_frame (Info json)" "\<forall>bs. write_sock bs = Inr ()" "\<forall>k bs. write_pub k bs = Inr ()"
    and "[] \<notin> set greeting" "concat greeting = encode (Info json)"
  shows "publisher_drive write_sock write_pub (map Inr greeting) sent cfg =
    Some (Finished_Ok, map (\<lambda>k. publisher_frame n (sent k)) [0..<msgs])"
proof -
  have "[] @ concat greeting = (''INFO '' @ json) @ CRLF @ []" using assms(9) by (simp add: info_line)
  from drain_one_line_greeting [OF info_line(1) [OF assms(5)] this assms(8)] obtain cs acc where
    "drain_one_line (map Inr greeting) [] = Some (Finished_Ok, map Inr cs, acc)" by blast
  then have "publisher_open write_sock (map Inr greeting) = Some Finished_Ok" using assms(6) by (simp add: publisher_open_def)
  then show ?thesis
    using assms(2-4) publisher_loop_frames [OF assms(7), of sent n 0 msgs] by (simp add: publisher_drive_def checked_add_def)
qed

lemma subscriber_task_counts:
  assumes "8 \<le> n" "n \<le> isize_max" "legal_frame (Info json)" "\<forall>bs. write_sock bs = Inr ()" "[] \<notin> set chunks"
    and "concat chunks = encode (Info json) @ concat (map (msg_frame n) tss)" "\<forall>v\<in>set (latencies clock 0 tss). fits v"
  shows "subscriber_task write_sock clock fits (length tss) n (map Inr chunks) = (Finished_Ok, length tss, latencies clock 0 tss)"
proof -
  have "[] @ concat chunks = (''INFO '' @ json) @ CRLF @ concat (map (msg_frame n) tss)"
    using assms(6) by (simp add: info_line)
  from drain_one_line_greeting [OF info_line(1) [OF assms(3)] this assms(5)] obtain cs acc where
    d: "drain_one_line (map Inr chunks) [] = Some (Finished_Ok, map Inr cs, acc)"
      "acc @ concat cs = concat (map (msg_frame n) tss)" "[] \<notin> set cs" by blast
  show ?thesis
    using subscriber_loop_counts [OF assms(1) stamped_frame_fits(1) [OF assms(1,2)] assms(7) d(2,3), of "[]"] d(1) assms(4)
    by (simp add: subscriber_task_def)
qed

section \<open>Properties\<close>



text \<open>C37. The publisher keeps its pace: with a window, from the start of the run on no subscriber has ever
  more messages still to receive than the window, and never more than the configured number
  of messages is published.\<close>

theorem publisher_keeps_pace:
  assumes "(pace_step pace_window msgs)\<^sup>*\<^sup>* (0, replicate k 0) (sent, xs)" "0 < pace_window" "x \<in> set xs"
  shows "x \<le> sent \<and> sent - x \<le> pace_window \<and> sent \<le> msgs"
  using pace_run [OF assms(1,2)] assms(3) by blast

theorem publisher_keeps_pace_witness:
  "(pace_step 2 5)\<^sup>*\<^sup>* (0, replicate 1 0) (2, [1]) \<and> (2 :: u64) - 1 \<le> 2 \<and> \<not> may_send 2 2 [0]"
proof -
  have "pace_step 2 5 (0, [0]) (0 + 1, [0])" by (rule send) code_simp+
  moreover have "pace_step 2 5 (0 + 1, [0]) (0 + 1, [0][0 := [0] ! 0 + 1])" by (rule receive) code_simp+
  moreover have "pace_step 2 5 (1, [1]) (1 + 1, [1])" by (rule send) code_simp+
  ultimately have r: "(pace_step 2 5)\<^sup>*\<^sup>* (0, replicate 1 0) (2, [1])"
    by (auto intro: converse_rtranclp_into_rtranclp)
  from publisher_keeps_pace [OF r, of 1] have "(2 :: u64) - 1 \<le> 2" by simp
  moreover have "\<not> may_send 2 2 [0]" by code_simp
  ultimately show ?thesis using r by simp
qed

end
