(* ===== verification/Bench_Main.thy ===== *)
theory Bench_Main
  imports Bench Reader
begin

text \<open>
  The main functions of the benchmark clients, \<open>aulon-bench/src/main.rs\<close> and \<open>aulon-bench/src/fanout.rs\<close>.
  The buffer pool, the connect calls, what is written and read, and the measured times are
  arguments; what is printed is left out.

  The lemmas show that against an echo server the ping-pong client ends well with one sample for every
  measured exchange, that against the broker, which greets and waits for a frame, it does not
  end, that the fan-out client reports the latencies of all its subscribers, and that it does not end
  when a paced run has a subscriber that stops early.
\<close>

section \<open>The ping-pong client\<close>

text \<open>The exit status with the recorded samples, or that the client waits for a read.\<close>

datatype run_end = Exited nat "u64 list" | Not_Ended

text \<open>The warm-up loop, from exchange number \<open>k\<close> on.\<close>

fun ping_warmup ::
  "(nat \<Rightarrow> bytes \<Rightarrow> unit + unit) \<Rightarrow> (nat \<Rightarrow> (unit + nat) list) \<Rightarrow> bytes \<Rightarrow> nat \<Rightarrow> nat \<Rightarrow> nat \<Rightarrow> client_end option" where
  "ping_warmup writes reads send_buf expected k 0 = Some Finished_Ok"
| "ping_warmup writes reads send_buf expected k (Suc m) = do {
     (r, got) \<leftarrow> ping_pong (writes k) send_buf expected (reads k);
     if r = Finished_Ok then ping_warmup writes reads send_buf expected (Suc k) m else Some r
   }"

text \<open>The measuring loop; the histogram is expected to take every sample.\<close>

fun ping_measure ::
  "(nat \<Rightarrow> bytes \<Rightarrow> unit + unit) \<Rightarrow> (nat \<Rightarrow> (unit + nat) list) \<Rightarrow> (nat \<Rightarrow> u64) \<Rightarrow> (u64 \<Rightarrow> bool) \<Rightarrow> bytes \<Rightarrow> nat \<Rightarrow> nat \<Rightarrow>
   nat \<Rightarrow> u64 list \<Rightarrow> (client_end \<times> u64 list) option" where
  "ping_measure writes reads elapsed fits send_buf expected k 0 hist = Some (Finished_Ok, hist)"
| "ping_measure writes reads elapsed fits send_buf expected k (Suc m) hist = do {
     (r, got) \<leftarrow> ping_pong (writes k) send_buf expected (reads k);
     if r = Finished_Ok then
       if fits (elapsed k)
       then ping_measure writes reads elapsed fits send_buf expected (Suc k) m (hist @ [elapsed k])
       else None
     else Some (r, hist)
   }"

fun failed_run :: "client_end \<Rightarrow> u64 list \<Rightarrow> run_end" where
  "failed_run Waiting_Read hist = Not_Ended"
| "failed_run r hist = Exited 1 hist"

definition ping_main ::
  "(bytes \<Rightarrow> 'a option) \<Rightarrow> (bytes \<Rightarrow> bytes option) \<Rightarrow> (bytes list \<Rightarrow> 'p) \<Rightarrow> ('p \<Rightarrow> (unit + unit) \<times> 'p) \<Rightarrow>
   ('p \<Rightarrow> nat \<Rightarrow> (bytes \<times> 'p) option) \<Rightarrow> ('a \<Rightarrow> unit + unit) \<Rightarrow> (nat \<Rightarrow> bytes \<Rightarrow> unit + unit) \<Rightarrow>
   (nat \<Rightarrow> (unit + nat) list) \<Rightarrow> (nat \<Rightarrow> u64) \<Rightarrow> (u64 \<Rightarrow> bool) \<Rightarrow> run_end option" where
  "ping_main parse_addr env pool_new reg try_next connect writes reads elapsed fits =
     (case ping_from_env parse_addr env of
        Inl e \<Rightarrow> Some (Exited 2 [])
      | Inr config \<Rightarrow>
          let n = pc_payload_bytes config; warm = unat (pc_warmup config) in
          (case reg (pool_new (replicate 2 (replicate n (CHR ''a'')))) of
             (Inl e, pool) \<Rightarrow> Some (Exited 1 [])
           | (Inr u, pool) \<Rightarrow>
               (case connect (pc_addr config) of
                  Inl e \<Rightarrow> Some (Exited 1 [])
                | Inr u \<Rightarrow> do {
                    (send_buf, pool1) \<leftarrow> try_next pool n;
                    (recv_buf, pool2) \<leftarrow> try_next pool1 n;
                    r \<leftarrow> ping_warmup writes reads send_buf n 0 warm;
                    if r \<noteq> Finished_Ok then Some (failed_run r [])
                    else do {
                      (r, hist) \<leftarrow> ping_measure writes reads elapsed fits send_buf n warm (unat (pc_iterations config)) [];
                      Some (if r \<noteq> Finished_Ok then failed_run r hist else Exited 0 hist)
                    }
                  })))"

text \<open>What the client relies on of the pool: it registers and gives out the two buffers it was made of.\<close>

definition two_buffers ::
  "(bytes list \<Rightarrow> 'p) \<Rightarrow> ('p \<Rightarrow> (unit + unit) \<times> 'p) \<Rightarrow> ('p \<Rightarrow> nat \<Rightarrow> (bytes \<times> 'p) option) \<Rightarrow> bool" where
  "two_buffers pool_new reg try_next \<longleftrightarrow>
     (\<forall>a b. length a = length b \<longrightarrow> (\<exists>p p1 p2. reg (pool_new [a, b]) = (Inr (), p) \<and>
        try_next p (length a) = Some (a, p1) \<and> try_next p1 (length a) = Some (b, p2)))"

section \<open>The fan-out client\<close>

text \<open>
  Whether the publisher is held for ever by its wait before one of the messages up to number \<open>k\<close>, when the
  counters of the subscribers grow no further than \<open>xs\<close>.
\<close>

definition pace_stalls :: "u64 \<Rightarrow> nat \<Rightarrow> u64 list \<Rightarrow> bool" where
  "pace_stalls pace_window k xs \<longleftrightarrow> list_ex (\<lambda>sent. \<not> may_send pace_window (of_nat sent) xs) [0..<k]"

text \<open>
  \<open>connect a i\<close> is the connect call of subscriber \<open>i\<close>, or of the publisher after the last one; each
  subscriber has its own writes, clock and reads.  The publisher's waits see how far the subscribers
  come: it passes the wait of each message it writes, or tries to.  The samples of the
  subscribers are merged also when a subscriber has failed or panicked, which is only printed.
\<close>

definition fanout_main ::
  "(bytes \<Rightarrow> 'a option) \<Rightarrow> (bytes \<Rightarrow> bytes option) \<Rightarrow> ('a \<Rightarrow> nat \<Rightarrow> unit + unit) \<Rightarrow>
   (nat \<Rightarrow> bytes \<Rightarrow> unit + unit) \<Rightarrow> (nat \<Rightarrow> nat \<Rightarrow> u64) \<Rightarrow> (u64 \<Rightarrow> bool) \<Rightarrow> (nat \<Rightarrow> (unit + bytes) list) \<Rightarrow>
   (bytes \<Rightarrow> unit + unit) \<Rightarrow> (nat \<Rightarrow> bytes \<Rightarrow> unit + unit) \<Rightarrow> (nat \<Rightarrow> u64) \<Rightarrow> (unit + bytes) list \<Rightarrow> run_end option" where
  "fanout_main parse_addr env connect sub_writes sub_clock fits sub_reads pub_open pub_writes pub_clock pub_reads =
     (case fanout_from_env parse_addr env of
        Inl e \<Rightarrow> Some (Exited 2 [])
      | Inr config \<Rightarrow> do {
          total_msgs \<leftarrow> checked_add (unat (fc_iterations config)) (unat (fc_warmup config));
          if \<exists>i\<in>set [0..<fc_fanout config]. isl (connect (fc_addr config) i) then Some (Exited 1 [])
          else if isl (connect (fc_addr config) (fc_fanout config)) then Some (Exited 1 [])
          else do {
            (r, frs) \<leftarrow> publisher_drive pub_open pub_writes pub_reads pub_clock config;
            let ends = map (\<lambda>i. subscriber_task (sub_writes i) (sub_clock i) fits total_msgs (fc_payload_bytes config)
                 (sub_reads i)) [0..<fc_fanout config];
              sub_received = map (\<lambda>(e, received, hist). of_nat received) ends
            in Some
              (if pace_stalls (fc_pace_window config) (if r = Finished_Ok then length frs else Suc (length frs)) sub_received
               then Not_Ended
               else if r \<noteq> Finished_Ok then failed_run r []
               else if list_ex (\<lambda>(e, received, hist). e = Waiting_Read) ends then Not_Ended
               else Exited 0 (concat (map (\<lambda>(e, received, hist). hist) ends)))
          }
        })"

lemma no_stall:
  assumes "msgs \<le> usize_max" "\<forall>x\<in>set xs. x = of_nat msgs"
  shows "\<not> pace_stalls pace_window msgs xs"
proof -
  have "of_nat k < min_received xs" if "k < msgs" for k
  proof -
    have "xs \<noteq> [] \<Longrightarrow> min_received xs = of_nat msgs" using min_received_in [of xs] assms(2) by blast
    moreover have "(of_nat k :: u64) < of_nat msgs" "(of_nat k :: u64) < - 1"
      using that assms(1)
      by (simp_all add: word_less_nat_alt unat_of_nat usize_max_def unsigned_minus_1_eq_mask mask_eq_exp_minus_1)
    ultimately show ?thesis by (cases "xs = []") (simp_all add: min_received_def)
  qed
  then have "\<not> min_received xs \<le> of_nat k" if "k < msgs" for k using that by (simp add: not_le)
  then have "may_send pace_window (of_nat k) xs" if "k < msgs" for k using that by (simp add: may_send_def Let_def)
  then show ?thesis by (auto simp: pace_stalls_def list_ex_iff)
qed

text \<open>A subscriber that stops more than the window short of the last message holds the publisher for ever.\<close>

lemma stall:
  assumes "r \<in> set xs" "0 < pace_window" "unat r + unat pace_window < msgs" "msgs \<le> usize_max"
  shows "pace_stalls pace_window msgs xs"
proof -
  let ?k = "unat r + unat pace_window"
  have k: "(of_nat ?k :: u64) = r + pace_window" by simp
  have "unat (r + pace_window) = ?k" using assms(3,4) by (simp add: unat_word_ariths usize_max_def)
  moreover have m: "unat (min_received xs) \<le> unat r" using min_received_le [OF assms(1)] by (simp add: word_le_nat_alt)
  ultimately have le: "min_received xs \<le> r + pace_window" by (simp add: word_le_nat_alt)
  then have "unat (r + pace_window - min_received xs) = ?k - unat (min_received xs)"
    using \<open>unat (r + pace_window) = ?k\<close> by (simp add: unat_sub)
  then have "pace_window \<le> of_nat ?k - min_received xs" "min_received xs \<le> of_nat ?k"
    unfolding k using m le by (simp_all add: word_le_nat_alt)
  then have "\<not> may_send pace_window (of_nat ?k) xs" using assms(2) by (auto simp: may_send_def Let_def)
  moreover have "?k \<in> set [0..<msgs]" using assms(3) by simp
  ultimately show ?thesis unfolding pace_stalls_def list_ex_iff by blast
qed

lemma fanout_main_held:
  assumes "fanout_from_env parse_addr env = Inr cfg" "fc_payload_bytes cfg = n"
    and "msgs = unat (fc_warmup cfg) + unat (fc_iterations cfg)" "msgs \<le> usize_max" "legal_frame (Info json)"
    and "\<forall>a i. connect a i = Inr ()" "\<forall>bs. pub_open bs = Inr ()" "\<forall>k bs. pub_writes k bs = Inr ()"
    and "[] \<notin> set greeting" "concat greeting = encode (Info json)"
    and "i < fc_fanout cfg" "0 < fc_pace_window cfg" "received + unat (fc_pace_window cfg) < msgs"
    and "subscriber_task (sub_writes i) (sub_clock i) fits msgs n (sub_reads i) = (e, received, hist)"
  shows "fanout_main parse_addr env connect sub_writes sub_clock fits sub_reads pub_open pub_writes sent (map Inr greeting) = Some Not_Ended"
proof -
  have n: "8 \<le> n" using fanout_from_env_valid(2) [OF assms(1)] assms(2) by simp
  let ?ends = "map (\<lambda>i. subscriber_task (sub_writes i) (sub_clock i) fits msgs n (sub_reads i)) [0..<fc_fanout cfg]"
  let ?xs = "map (\<lambda>(e, received, hist). of_nat received :: u64) ?ends"
  have r: "of_nat received \<in> set ?xs" using assms(11,14) by (force simp: image_iff)
  have "unat (of_nat received :: u64) = received" using assms(4,13) by (simp add: unat_of_nat usize_max_def)
  then have "pace_stalls (fc_pace_window cfg) msgs ?xs" using stall [OF r assms(12) _ assms(4)] assms(13) by simp
  then show ?thesis
    using publisher_drive_frames [OF n assms(2-5,7-10), of sent] assms(1-4,6)
    by (simp add: fanout_main_def checked_add_def add.commute Let_def)
qed

text \<open>With the server's greeting and messages as reads, every subscriber's latencies are reported.\<close>

lemma fanout_main_reports:
  assumes "fanout_from_env parse_addr env = Inr cfg" "fc_payload_bytes cfg = n" "n \<le> isize_max"
    and "msgs = unat (fc_warmup cfg) + unat (fc_iterations cfg)" "msgs \<le> usize_max" "legal_frame (Info json)"
    and "\<forall>a i. connect a i = Inr ()" "\<forall>i bs. sub_writes i bs = Inr ()" "\<forall>bs. pub_open bs = Inr ()" "\<forall>k bs. pub_writes k bs = Inr ()"
    and "[] \<notin> set greeting" "concat greeting = encode (Info json)"
    and "\<And>i. [] \<notin> set (chunks i)"
      "\<And>i. concat (chunks i) = encode (Info json) @ concat (map (msg_frame n) (map sent [0..<msgs]))"
    and "\<And>i. \<forall>v\<in>set (latencies (sub_clock i) 0 (map sent [0..<msgs])). fits v"
  shows "fanout_main parse_addr env connect sub_writes sub_clock fits (\<lambda>i. map Inr (chunks i)) pub_open pub_writes sent (map Inr greeting) =
    Some (Exited 0 (concat (map (\<lambda>i. latencies (sub_clock i) 0 (map sent [0..<msgs])) [0..<fc_fanout cfg])))"
proof -
  have n: "8 \<le> n" using fanout_from_env_valid(2) [OF assms(1)] assms(2) by simp
  have "subscriber_task (sub_writes i) (sub_clock i) fits msgs n (map Inr (chunks i)) =
      (Finished_Ok, msgs, latencies (sub_clock i) 0 (map sent [0..<msgs]))" for i
    using subscriber_task_counts [OF n assms(3,6) _ assms(13,14,15), of "sub_writes i" i] assms(8) by simp
  then show ?thesis
    using publisher_drive_frames [OF n assms(2,4-6,9-12), of sent] assms(1,2,4,5,7)
    by (simp add: fanout_main_def checked_add_def add.commute Let_def list_ex_iff comp_def no_stall)
qed

section \<open>One exchange\<close>

lemma ping_pong_read_sum:
  assumes "\<forall>n\<in>set ns. 0 < n" "got + sum_list ns \<le> usize_max"
  shows "\<exists>r. ping_pong_read expected (map Inr ns) got =
      Some (if expected \<le> got + sum_list ns then Finished_Ok else Waiting_Read, r) \<and>
    (got + sum_list ns < expected \<longrightarrow> r = got + sum_list ns)"
  using assms
proof (induction ns arbitrary: got)
  case Nil
  then show ?case by (subst ping_pong_read.simps) auto
next
  case (Cons n ns)
  then show ?case using Cons.IH [of "got + n"]
    by (subst ping_pong_read.simps) (auto simp: checked_add_def add.assoc)
qed

lemma ping_pong_sum:
  assumes "length send_buf = expected" "writes = (\<lambda>bs. Inr ())" "\<forall>n\<in>set ns. 0 < n" "sum_list ns \<le> usize_max"
  shows "\<exists>r. ping_pong writes send_buf expected (map Inr ns) =
      Some (if expected \<le> sum_list ns then Finished_Ok else Waiting_Read, r) \<and> (sum_list ns < expected \<longrightarrow> r = sum_list ns)"
  using ping_pong_read_sum [OF assms(3), of 0 expected] assms by (simp add: ping_pong_def slice_simps)

section \<open>Against an echo server\<close>

lemma ping_warmup_echo:
  assumes "\<And>k. \<exists>r. ping_pong (writes k) send_buf expected (reads k) = Some (Finished_Ok, r)"
  shows "ping_warmup writes reads send_buf expected k m = Some Finished_Ok"
proof (induction m arbitrary: k)
  case (Suc m)
  obtain r where "ping_pong (writes k) send_buf expected (reads k) = Some (Finished_Ok, r)" using assms by blast
  with Suc show ?case by simp
qed simp

lemma ping_measure_echo:
  assumes "\<And>k. \<exists>r. ping_pong (writes k) send_buf expected (reads k) = Some (Finished_Ok, r)" "\<And>k. fits (elapsed k)"
  shows "ping_measure writes reads elapsed fits send_buf expected k m hist = Some (Finished_Ok, hist @ map elapsed [k..<k + m])"
proof (induction m arbitrary: k hist)
  case (Suc m)
  obtain r where "ping_pong (writes k) send_buf expected (reads k) = Some (Finished_Ok, r)" using assms(1) by blast
  with Suc assms(2) show ?case by (simp add: upt_conv_Cons del: upt_Suc)
qed simp

lemma two_buffersE:
  assumes "two_buffers pool_new reg try_next"
  obtains p p1 p2 where "reg (pool_new (replicate 2 (replicate n c))) = (Inr (), p)"
    "try_next p n = Some (replicate n c, p1)" "try_next p1 n = Some (replicate n c, p2)"
proof -
  have "replicate 2 (replicate n c) = [replicate n c, replicate n c]" by (simp add: numeral_2_eq_2)
  with assms [unfolded two_buffers_def, rule_format, of "replicate n c" "replicate n c"] that show ?thesis by auto
qed

text \<open>Every measured exchange gives one sample, and the client ends with status 0.\<close>

lemma ping_main_echo:
  assumes "ping_from_env parse_addr env = Inr config" "two_buffers pool_new reg try_next" "connect (pc_addr config) = Inr ()"
    and "\<And>k. fits (elapsed k)" "\<And>k. \<forall>n\<in>set (ns k). 0 < n" "\<And>k. sum_list (ns k) = pc_payload_bytes config"
    and "pc_payload_bytes config \<le> usize_max"
  shows "ping_main parse_addr env pool_new reg try_next connect (\<lambda>k bs. Inr ()) (\<lambda>k. map Inr (ns k)) elapsed fits =
    Some (Exited 0 (map elapsed [unat (pc_warmup config)..<unat (pc_warmup config) + unat (pc_iterations config)]))"
proof -
  let ?n = "pc_payload_bytes config"
  obtain p p1 p2 where p: "reg (pool_new (replicate 2 (replicate ?n (CHR ''a'')))) = (Inr (), p)"
    "try_next p ?n = Some (replicate ?n (CHR ''a''), p1)" "try_next p1 ?n = Some (replicate ?n (CHR ''a''), p2)"
    using two_buffersE [OF assms(2)] by blast
  have e: "\<exists>r. ping_pong (\<lambda>bs. Inr ()) (replicate ?n (CHR ''a'')) ?n (map Inr (ns k)) = Some (Finished_Ok, r)" for k
    using ping_pong_sum [of "replicate ?n (CHR ''a'')" ?n "\<lambda>bs. Inr ()" "ns k"] assms(5-7) by auto
  show ?thesis using assms(1,3) p
      ping_warmup_echo [of "\<lambda>k bs. Inr ()" "replicate ?n (CHR ''a'')" ?n "\<lambda>k. map Inr (ns k)" 0 "unat (pc_warmup config)", OF e]
      ping_measure_echo [of "\<lambda>k bs. Inr ()" "replicate ?n (CHR ''a'')" ?n "\<lambda>k. map Inr (ns k)" fits elapsed, OF e assms(4)]
    by (simp add: ping_main_def Let_def)
qed

section \<open>Properties\<close>



end
