(* ===== verification/Spec2Isabelle.thy ===== *)
theory Spec2Isabelle
  imports Codec Writer Topology_Facts Broker Delivery Startup Inbox_Facts Bench_Main
begin

text \<open>
  Aulon is a broker for the core NATS protocol: clients subscribe to subjects and publish messages,
  and the broker delivers each message to the subscribers whose pattern matches.  It runs one worker
  thread per group of CPUs that share a level 3 cache (a shard).  This development models the wire
  codec, the data structures and the tasks of a worker, the hand-over of messages between
  workers, the start-up, and the benchmark clients, and proves that they do what they are for.

  \<^bold>\<open>The program and its parts.\<close>  The crate \<open>aulon-proto\<close> parses and writes frames.  The crate \<open>aulon-core\<close>
  has the subscription trie, the state of a connection with its outbound buffer, the inbox ring
  between shards, the discovery of the CPU topology, the buffer pool, the eventfd pair, and a
  typestate wrapper of a connection.  \<open>aulon-server/src/main.rs\<close> puts them together: the accept
  loop makes for each connection a reader task and a writer task that share a connection state;
  the reader parses frames and handles them on the worker's trie; a publish is dispatched to the
  connections of the own shard and pushed into the inboxes of the other shards, whose drain task
  dispatches it there; the writer sends what was enqueued and carries out a close.

  \<^bold>\<open>Conventions.\<close>  Bytes are \<open>char\<close>; a slice or vector is a list.  \<open>usize\<close> is \<open>nat\<close> with the 64-bit bounds
  written out where the code computes with it (\<open>checked_add\<close>, \<open>usize_sub\<close>); counters that are meant to
  wrap, the random state and CPU numbers are machine words.  \<open>None\<close> is a panic, an arithmetic
  overflow that a debug build reports, or a loop that does not end; an error of the code is \<open>Inl\<close>.
  The mutable cells of a connection state are reached through an address in a store, because
  the two tasks of a connection and every dispatch share them.  An async task is a program
  counter with the code between two awaits as one step; tasks of a worker interleave at the awaits
  only, since a worker is one thread.

  \<^bold>\<open>Theories.\<close>
  \<^item> \<open>Prelude\<close>: byte and word types, checked arithmetic, slices, fact collections.
  \<^item> \<open>Frame\<close>, \<open>Emit\<close>, \<open>Parse\<close>, \<open>Parse_Facts\<close>, \<open>Codec\<close>: \<open>frame.rs\<close>, \<open>error.rs\<close>, \<open>emit.rs\<close>, \<open>parse.rs\<close>.  \<open>encode\<close> is the
    specification of the wire format.  The emitter writes it exactly or reports a short buffer; the
    parser never panics, inverts it, does not change a verdict when more bytes come, and gives the
    same frames however the stream is cut.  The locales \<open>framing\<close> and \<open>codec\<close> carry these arguments.
  \<^item> \<open>Subscription\<close>, \<open>Subscription_Facts\<close>, \<open>Sub_Table\<close>: \<open>subscription.rs\<close>.  The trie refines a multiset of
    patterns with subscribers (locale \<open>sub_table\<close>): matching visits exactly the matching entries, and
    unsubscribing removes exactly the owned ones and prunes empty nodes.
  \<^item> \<open>Connection_State\<close>: \<open>connection_state.rs\<close>.  The outbound buffer is a FIFO byte queue that closes when it
    overflows (locale \<open>outbound\<close>).  \<open>Writer\<close>: the writer task against it, with the socket and tokio's
    \<open>Notify\<close> as parameters: what arrives at the peer, and that no wake-up is lost.
  \<^item> \<open>Shard_Inbox\<close>: \<open>shard_inbox.rs\<close>, each operation as one step, at wrapping counters (locale
    \<open>bounded_queue\<close>).  \<open>Inbox_Threads\<close>, \<open>Inbox_Facts\<close>: the same code one memory access at a time, for any
    number of producers, with the wake-up of the drain task, under sequentially consistent memory
    and under total store order.
  \<^item> \<open>Topology\<close>, \<open>Topology_Facts\<close>: \<open>topology.rs\<close> over a file tree given as an argument, the choice of the
    topology and the distribution of the eventfd readers.  \<open>Startup\<close>: \<open>main\<close>, \<open>worker_main\<close> up to its accept
    loop and \<open>bind_so_reuseport\<close>, what they start and what they return.
  \<^item> \<open>Worker\<close>, \<open>Worker_Facts\<close>, \<open>Worker_Publish\<close>: the worker's state, \<open>handle_frame\<close>, \<open>handle_pub\<close>,
    \<open>dispatch_local\<close>, the queue group pick.  Handling a frame refines a step of an abstract session;
    a publish reaches every matched plain subscriber, one member of each matched group, and the
    inbox of every other shard.
  \<^item> \<open>Connection\<close>: \<open>buffer_pool.rs\<close>, \<open>eventfd.rs\<close>, \<open>connection.rs\<close>.
  \<^item> \<open>Reader\<close>, \<open>Reader_Facts\<close>, \<open>Session\<close>, \<open>Shard\<close>, \<open>Broker\<close>, \<open>Delivery\<close>: the accept loop, the reader task and
    the drain task, and a whole shard as a step relation in which its tasks and the pushes of its
    peers interleave.  In every reachable state the subscriptions of a connection are those of the
    abstract session on the frames of its byte stream, no task panics, an ended connection is
    cleaned up, and a publish is delivered across shards (to one member of a queue group on
    each shard).
  \<^item> \<open>Bench\<close>, \<open>Bench_Main\<close>: the fan-out and ping-pong clients of \<open>aulon-bench\<close>: configuration, the frames
    they send, the subscriber's receive loop, the publisher with its pacing, one exchange of
    the ping-pong client, and both main functions with their exit status.

  \<^bold>\<open>Bounds.\<close>  The parse loop of the reader and the drain loop are partial functions, so that not ending is
  \<open>None\<close>; the theorems show that they return.  The shard theorems assume fewer than
  \<open>2 ^ 32\<close> accepted connections and a number of reads for which the subscription counter stays in 64 bits
  (each read adds at most as many subscriptions as it has bytes).  The inbox theorems assume
  a requested capacity of at most \<open>2 ^ 62\<close>, and those on threads a schedule shorter than \<open>2 ^ 62\<close> steps, which
  keeps a stalled producer from seeing a counter that has wrapped around.

  \<^bold>\<open>Not modelled.\<close>  Thread creation, CPU pinning and the printed messages of \<open>main.rs\<close> and of the
  benchmark clients are calls of the operating system without state of the program that later code
  reads.  Of the memory orderings in \<open>shard_inbox.rs\<close>, total store order is what the
  threads are checked against; weaker ones are not modelled.  The scheduling of \<open>tokio_uring\<close> is an
  arbitrary choice of steps; its sockets, buffers and \<open>Notify\<close>, the eventfd, and the histogram are parameters, with what the code relies on as
  hypotheses.  A future that is dropped before it is ready does not occur in the server and is not
  modelled.  The micro-benchmarks, the test suites and the fuzz target compute nothing that the
  program uses, and \<open>lib.rs\<close> of the crates only re-exports.
\<close>

end
